(* ===== verification/Prelude.thy ===== *)
theory Prelude
  imports Main "HOL-Library.Sublist" "HOL-Library.List_Lexorder" "HOL-Library.Char_ord"
begin

text \<open>
  The library the components share: the parts of Rust's standard library the source
  uses on text, results and ordered maps, and the automation for them.

  Text is the list of the bytes of a Rust \<open>str\<close> (its UTF-8 encoding), so \<open>length\<close> is
  \<open>str::len\<close>, and a predicate on ASCII characters is a predicate on single bytes. Unicode
  white space and control characters are recognised in their UTF-8 spelling.
  A fallible operation returns \<open>error + value\<close>, \<open>Inl\<close> being Rust's \<open>Err\<close>.
\<close>

named_theorems text_simps "evaluation of the text operations"
named_theorems ok_cases "inversion of successful results"

type_synonym str = string

section \<open>Results\<close>

abbreviation Ok :: "'a \<Rightarrow> 'e + 'a" where "Ok \<equiv> Inr"
abbreviation Err :: "'e \<Rightarrow> 'e + 'a" where "Err \<equiv> Inl"

definition and_then :: "'e + 'a \<Rightarrow> ('a \<Rightarrow> 'e + 'b) \<Rightarrow> 'e + 'b" where
  "and_then r f = (case r of Inl e \<Rightarrow> Inl e | Inr x \<Rightarrow> f x)"

lemma and_then_simps [simp]:
  "and_then (Inl e) f = Inl e"
  "and_then (Inr x) f = f x"
  by (simp_all add: and_then_def)

lemma and_then_Ok [ok_cases]: "and_then r f = Inr y \<longleftrightarrow> (\<exists>x. r = Inr x \<and> f x = Inr y)"
  by (cases r) auto

lemma and_then_Err [ok_cases]:
  "and_then r f = Inl e \<longleftrightarrow> r = Inl e \<or> (\<exists>x. r = Inr x \<and> f x = Inl e)"
  by (cases r) auto

lemma and_then_cong [fundef_cong]:
  "r = r' \<Longrightarrow> (\<And>x. r' = Inr x \<Longrightarrow> f x = g x) \<Longrightarrow> and_then r f = and_then r' g"
  by (cases r') auto

text \<open>\<open>Option::ok_or\<close>, and \<open>iter().map(f).collect::<Result<Vec<_>, _>>()\<close>.\<close>

definition ok_or :: "'a option \<Rightarrow> 'e \<Rightarrow> 'e + 'a" where
  "ok_or x e = (case x of None \<Rightarrow> Inl e | Some v \<Rightarrow> Inr v)"

lemma ok_or_Ok [ok_cases]: "ok_or x e = Inr v \<longleftrightarrow> x = Some v"
  by (cases x) (auto simp: ok_or_def)

fun collect_res :: "('a \<Rightarrow> 'e + 'b) \<Rightarrow> 'a list \<Rightarrow> 'e + 'b list" where
  "collect_res f [] = Ok []"
| "collect_res f (x # xs) =
     (case f x of Inl e \<Rightarrow> Err e
      | Inr y \<Rightarrow> (case collect_res f xs of Inl e \<Rightarrow> Err e | Inr ys \<Rightarrow> Ok (y # ys)))"

lemma collect_res_Ok: "collect_res f xs = Inr ys \<longleftrightarrow> list_all2 (\<lambda>x y. f x = Inr y) xs ys"
proof (induction xs arbitrary: ys)
  case Nil
  then show ?case by auto
next
  case (Cons x xs)
  show ?case
    by (cases "f x"; cases "collect_res f xs") (auto simp: list_all2_Cons1 Cons.IH [symmetric])
qed

fun collect_opt :: "('a \<Rightarrow> 'b option) \<Rightarrow> 'a list \<Rightarrow> 'b list option" where
  "collect_opt f [] = Some []"
| "collect_opt f (x # xs) =
     (case f x of None \<Rightarrow> None
      | Some y \<Rightarrow> (case collect_opt f xs of None \<Rightarrow> None | Some ys \<Rightarrow> Some (y # ys)))"

lemma collect_opt_Some: "collect_opt f xs = Some ys \<longleftrightarrow> list_all2 (\<lambda>x y. f x = Some y) xs ys"
proof (induction xs arbitrary: ys)
  case Nil
  then show ?case by auto
next
  case (Cons x xs)
  show ?case
    by (cases "f x"; cases "collect_opt f xs") (auto simp: list_all2_Cons1 Cons.IH [symmetric])
qed

fun find_map :: "('a \<Rightarrow> 'b option) \<Rightarrow> 'a list \<Rightarrow> 'b option" where
  "find_map f [] = None"
| "find_map f (x # xs) = (case f x of None \<Rightarrow> find_map f xs | Some y \<Rightarrow> Some y)"

lemma find_map_None: "find_map f xs = None \<longleftrightarrow> (\<forall>x \<in> set xs. f x = None)"
  by (induction xs) (auto split: option.splits)

lemma find_map_SomeD: "find_map f xs = Some y \<Longrightarrow> \<exists>x \<in> set xs. f x = Some y"
  by (induction xs) (auto split: option.splits if_splits)

lemma set_enumerate: "(\<exists>i. (i, x) \<in> set (enumerate n xs)) \<longleftrightarrow> x \<in> set xs"
proof
  assume "x \<in> set xs"
  then obtain i where "i < length xs" "xs ! i = x" by (auto simp: in_set_conv_nth)
  then have "(n + i, x) \<in> set (enumerate n xs)" by (simp add: in_set_enumerate_eq)
  then show "\<exists>i. (i, x) \<in> set (enumerate n xs)" by blast
qed (auto simp: in_set_enumerate_eq)

lemma ball_enumerate: "(\<forall>p \<in> set (enumerate n xs). P (snd p)) \<longleftrightarrow> (\<forall>x \<in> set xs. P x)"
  using set_enumerate [of _ n xs] by (metis prod.exhaust_sel snd_conv)

definition filter_map :: "('a \<Rightarrow> 'b option) \<Rightarrow> 'a list \<Rightarrow> 'b list" where
  "filter_map f xs = List.map_filter f xs"

lemma filter_map_simps [simp]:
  "filter_map f [] = []"
  "filter_map f (x # xs) = (case f x of None \<Rightarrow> filter_map f xs | Some y \<Rightarrow> y # filter_map f xs)"
  by (auto simp: filter_map_def map_filter_simps split: option.splits)

lemma filter_map_cong [fundef_cong]:
  assumes "xs = ys" "\<And>x. x \<in> set ys \<Longrightarrow> f x = g x"
  shows "filter_map f xs = filter_map g ys"
  using assms(2) unfolding assms(1) by (induction ys) (auto split: option.splits)

lemma set_filter_map: "set (filter_map f xs) = {y. \<exists>x \<in> set xs. f x = Some y}"
  by (induction xs) (auto split: option.splits)

lemma filter_map_append [simp]: "filter_map f (xs @ ys) = filter_map f xs @ filter_map f ys"
  by (induction xs) (auto split: option.splits)

text \<open>\<open>position(p)\<close>: the index of the first element that satisfies \<open>p\<close>.\<close>

fun position :: "('a \<Rightarrow> bool) \<Rightarrow> 'a list \<Rightarrow> nat option" where
  "position p [] = None"
| "position p (x # xs) = (if p x then Some 0 else map_option Suc (position p xs))"

lemma position_None: "position p xs = None \<longleftrightarrow> (\<forall>x \<in> set xs. \<not> p x)"
  by (induction xs) auto

lemma position_Some:
  "position p xs = Some i \<longleftrightarrow> i < length xs \<and> p (xs ! i) \<and> (\<forall>j < i. \<not> p (xs ! j))"
proof (induction xs arbitrary: i)
  case Nil
  then show ?case by simp
next
  case (Cons x xs)
  show ?case
  proof (cases i)
    case 0
    then show ?thesis by auto
  next
    case (Suc k)
    then show ?thesis using Cons.IH [of k]
      by (auto simp: less_Suc_eq_0_disj)
  qed
qed

lemma find_None: "List.find P xs = None \<longleftrightarrow> (\<forall>x \<in> set xs. \<not> P x)"
  by (induction xs) auto

lemma find_SomeD: "List.find P xs = Some x \<Longrightarrow> x \<in> set xs \<and> P x"
  by (induction xs) (auto split: if_splits)

lemma find_NoneD: "List.find P xs = None \<Longrightarrow> x \<in> set xs \<Longrightarrow> \<not> P x"
  by (induction xs) (auto split: if_splits)

lemma find_split:
  "List.find P xs = Some x \<Longrightarrow> \<exists>a b. xs = a @ x # b \<and> (\<forall>y \<in> set a. \<not> P y)"
proof (induction xs)
  case (Cons y ys)
  show ?case
  proof (cases "P y")
    case True
    with Cons.prems show ?thesis by (intro exI [of _ "[]"] exI [of _ ys]) simp
  next
    case False
    with Cons obtain a b where "ys = a @ x # b \<and> (\<forall>y \<in> set a. \<not> P y)" by auto
    with False have "y # ys = (y # a) @ x # b \<and> (\<forall>z \<in> set (y # a). \<not> P z)" by simp
    then show ?thesis by blast
  qed
qed simp

lemma find_skip: "\<forall>y \<in> set a. \<not> P y \<Longrightarrow> List.find P (a @ b) = List.find P b"
  by (induction a) auto

section \<open>Characters of a text\<close>

definition code :: "char \<Rightarrow> nat" where
  "code c = of_char c"

definition is_digit :: "char \<Rightarrow> bool" where
  "is_digit c \<longleftrightarrow> 48 \<le> code c \<and> code c \<le> 57"

definition is_upper :: "char \<Rightarrow> bool" where
  "is_upper c \<longleftrightarrow> 65 \<le> code c \<and> code c \<le> 90"

definition is_lower :: "char \<Rightarrow> bool" where
  "is_lower c \<longleftrightarrow> 97 \<le> code c \<and> code c \<le> 122"

definition is_alnum :: "char \<Rightarrow> bool" where
  "is_alnum c \<longleftrightarrow> is_digit c \<or> is_upper c \<or> is_lower c"

definition is_hexdigit :: "char \<Rightarrow> bool" where
  "is_hexdigit c \<longleftrightarrow> is_digit c \<or> (65 \<le> code c \<and> code c \<le> 70) \<or> (97 \<le> code c \<and> code c \<le> 102)"

definition is_ascii :: "char \<Rightarrow> bool" where
  "is_ascii c \<longleftrightarrow> code c < 128"

definition is_ascii_control :: "char \<Rightarrow> bool" where
  "is_ascii_control c \<longleftrightarrow> code c < 32 \<or> code c = 127"

lemmas char_classes = is_digit_def is_upper_def is_lower_def is_alnum_def is_hexdigit_def
  is_ascii_def is_ascii_control_def code_def

declare char_classes [text_simps]

definition to_ascii_lowercase :: "str \<Rightarrow> str" where
  "to_ascii_lowercase = map (\<lambda>c. if is_upper c then char_of (code c + 32) else c)"

definition digit_value :: "char \<Rightarrow> nat" where
  "digit_value c = code c - 48"

lemma digit_value_less: "is_digit c \<Longrightarrow> digit_value c < 10"
  by (auto simp: is_digit_def digit_value_def)

lemma code_inject [simp]: "code a = code b \<longleftrightarrow> a = b"
  by (simp add: code_def)

lemma digit_value_inject: "is_digit a \<Longrightarrow> is_digit b \<Longrightarrow> digit_value a = digit_value b \<longleftrightarrow> a = b"
  by (auto simp: is_digit_def digit_value_def simp flip: code_inject)

section \<open>Text operations\<close>

definition starts_with :: "str \<Rightarrow> str \<Rightarrow> bool" where
  "starts_with p s \<longleftrightarrow> take (length p) s = p"

definition ends_with :: "str \<Rightarrow> str \<Rightarrow> bool" where
  "ends_with p s \<longleftrightarrow> length p \<le> length s \<and> drop (length s - length p) s = p"

definition strip_prefix :: "str \<Rightarrow> str \<Rightarrow> str option" where
  "strip_prefix p s = (if starts_with p s then Some (drop (length p) s) else None)"

definition strip_suffix :: "str \<Rightarrow> str \<Rightarrow> str option" where
  "strip_suffix p s = (if ends_with p s then Some (take (length s - length p) s) else None)"

text \<open>\<open>find(needle)\<close>: the first index the needle occurs at.\<close>

fun find_sub :: "str \<Rightarrow> str \<Rightarrow> nat option" where
  "find_sub p [] = (if p = [] then Some 0 else None)"
| "find_sub p (c # s) =
     (if starts_with p (c # s) then Some 0 else map_option Suc (find_sub p s))"

lemma starts_with_iff: "starts_with p s \<longleftrightarrow> (\<exists>r. s = p @ r)"
  unfolding starts_with_def by (metis append_eq_conv_conj append_take_drop_id)

lemma ends_with_iff: "ends_with p s \<longleftrightarrow> (\<exists>r. s = r @ p)"
proof
  assume "ends_with p s"
  then show "\<exists>r. s = r @ p" unfolding ends_with_def by (metis append_take_drop_id)
qed (auto simp: ends_with_def)

lemma strip_prefix_Some: "strip_prefix p s = Some r \<longleftrightarrow> s = p @ r"
  by (auto simp: strip_prefix_def starts_with_iff)

lemma strip_prefix_append [simp]: "strip_prefix p (p @ r) = Some r" "strip_prefix p p = Some []"
  by (simp_all add: strip_prefix_Some)

lemma strip_prefix_None: "strip_prefix p s = None \<longleftrightarrow> (\<forall>r. s \<noteq> p @ r)"
  by (auto simp: strip_prefix_def starts_with_iff)

lemma strip_suffix_Some: "strip_suffix p s = Some r \<longleftrightarrow> s = r @ p"
  by (auto simp: strip_suffix_def ends_with_iff)

lemma find_sub_None: "find_sub p s = None \<longleftrightarrow> (\<forall>u w. s \<noteq> u @ p @ w)"
proof (induction s)
  case Nil
  then show ?case by auto
next
  case (Cons c s)
  show ?case
  proof (cases "starts_with p (c # s)")
    case True
    then show ?thesis by (auto simp: starts_with_iff) (metis append_Nil)
  next
    case False
    then have "(\<forall>u w. c # s \<noteq> u @ p @ w) \<longleftrightarrow> (\<forall>u w. s \<noteq> u @ p @ w)"
      unfolding starts_with_iff by (metis Cons_eq_append_conv append_Cons)
    with False Cons show ?thesis by simp
  qed
qed

text \<open>The first occurrence leaves the longest rest.\<close>

lemma find_sub_Some:
  "find_sub p s = Some i \<Longrightarrow>
   s = take i s @ p @ drop (i + length p) s \<and> (\<forall>u w. s = u @ p @ w \<longrightarrow> i \<le> length u)"
proof (induction s arbitrary: i)
  case Nil
  then show ?case by (auto split: if_splits)
next
  case (Cons c s)
  show ?case
  proof (cases "starts_with p (c # s)")
    case True
    with Cons.prems show ?thesis by (auto simp: starts_with_def) (metis append_take_drop_id)
  next
    case False
    with Cons.prems obtain j where j: "find_sub p s = Some j" "i = Suc j" by auto
    have "j \<le> length v" if "s = v @ p @ w" for v w using Cons.IH [OF j(1)] that by blast
    have "\<exists>v. u = c # v \<and> s = v @ p @ w" if "c # s = u @ p @ w" for u w
      using that False by (cases u) (auto simp: starts_with_iff)
    have "i \<le> length u" if e: "c # s = u @ p @ w" for u w
    proof -
      from e obtain v where "u = c # v" "s = v @ p @ w"
        using \<open>\<And>u w. c # s = u @ p @ w \<Longrightarrow> \<exists>v. u = c # v \<and> s = v @ p @ w\<close> by blast
      then show ?thesis using \<open>\<And>v w. s = v @ p @ w \<Longrightarrow> j \<le> length v\<close> j by simp
    qed
    moreover have "c # s = take i (c # s) @ p @ drop (i + length p) (c # s)"
      using Cons.IH [OF j(1)] j(2) by simp
    ultimately show ?thesis by blast
  qed
qed

definition contains :: "str \<Rightarrow> str \<Rightarrow> bool" where
  "contains p s \<longleftrightarrow> find_sub p s \<noteq> None"

lemma contains_iff: "contains p s \<longleftrightarrow> (\<exists>u w. s = u @ p @ w)"
  using find_sub_None [of p s] by (auto simp: contains_def)

lemma contains_char [simp]: "contains [c] s \<longleftrightarrow> c \<in> set s"
  by (auto simp: contains_iff in_set_conv_decomp)

lemma contains_head: "c \<notin> set s \<Longrightarrow> \<not> contains (c # p) s"
  by (auto simp: contains_iff)

fun split_once :: "char \<Rightarrow> str \<Rightarrow> (str \<times> str) option" where
  "split_once d [] = None"
| "split_once d (c # s) =
     (if c = d then Some ([], s) else map_option (apfst (Cons c)) (split_once d s))"

lemma split_once_Some:
  "split_once d s = Some (a, b) \<longleftrightarrow> s = a @ d # b \<and> d \<notin> set a"
proof (induction s arbitrary: a)
  case Nil
  then show ?case by simp
next
  case (Cons c s)
  show ?case
    by (cases a) (auto simp: Cons.IH apfst_def map_prod_def split: prod.splits)
qed

lemma split_once_append [simp]: "d \<notin> set a \<Longrightarrow> split_once d (a @ d # b) = Some (a, b)"
  by (simp add: split_once_Some)

lemma split_once_None: "split_once d s = None \<longleftrightarrow> d \<notin> set s"
  by (induction s) auto

definition rsplit_once :: "char \<Rightarrow> str \<Rightarrow> (str \<times> str) option" where
  "rsplit_once d s = map_option (\<lambda>(b, a). (rev a, rev b)) (split_once d (rev s))"

text \<open>\<open>split_once\<close> with a text as the separator.\<close>

definition split_once_str :: "str \<Rightarrow> str \<Rightarrow> (str \<times> str) option" where
  "split_once_str d s =
     map_option (\<lambda>i. (take i s, drop (i + length d) s)) (find_sub d s)"

text \<open>\<open>split(c)\<close>: always at least one segment.\<close>

fun split_on :: "char \<Rightarrow> str \<Rightarrow> str list" where
  "split_on d [] = [[]]"
| "split_on d (c # s) =
     (if c = d then [] # split_on d s
      else (case split_on d s of [] \<Rightarrow> [[c]] | w # ws \<Rightarrow> (c # w) # ws))"

lemma split_on_nonempty [simp]: "split_on d s \<noteq> []"
  by (induction s) (auto split: list.splits)

lemma split_on_free: "w \<in> set (split_on d s) \<Longrightarrow> d \<notin> set w"
  by (induction s arbitrary: w) (auto split: list.splits if_splits)

text \<open>\<open>join\<close>, the inverse of splitting.\<close>

fun join_with :: "str \<Rightarrow> str list \<Rightarrow> str" where
  "join_with d [] = []"
| "join_with d [w] = w"
| "join_with d (w # v # ws) = w @ d @ join_with d (v # ws)"

lemma join_split_on: "join_with [d] (split_on d s) = s"
proof (induction s)
  case (Cons c s)
  show ?case
  proof (cases "split_on d s")
    case (Cons w ws)
    with \<open>join_with [d] (split_on d s) = s\<close> show ?thesis by (cases ws) auto
  qed simp
qed simp

lemma split_on_free_id: "d \<notin> set s \<Longrightarrow> split_on d s = [s]"
  by (induction s) auto

lemma split_on_append: "d \<notin> set a \<Longrightarrow> split_on d (a @ d # s) = a # split_on d s"
  by (induction a) auto

lemma split_on_join:
  "ws \<noteq> [] \<Longrightarrow> \<forall>w \<in> set ws. d \<notin> set w \<Longrightarrow> split_on d (join_with [d] ws) = ws"
  by (induction "[d]" ws rule: join_with.induct) (auto simp: split_on_free_id split_on_append)

text \<open>\<open>lines()\<close>: the text between line feeds, one carriage return dropped before each.\<close>

definition strip_cr :: "str \<Rightarrow> str" where
  "strip_cr l = (case rev l of c # r \<Rightarrow> if code c = 13 then rev r else l | [] \<Rightarrow> l)"

definition lines :: "str \<Rightarrow> str list" where
  "lines s =
     (let parts = split_on (CHR 0x0A) s
      in map strip_cr (butlast parts) @ (if last parts = [] then [] else [last parts]))"

text \<open>\<open>trim_end_matches(p)\<close> for a text pattern, and \<open>trim_end_matches(c)\<close>.\<close>

function trim_end_str :: "str \<Rightarrow> str \<Rightarrow> str" where
  "trim_end_str p s =
     (if p \<noteq> [] \<and> ends_with p s then trim_end_str p (take (length s - length p) s) else s)"
  by pat_completeness auto
termination
proof (relation "measure (\<lambda>(p, s). length s)", simp, goal_cases)
  case (1 p s)
  then obtain n where "length p = Suc n" by (cases p) auto
  with 1 show ?case by (auto simp: ends_with_def)
qed

declare trim_end_str.simps [simp del]

lemma trim_end_str_id: "\<not> ends_with p s \<Longrightarrow> trim_end_str p s = s"
  by (subst trim_end_str.simps) simp

lemma trim_end_str_append: "p \<noteq> [] \<Longrightarrow> trim_end_str p (s @ p) = trim_end_str p s"
  by (subst trim_end_str.simps) (simp add: ends_with_iff)

lemma trim_end_str_prefix: "\<exists>t. s = trim_end_str p s @ t"
proof (induction p s rule: trim_end_str.induct)
  case (1 p s)
  show ?case
  proof (cases "p \<noteq> [] \<and> ends_with p s")
    case True
    have "trim_end_str p s = trim_end_str p (take (length s - length p) s)"
      by (subst trim_end_str.simps) (simp add: True)
    with 1 True obtain t where "take (length s - length p) s = trim_end_str p s @ t" by metis
    then show ?thesis by (metis append.assoc append_take_drop_id)
  next
    case False
    then show ?thesis by (subst trim_end_str.simps) auto
  qed
qed

lemma trim_end_str_done: "p \<noteq> [] \<Longrightarrow> \<not> ends_with p (trim_end_str p s)"
proof (induction p s rule: trim_end_str.induct)
  case (1 p s)
  then show ?case
    by (cases "ends_with p s") (simp_all add: trim_end_str.simps [of p s])
qed

definition trim_end_char :: "char \<Rightarrow> str \<Rightarrow> str" where
  "trim_end_char c s = rev (dropWhile (\<lambda>x. x = c) (rev s))"

lemma trim_end_char_id: "s = [] \<or> last s \<noteq> c \<Longrightarrow> trim_end_char c s = s"
  by (cases s rule: rev_cases) (auto simp: trim_end_char_def)

lemma trim_end_char_append [simp]: "trim_end_char c (s @ [c]) = trim_end_char c s"
  by (simp add: trim_end_char_def)

text \<open>
  \<open>trim()\<close> drops Unicode white space. The length of the white-space character a text starts
  with, in bytes, and the same for the reversed bytes of a text that ends with one:
  U+0009 to U+000D and U+0020, U+0085 and U+00A0, U+1680, U+2000 to U+200A, U+2028, U+2029,
  U+202F, U+205F and U+3000.
\<close>

fun ws3 :: "nat \<Rightarrow> nat \<Rightarrow> nat \<Rightarrow> bool" where
  "ws3 a b c \<longleftrightarrow>
     (a = 0xE1 \<and> b = 0x9A \<and> c = 0x80) \<or>
     (a = 0xE2 \<and> b = 0x80 \<and> ((0x80 \<le> c \<and> c \<le> 0x8A) \<or> c = 0xA8 \<or> c = 0xA9 \<or> c = 0xAF)) \<or>
     (a = 0xE2 \<and> b = 0x81 \<and> c = 0x9F) \<or>
     (a = 0xE3 \<and> b = 0x80 \<and> c = 0x80)"

definition ws1 :: "nat \<Rightarrow> bool" where
  "ws1 a \<longleftrightarrow> (9 \<le> a \<and> a \<le> 13) \<or> a = 32"

definition ws2 :: "nat \<Rightarrow> nat \<Rightarrow> bool" where
  "ws2 a b \<longleftrightarrow> a = 0xC2 \<and> (b = 0x85 \<or> b = 0xA0)"

fun ws_front :: "str \<Rightarrow> nat" where
  "ws_front (a # b # c # s) =
     (if ws1 (code a) then 1 else if ws2 (code a) (code b) then 2
      else if ws3 (code a) (code b) (code c) then 3 else 0)"
| "ws_front [a, b] = (if ws1 (code a) then 1 else if ws2 (code a) (code b) then 2 else 0)"
| "ws_front [a] = (if ws1 (code a) then 1 else 0)"
| "ws_front [] = 0"

fun ws_back :: "str \<Rightarrow> nat" where
  "ws_back (c # b # a # s) =
     (if ws1 (code c) then 1 else if ws2 (code b) (code c) then 2
      else if ws3 (code a) (code b) (code c) then 3 else 0)"
| "ws_back [b, a] = (if ws1 (code b) then 1 else if ws2 (code a) (code b) then 2 else 0)"
| "ws_back [a] = (if ws1 (code a) then 1 else 0)"
| "ws_back [] = 0"

lemma ws_front_le: "ws_front s \<le> length s"
  by (cases s rule: ws_front.cases) auto

lemma ws_back_le: "ws_back s \<le> length s"
  by (cases s rule: ws_back.cases) auto

function drop_ws :: "(str \<Rightarrow> nat) \<Rightarrow> str \<Rightarrow> str" where
  "drop_ws w s = (if w s = 0 \<or> s = [] then s else drop_ws w (drop (w s) s))"
  by pat_completeness auto
termination
  by (relation "measure (\<lambda>(w, s). length s)") auto

declare drop_ws.simps [simp del]

definition trim_start :: "str \<Rightarrow> str" where
  "trim_start s = drop_ws ws_front s"

definition trim_end :: "str \<Rightarrow> str" where
  "trim_end s = rev (drop_ws ws_back (rev s))"

definition trim :: "str \<Rightarrow> str" where
  "trim s = trim_end (trim_start s)"

text \<open>\<open>chars().any(char::is_control)\<close>: U+0000 to U+001F, U+007F, and U+0080 to U+009F.\<close>

fun any_control :: "str \<Rightarrow> bool" where
  "any_control [] = False"
| "any_control [a] = is_ascii_control a"
| "any_control (a # b # s) =
     (is_ascii_control a \<or> (code a = 0xC2 \<and> 0x80 \<le> code b \<and> code b \<le> 0x9F) \<or> any_control (b # s))"

text \<open>\<open>parse::<u64>()\<close> and its narrower kin: an optional plus sign, then digits, within bounds.\<close>

definition digits_value :: "str \<Rightarrow> nat" where
  "digits_value s = foldl (\<lambda>n c. 10 * n + digit_value c) 0 s"

definition parse_uint :: "nat \<Rightarrow> str \<Rightarrow> nat option" where
  "parse_uint w s =
     (let d = (case s of c # r \<Rightarrow> if c = CHR ''+'' then r else s | [] \<Rightarrow> s)
      in if d = [] \<or> \<not> list_all is_digit d \<or> digits_value d \<ge> 2 ^ w then None
         else Some (digits_value d))"

text \<open>Decimal digits, and \<open>to_string\<close> of an unsigned number.\<close>

definition digit_char :: "nat \<Rightarrow> char" where
  "digit_char n = char_of (48 + n mod 10)"

fun show_nat :: "nat \<Rightarrow> str" where
  "show_nat n = (if n < 10 then [digit_char n] else show_nat (n div 10) @ [digit_char n])"

declare show_nat.simps [simp del]

section \<open>Ordered maps\<close>

text \<open>A \<open>BTreeMap\<close> that is iterated: its entries in the order of their keys.\<close>

fun bt_insert :: "'k::linorder \<Rightarrow> 'v \<Rightarrow> ('k \<times> 'v) list \<Rightarrow> ('k \<times> 'v) list" where
  "bt_insert k v [] = [(k, v)]"
| "bt_insert k v ((k', v') # m) =
     (if k < k' then (k, v) # (k', v') # m
      else if k = k' then (k, v) # m
      else (k', v') # bt_insert k v m)"

definition bt_map :: "('k::linorder \<times> 'v) list \<Rightarrow> bool" where
  "bt_map m \<longleftrightarrow> sorted_wrt (<) (map fst m)"

lemma map_of_bt_insert [simp]: "map_of (bt_insert k v m) = (map_of m)(k \<mapsto> v)"
  by (induction k v m rule: bt_insert.induct) (auto simp: fun_eq_iff)

lemma set_bt_insert: "set (map fst (bt_insert k v m)) = insert k (set (map fst m))"
  by (induction k v m rule: bt_insert.induct) auto

lemma bt_map_insert: "bt_map m \<Longrightarrow> bt_map (bt_insert k v m)"
proof (induction k v m rule: bt_insert.induct)
  case (2 k v k' v' m)
  then show ?case using set_bt_insert [of k v m]
    by (fastforce simp: bt_map_def)
qed (simp add: bt_map_def)

lemma bt_map_distinct: "bt_map m \<Longrightarrow> distinct (map fst m)"
  unfolding bt_map_def by (induction m) auto

section \<open>Paths\<close>

text \<open>Paths on Unix are texts: \<open>is_absolute\<close>, \<open>join\<close> and \<open>file_name\<close>.\<close>

definition is_absolute :: "str \<Rightarrow> bool" where
  "is_absolute p = starts_with ''/'' p"

definition path_join :: "str \<Rightarrow> str \<Rightarrow> str" where
  "path_join a b =
     (if is_absolute b then b else if a = [] \<or> ends_with ''/'' a then a @ b else a @ ''/'' @ b)"

section \<open>Remote branches\<close>

text \<open>What a remote has for one branch, as it answers now (\<open>git::RemoteTip\<close>).\<close>

datatype remote_tip = TipAt str | TipAbsent | TipUnknown

end
