(* ===== verification/Labels.thy ===== *)
theory Labels
  imports Prelude
begin

text \<open>
  The labels a session carries (\<open>label.rs\<close>): the one grammar they are written and read by.
  A \<open>BTreeMap<String, String>\<close> that is only looked up is a map; one that is iterated is the
  list of its entries in key order.
\<close>

datatype label_error =
    NotALabel str
  | BadKey str
  | ValueHoldsNewline str
  | KeyGivenTwice str

definition key_char :: "char \<Rightarrow> bool" where
  "key_char c \<longleftrightarrow> is_alnum c \<or> c = CHR ''_'' \<or> c = CHR ''-''"

definition label_check :: "str \<Rightarrow> str \<Rightarrow> label_error + unit" where
  "label_check key value =
     (if key = [] \<or> \<not> list_all key_char key then Err (BadKey key)
      else if CHR 0x0A \<in> set value then Err (ValueHoldsNewline key)
      else Ok ())"

definition label_parse :: "str \<Rightarrow> label_error + (str \<times> str)" where
  "label_parse spec =
     (case split_once (CHR ''='') spec of
        None \<Rightarrow> Err (NotALabel spec)
      | Some (key, value) \<Rightarrow> and_then (label_check key value) (\<lambda>_. Ok (key, value)))"

text \<open>The loop of \<open>parse_all\<close>, from the map it has built so far.\<close>

fun parse_from :: "(str \<rightharpoonup> str) \<Rightarrow> str list \<Rightarrow> label_error + (str \<rightharpoonup> str)" where
  "parse_from labels [] = Ok labels"
| "parse_from labels (spec # specs) =
     and_then (label_parse spec) (\<lambda>(key, value).
       if labels key \<noteq> None then Err (KeyGivenTwice key)
       else parse_from (labels(key \<mapsto> value)) specs)"

definition parse_all :: "str list \<Rightarrow> label_error + (str \<rightharpoonup> str)" where
  "parse_all specs = parse_from Map.empty specs"

fun label_validate :: "(str \<times> str) list \<Rightarrow> label_error + unit" where
  "label_validate [] = Ok ()"
| "label_validate ((key, value) # rest) = and_then (label_check key value) (\<lambda>_. label_validate rest)"

definition label_matches :: "(str \<rightharpoonup> str) \<Rightarrow> (str \<times> str) list \<Rightarrow> bool" where
  "label_matches carried wanted \<longleftrightarrow> list_all (\<lambda>(key, value). carried key = Some value) wanted"

section \<open>The grammar, declaratively\<close>

definition spell :: "str \<times> str \<Rightarrow> str" where
  "spell kv = fst kv @ CHR ''='' # snd kv"

definition spellable :: "str \<times> str \<Rightarrow> bool" where
  "spellable kv \<longleftrightarrow>
     fst kv \<noteq> [] \<and> (\<forall>c \<in> set (fst kv). key_char c) \<and> CHR 0x0A \<notin> set (snd kv)"

lemma label_check_Ok: "label_check key value = Ok () \<longleftrightarrow> spellable (key, value)"
  by (auto simp: label_check_def spellable_def list_all_iff)

lemma spellable_key: "spellable kv \<Longrightarrow> CHR ''='' \<notin> set (fst kv)"
  by (auto simp: spellable_def key_char_def char_classes)

lemma label_parse_Ok: "label_parse spec = Ok kv \<longleftrightarrow> spec = spell kv \<and> spellable kv"
proof
  assume "label_parse spec = Ok kv"
  then show "spec = spell kv \<and> spellable kv"
    by (auto simp: label_parse_def spell_def ok_cases label_check_Ok split_once_Some
        split: option.splits)
next
  assume "spec = spell kv \<and> spellable kv"
  with spellable_key [of kv] show "label_parse spec = Ok kv"
    by (cases kv) (auto simp: label_parse_def spell_def ok_cases label_check_Ok)
qed

lemma parse_from_Ok:
  "parse_from m specs = Ok m' \<longleftrightarrow>
     (\<exists>kvs. specs = map spell kvs \<and> list_all spellable kvs \<and> distinct (map fst kvs) \<and>
            (\<forall>kv \<in> set kvs. m (fst kv) = None) \<and> m' = m ++ map_of kvs)"
proof (induction specs arbitrary: m)
  case Nil
  then show ?case by auto
next
  case (Cons spec specs)
  have shift: "m(fst kv \<mapsto> snd kv) ++ map_of kvs = m ++ map_of (kv # kvs)"
    if "fst kv \<notin> fst ` set kvs" for kv :: "str \<times> str" and kvs
  proof -
    from that have "map_of kvs (fst kv) = None" by (simp add: map_of_eq_None_iff)
    then show ?thesis by (auto simp: map_add_def fun_eq_iff split: option.splits)
  qed
  have step: "parse_from m (spec # specs) = Ok m' \<longleftrightarrow>
     (\<exists>kv. spec = spell kv \<and> spellable kv \<and> m (fst kv) = None \<and>
           parse_from (m(fst kv \<mapsto> snd kv)) specs = Ok m')"
    by (auto simp: ok_cases label_parse_Ok split: if_splits)
  show ?case (is "_ \<longleftrightarrow> ?R")
  proof
    assume "parse_from m (spec # specs) = Ok m'"
    then obtain kv kvs where *: "spec = spell kv" "spellable kv" "m (fst kv) = None"
      "specs = map spell kvs" "list_all spellable kvs" "distinct (map fst kvs)"
      "\<forall>e \<in> set kvs. (m(fst kv \<mapsto> snd kv)) (fst e) = None"
      "m' = m(fst kv \<mapsto> snd kv) ++ map_of kvs"
      unfolding step Cons.IH by blast
    then have "fst kv \<notin> fst ` set kvs" by (auto split: if_splits)
    then have "m' = m ++ map_of (kv # kvs)" using * shift by metis
    with * \<open>fst kv \<notin> fst ` set kvs\<close> show ?R
      by (intro exI [of _ "kv # kvs"]) (auto simp del: map_of.simps split: if_splits)
  next
    assume ?R
    then obtain kv kvs where *: "spec = spell kv" "specs = map spell kvs"
      "spellable kv" "list_all spellable kvs" "fst kv \<notin> fst ` set kvs" "distinct (map fst kvs)"
      "m (fst kv) = None" "\<forall>e \<in> set kvs. m (fst e) = None" "m' = m ++ map_of (kv # kvs)"
      by (auto simp: Cons_eq_map_conv simp del: map_of.simps)
    then have "\<forall>e \<in> set kvs. (m(fst kv \<mapsto> snd kv)) (fst e) = None"
      by (metis fun_upd_other image_eqI)
    with * shift [of kv kvs] show "parse_from m (spec # specs) = Ok m'"
      unfolding step Cons.IH by metis
  qed
qed

lemma label_validate_Ok: "label_validate kvs = Ok () \<longleftrightarrow> list_all spellable kvs"
  by (induction kvs rule: label_validate.induct) (auto simp: ok_cases label_check_Ok)

end
