(* ===== verification/Ids.thy ===== *)
theory Ids
  imports Prelude
begin

text \<open>
  The spellings that arrive from outside the process and are checked where they do:
  identifiers that name a file and timestamps (\<open>ids.rs\<close>), object ids and branch names
  (\<open>git.rs\<close>), and LFS pointers (\<open>lfs_pointer.rs\<close>).
\<close>

section \<open>Names and timestamps\<close>

definition is_safe_name :: "str \<Rightarrow> bool" where
  "is_safe_name value \<longleftrightarrow>
     value \<noteq> [] \<and> value \<noteq> ''.'' \<and> value \<noteq> ''..'' \<and>
     list_all (\<lambda>c. is_alnum c \<or> c \<in> {CHR ''-'', CHR ''_'', CHR ''.''}) value"

definition timestamp_shape :: str where
  "timestamp_shape = ''0000-00-00T00:00:00.000Z''"

definition is_timestamp :: "str \<Rightarrow> bool" where
  "is_timestamp value \<longleftrightarrow>
     length value = length timestamp_shape \<and>
     list_all (\<lambda>(had, want). if want = CHR ''0'' then is_digit had else had = want)
       (zip value timestamp_shape)"

text \<open>The calendar of the clock crate: the fields of a date and time, in range.\<close>

definition leap_year :: "nat \<Rightarrow> bool" where
  "leap_year y \<longleftrightarrow> y mod 4 = 0 \<and> (y mod 100 \<noteq> 0 \<or> y mod 400 = 0)"

definition days_in_month :: "nat \<Rightarrow> nat \<Rightarrow> nat" where
  "days_in_month y m =
     (if m \<in> {4, 6, 9, 11} then 30 else if m = 2 then (if leap_year y then 29 else 28) else 31)"

record instant =
  year :: nat
  month :: nat
  day :: nat
  hour :: nat
  minute :: nat
  second :: nat
  millisecond :: nat

definition field :: "str \<Rightarrow> nat \<Rightarrow> nat \<Rightarrow> nat option" where
  "field value from to = parse_uint 32 (take (to - from) (drop from value))"

definition calendar :: "instant \<Rightarrow> bool" where
  "calendar t \<longleftrightarrow>
     1 \<le> month t \<and> month t \<le> 12 \<and> 1 \<le> day t \<and> day t \<le> days_in_month (year t) (month t) \<and>
     hour t \<le> 23 \<and> minute t \<le> 59 \<and> second t \<le> 59 \<and> millisecond t \<le> 999"

definition instant_of :: "str \<Rightarrow> instant option" where
  "instant_of value =
     (if \<not> is_timestamp value then None
      else case (field value 0 4, field value 5 7, field value 8 10, field value 11 13,
                 field value 14 16, field value 17 19, field value 20 23) of
        (Some y, Some mo, Some d, Some h, Some mi, Some s, Some ms) \<Rightarrow>
          (let t = \<lparr>year = y, month = mo, day = d, hour = h, minute = mi, second = s,
                    millisecond = ms\<rparr>
           in if calendar t then Some t else None)
      | _ \<Rightarrow> None)"

text \<open>\<open>stamp\<close>, on the fields of the moment in UTC.\<close>

fun padded :: "nat \<Rightarrow> nat \<Rightarrow> str" where
  "padded 0 n = []"
| "padded (Suc w) n = padded w (n div 10) @ [digit_char n]"

definition stamp :: "instant \<Rightarrow> str" where
  "stamp t = padded 4 (year t) @ ''-'' @ padded 2 (month t) @ ''-'' @ padded 2 (day t) @ ''T'' @
     padded 2 (hour t) @ '':'' @ padded 2 (minute t) @ '':'' @ padded 2 (second t) @ ''.'' @
     padded 3 (millisecond t) @ ''Z''"

text \<open>The order of moments, field by field.\<close>

definition date_fields :: "instant \<Rightarrow> nat list" where
  "date_fields t = [year t, month t, day t, hour t, minute t, second t, millisecond t]"

section \<open>Object ids, branch names and pointers\<close>

definition object_id :: "str \<Rightarrow> str option" where
  "object_id value =
     (if (length value = 40 \<or> length value = 64) \<and> list_all is_hexdigit value
      then Some value else None)"

definition plainly_a_ref_name :: "str \<Rightarrow> bool" where
  "plainly_a_ref_name branch \<longleftrightarrow>
     branch \<noteq> [] \<and> \<not> ends_with ''.'' branch \<and> \<not> contains ''..'' branch \<and> \<not> contains (CHR ''@'' # ''{'') branch \<and>
     \<not> list_ex (\<lambda>b. code b \<le> 32 \<or> code b = 127 \<or>
                 b \<in> set ''~^:?*['' \<or> b = CHR 0x5C) branch \<and>
     list_all (\<lambda>part. part \<noteq> [] \<and> \<not> starts_with ''.'' part \<and> \<not> ends_with ''.lock'' part)
       (split_on (CHR ''/'') branch)"

text \<open>What git itself answers for an unusual name is a parameter; the answers it gave are kept.\<close>

definition is_valid_branch_name ::
    "(str \<Rightarrow> bool) \<Rightarrow> (str \<rightharpoonup> bool) \<Rightarrow> str \<Rightarrow> bool \<times> (str \<rightharpoonup> bool)" where
  "is_valid_branch_name check_ref_format accepted branch =
     (if branch = [] \<or> starts_with ''-'' branch then (False, accepted)
      else if plainly_a_ref_name branch then (True, accepted)
      else case accepted branch of
             Some known \<Rightarrow> (known, accepted)
           | None \<Rightarrow> (let valid = check_ref_format (''refs/heads/'' @ branch)
                     in (valid, accepted(branch \<mapsto> valid))))"

record pointer =
  pointer_oid :: str
  pointer_size :: nat

definition MAX_BYTES :: nat where "MAX_BYTES = 1024"

definition sha256_oid :: "str \<Rightarrow> str option" where
  "sha256_oid value =
     (if length value = 64 \<and> list_all (\<lambda>b. is_hexdigit b \<and> \<not> is_upper b) value
      then Some value else None)"

text \<open>The bytes are taken to be UTF-8; \<open>valid_utf8\<close> answers whether they are.\<close>

definition pointer_parse :: "(str \<Rightarrow> bool) \<Rightarrow> str \<Rightarrow> pointer option" where
  "pointer_parse valid_utf8 bytes =
     (if length bytes > MAX_BYTES then None
      else if \<not> valid_utf8 bytes then None
      else case lines bytes of
        version # oid_line # size_line # rest \<Rightarrow>
          if version \<noteq> ''version https://git-lfs.github.com/spec/v1'' then None
          else Option.bind (strip_prefix ''oid sha256:'' oid_line) (\<lambda>oid_text.
               Option.bind (sha256_oid oid_text) (\<lambda>oid.
               Option.bind (strip_prefix ''size '' size_line) (\<lambda>size_text.
               Option.bind (parse_uint 64 size_text) (\<lambda>size.
                 if rest \<noteq> [] then None
                 else Some \<lparr>pointer_oid = oid, pointer_size = size\<rparr>))))
      | _ \<Rightarrow> None)"

section \<open>Fixed-width numbers\<close>

lemma code_digit_char: "code (digit_char n) = 48 + n mod 10"
proof -
  have "n mod 10 < 10" by simp
  then have "48 + n mod 10 < 256" by linarith
  then show ?thesis by (simp add: code_def digit_char_def)
qed

lemma digit_char_simps [simp]:
  "is_digit (digit_char n)" "digit_value (digit_char n) = n mod 10"
proof -
  have "n mod 10 < 10" by simp
  then have "n mod 10 \<le> 9" by linarith
  then show "is_digit (digit_char n)" "digit_value (digit_char n) = n mod 10"
    by (simp_all add: is_digit_def digit_value_def code_digit_char)
qed

lemma digit_char_value: "is_digit c \<Longrightarrow> digit_char (digit_value c) = c"
  using code_digit_char [of "digit_value c"]
  by (auto simp: is_digit_def digit_value_def simp flip: code_inject)

lemma digit_char_less: "m < 10 \<Longrightarrow> n < 10 \<Longrightarrow> digit_char m < digit_char n \<longleftrightarrow> m < n"
  using code_digit_char [of m] code_digit_char [of n] by (simp add: less_char_def code_def)

lemma digits_value_simps [simp]:
  "digits_value [] = 0" "digits_value (s @ [c]) = 10 * digits_value s + digit_value c"
  by (simp_all add: digits_value_def)

lemma length_padded [simp]: "length (padded w n) = w"
  by (induction w arbitrary: n) auto

lemma padded_digits [simp]: "list_all is_digit (padded w n)"
  by (induction w arbitrary: n) auto

lemma digits_value_padded: "n < 10 ^ w \<Longrightarrow> digits_value (padded w n) = n"
proof (induction w arbitrary: n)
  case 0
  then show ?case by simp
next
  case (Suc w)
  then have "n div 10 < 10 ^ w" by (simp add: less_mult_imp_div_less mult.commute)
  with Suc.IH show ?case by simp
qed

lemma padded_digits_value: "list_all is_digit s \<Longrightarrow> padded (length s) (digits_value s) = s"
proof (induction s rule: rev_induct)
  case Nil
  then show ?case by simp
next
  case (snoc c s)
  then have "digit_value c < 10" by (simp add: digit_value_less)
  then have "(10 * digits_value s + digit_value c) div 10 = digits_value s"
    "digit_char (10 * digits_value s + digit_value c) = digit_char (digit_value c)"
    by (simp_all add: digit_char_def)
  with snoc show ?case by (simp add: digit_char_value)
qed

lemma digits_value_bound: "list_all is_digit s \<Longrightarrow> digits_value s < 10 ^ length s"
proof (induction s rule: rev_induct)
  case (snoc c s)
  then have "digit_value c < 10" "digits_value s < 10 ^ length s" by (simp_all add: digit_value_less)
  then show ?case by simp
qed simp

lemma parse_uint_digits:
  assumes "list_all is_digit s" "s \<noteq> []" "digits_value s < 2 ^ w"
  shows "parse_uint w s = Some (digits_value s)"
proof -
  have "hd s \<noteq> CHR ''+''" using assms by (cases s) (auto simp: char_classes)
  with assms show ?thesis by (cases s) (auto simp: parse_uint_def)
qed

lemma less_append_same_length:
  "length a = length b \<Longrightarrow> a @ c < b @ d \<longleftrightarrow> a < b \<or> a = b \<and> c < d" for a b :: "'a::linorder list"
  by (induction a b rule: list_induct2) auto

lemma div_mod_less: "m div 10 < n div 10 \<or> m div 10 = n div 10 \<and> m mod 10 < n mod 10 \<longleftrightarrow> m < n"
  for m n :: nat
proof -
  have "m = 10 * (m div 10) + m mod 10" "n = 10 * (n div 10) + n mod 10" by simp_all
  moreover have "m mod 10 < 10" "n mod 10 < 10" by simp_all
  ultimately show ?thesis by linarith
qed

lemma padded_less:
  "m < 10 ^ w \<Longrightarrow> n < 10 ^ w \<Longrightarrow> padded w m < padded w n \<longleftrightarrow> m < n"
proof (induction w arbitrary: m n)
  case 0
  then show ?case by simp
next
  case (Suc w)
  then have b: "m div 10 < 10 ^ w" "n div 10 < 10 ^ w"
    by (simp_all add: less_mult_imp_div_less mult.commute)
  have inj: "padded w (m div 10) = padded w (n div 10) \<longleftrightarrow> m div 10 = n div 10"
    using b digits_value_padded by metis
  have "digit_char m < digit_char n \<longleftrightarrow> m mod 10 < n mod 10"
    using digit_char_less [of "m mod 10" "n mod 10"] by (simp add: digit_char_def)
  with b inj Suc.IH have "padded (Suc w) m < padded (Suc w) n \<longleftrightarrow>
      m div 10 < n div 10 \<or> m div 10 = n div 10 \<and> m mod 10 < n mod 10"
    by (simp add: less_append_same_length)
  also have "\<dots> \<longleftrightarrow> m < n"
    by (rule div_mod_less)
  finally show ?case .
qed

lemma padded_inject: "m < 10 ^ w \<Longrightarrow> n < 10 ^ w \<Longrightarrow> padded w m = padded w n \<longleftrightarrow> m = n"
  by (metis digits_value_padded)

section \<open>Timestamps\<close>

lemma field_padded:
  assumes "n < 10 ^ w" "0 < w" "n < 2 ^ 32"
  shows "parse_uint 32 (padded w n) = Some n"
proof -
  have "padded w n \<noteq> []" using assms(2) by (simp flip: length_greater_0_conv)
  with parse_uint_digits [of "padded w n" 32] assms show ?thesis
    by (simp add: digits_value_padded)
qed

definition in_range :: "instant \<Rightarrow> bool" where
  "in_range t \<longleftrightarrow> calendar t \<and> year t \<le> 9999"

lemma in_range_bounds:
  assumes "in_range t"
  shows "year t < 10 ^ 4" "month t < 10 ^ 2" "day t < 10 ^ 2" "hour t < 10 ^ 2"
    "minute t < 10 ^ 2" "second t < 10 ^ 2" "millisecond t < 10 ^ 3"
  using assms by (auto simp: in_range_def calendar_def days_in_month_def split: if_splits)

lemma padded_unfold:
  "padded 2 n = [digit_char (n div 10), digit_char n]"
  "padded 3 n = [digit_char (n div 10 div 10), digit_char (n div 10), digit_char n]"
  "padded 4 n = [digit_char (n div 10 div 10 div 10), digit_char (n div 10 div 10),
     digit_char (n div 10), digit_char n]"
proof -
  have w: "(2::nat) = Suc (Suc 0)" "(3::nat) = Suc (Suc (Suc 0))" "(4::nat) = Suc (Suc (Suc (Suc 0)))"
    by simp_all
  show "padded 2 n = [digit_char (n div 10), digit_char n]"
    "padded 3 n = [digit_char (n div 10 div 10), digit_char (n div 10), digit_char n]"
    "padded 4 n = [digit_char (n div 10 div 10 div 10), digit_char (n div 10 div 10),
     digit_char (n div 10), digit_char n]"
    unfolding w by (simp_all only: padded.simps append.simps)
qed

lemma is_timestamp_stamp: "is_timestamp (stamp t)"
  by (simp add: is_timestamp_def timestamp_shape_def stamp_def padded_unfold)

lemma field_stamp:
  "field (stamp t) 0 4 = parse_uint 32 (padded 4 (year t))"
  "field (stamp t) 5 7 = parse_uint 32 (padded 2 (month t))"
  "field (stamp t) 8 10 = parse_uint 32 (padded 2 (day t))"
  "field (stamp t) 11 13 = parse_uint 32 (padded 2 (hour t))"
  "field (stamp t) 14 16 = parse_uint 32 (padded 2 (minute t))"
  "field (stamp t) 17 19 = parse_uint 32 (padded 2 (second t))"
  "field (stamp t) 20 23 = parse_uint 32 (padded 3 (millisecond t))"
  by (simp_all add: field_def stamp_def padded_unfold)

lemma instant_of_stamp: "in_range t \<Longrightarrow> instant_of (stamp t) = Some t"
  using in_range_bounds [of t]
  by (simp add: instant_of_def is_timestamp_stamp field_stamp field_padded Let_def)
    (simp add: in_range_def calendar_def)

lemma stamp_less:
  assumes "in_range t" "in_range u"
  shows "stamp t < stamp u \<longleftrightarrow> date_fields t < date_fields u"
  using in_range_bounds [OF assms(1)] in_range_bounds [OF assms(2)]
  by (simp add: stamp_def date_fields_def less_append_same_length padded_less padded_inject
)

lemma instant_of_inv:
  assumes "instant_of a = Some t"
  shows "stamp t = a" "in_range t"
proof -
  have ts: "is_timestamp a" using assms by (auto simp: instant_of_def split: if_splits)
  then have "length a = 24" by (simp add: is_timestamp_def timestamp_shape_def)
  then obtain y1 y2 y3 y4 s1 m1 m2 s2 d1 d2 s3 h1 h2 s4 i1 i2 s5 c1 c2 s6 u1 u2 u3 s7 where
    a: "a = [y1, y2, y3, y4, s1, m1, m2, s2, d1, d2, s3, h1, h2, s4, i1, i2, s5, c1, c2, s6,
             u1, u2, u3, s7]"
    by (auto simp: numeral_eq_Suc length_Suc_conv)
  from ts have d: "is_digit y1" "is_digit y2" "is_digit y3" "is_digit y4" "is_digit m1" "is_digit m2"
      "is_digit d1" "is_digit d2" "is_digit h1" "is_digit h2" "is_digit i1" "is_digit i2"
      "is_digit c1" "is_digit c2" "is_digit u1" "is_digit u2" "is_digit u3"
    and sep: "s1 = CHR ''-''" "s2 = CHR ''-''" "s3 = CHR ''T''" "s4 = CHR '':''" "s5 = CHR '':''"
      "s6 = CHR ''.''" "s7 = CHR ''Z''"
    unfolding a by (simp_all add: is_timestamp_def timestamp_shape_def)
  have parse: "n = digits_value s" if "parse_uint 32 s = Some n" "list_all is_digit s" for s n
    using that by (cases s) (auto simp: parse_uint_def Let_def char_classes split: if_splits)
  let ?f = "\<lambda>i j. digits_value (take (j - i) (drop i a))"
  from assms ts d have t: "t = \<lparr>year = ?f 0 4, month = ?f 5 7, day = ?f 8 10, hour = ?f 11 13,
      minute = ?f 14 16, second = ?f 17 19, millisecond = ?f 20 23\<rparr>" and cal: "calendar t"
    by (auto simp: instant_of_def field_def a Let_def split: option.splits if_splits
        dest: parse [where s = "[y1, y2, y3, y4]"] parse [where s = "[m1, m2]"]
          parse [where s = "[d1, d2]"] parse [where s = "[h1, h2]"] parse [where s = "[i1, i2]"]
          parse [where s = "[c1, c2]"] parse [where s = "[u1, u2, u3]"])
  have width: "Suc (Suc 0) = 2" "Suc 2 = 3" "Suc 3 = 4" by simp_all
  have p4: "padded 4 (digits_value [y1, y2, y3, y4]) = [y1, y2, y3, y4]"
    using padded_digits_value [of "[y1, y2, y3, y4]"] d by (simp add: width)
  have p2: "padded 2 (digits_value [p, q]) = [p, q]" if "is_digit p" "is_digit q" for p q
    using padded_digits_value [of "[p, q]"] that by (simp add: width)
  have p3: "padded 3 (digits_value [u1, u2, u3]) = [u1, u2, u3]"
    using padded_digits_value [of "[u1, u2, u3]"] d by (simp add: width)
  show "stamp t = a" using d sep by (simp add: stamp_def t a p2 p3 p4)
  have "year t < 10 ^ 4" using digits_value_bound [of "[y1, y2, y3, y4]"] d by (simp add: t a)
  with cal show "in_range t" by (simp add: in_range_def)
qed

section \<open>Properties\<close>

text \<open>Timestamps sort as text in the order of the instants they name.\<close>

lemma timestamp_order:
  assumes "instant_of a = Some t" "instant_of b = Some u"
  shows "a < b \<longleftrightarrow> date_fields t < date_fields u"
  using stamp_less instant_of_inv [OF assms(1)] instant_of_inv [OF assms(2)] by metis

lemma timestamp_order_witness:
  "''2026-02-28T23:59:59.999Z'' < (''2026-03-01T00:00:00.000Z'' :: str)"
proof -
  let ?a = "\<lparr>year = 2026, month = 2, day = 28, hour = 23, minute = 59, second = 59,
             millisecond = 999\<rparr>"
  let ?b = "\<lparr>year = 2026, month = 3, day = 1, hour = 0, minute = 0, second = 0,
             millisecond = 0\<rparr>"
  have "stamp ?a = ''2026-02-28T23:59:59.999Z''" "stamp ?b = ''2026-03-01T00:00:00.000Z''"
    "in_range ?a" "in_range ?b"
    by (simp_all add: stamp_def padded_unfold digit_char_def char_of_eq_iff in_range_def
        calendar_def days_in_month_def leap_year_def)
  then have "instant_of ''2026-02-28T23:59:59.999Z'' = Some ?a"
    "instant_of ''2026-03-01T00:00:00.000Z'' = Some ?b"
    using instant_of_stamp by metis+
  moreover have "date_fields ?a < date_fields ?b" by (simp add: date_fields_def)
  ultimately show ?thesis by (simp only: timestamp_order)
qed

text \<open>A timestamp reads back as the instant it was written at, and nothing else reads as one: a
  text names an instant exactly when the instant is in range and the text is its stamp.\<close>

lemma timestamp_roundtrip:
  "instant_of a = Some t \<longleftrightarrow> in_range t \<and> stamp t = a"
  using instant_of_inv instant_of_stamp by metis

end
