(* ===== verification/Json.thy ===== *)
theory Json
  imports Prelude
begin

text \<open>
  JSON documents as \<open>serde_json::Value\<close> holds them: an object is the list of its entries in
  the order they were inserted, its keys distinct; a number is kept as its canonical text.
\<close>

datatype json =
    Null
  | Bool bool
  | Number str
  | Str str
  | Array "json list"
  | Object "(str \<times> json) list"

lemma size_entry [termination_simp]:
  "(k, v) \<in> set m \<Longrightarrow> size v < Suc (size_list (\<lambda>x. Suc (size (snd x))) m)" for v :: json
  by (induction m) auto

lemma size_entry' [termination_simp]:
  "kv \<in> set m \<Longrightarrow> size (snd kv) < Suc (size_list (size_prod (\<lambda>x. 0) size) m)" for kv :: "str \<times> json"
  by (induction m) auto

lemma size_zip [termination_simp]:
  "(a, b) \<in> set (zip xs ys) \<Longrightarrow> size a < Suc (size_list size xs)"
  "(a, b) \<in> set (zip xs ys) \<Longrightarrow> size b < Suc (size_list size ys)"
  by (induction xs ys rule: list_induct2') auto

definition as_object :: "json \<Rightarrow> (str \<times> json) list option" where
  "as_object v = (case v of Object m \<Rightarrow> Some m | _ \<Rightarrow> None)"

definition as_array :: "json \<Rightarrow> json list option" where
  "as_array v = (case v of Array vs \<Rightarrow> Some vs | _ \<Rightarrow> None)"

definition as_str :: "json \<Rightarrow> str option" where
  "as_str v = (case v of Str s \<Rightarrow> Some s | _ \<Rightarrow> None)"

definition as_bool :: "json \<Rightarrow> bool option" where
  "as_bool v = (case v of Bool b \<Rightarrow> Some b | _ \<Rightarrow> None)"

definition as_u64 :: "json \<Rightarrow> nat option" where
  "as_u64 v = (case v of Number n \<Rightarrow> (if list_all is_digit n then parse_uint 64 n else None) | _ \<Rightarrow> None)"

definition get :: "str \<Rightarrow> json \<Rightarrow> json option" where
  "get key v = (case v of Object m \<Rightarrow> map_of m key | _ \<Rightarrow> None)"

lemma json_views [simp]:
  "as_object (Object m) = Some m" "as_array (Array vs) = Some vs" "as_str (Str s) = Some s"
  "as_bool (Bool b) = Some b" "get key (Object m) = map_of m key"
  by (simp_all add: as_object_def as_array_def as_str_def as_bool_def get_def)

lemma as_object_Some: "as_object v = Some m \<longleftrightarrow> v = Object m"
  by (cases v) (auto simp: as_object_def)

lemma get_Some: "get key v = Some x \<longleftrightarrow> (\<exists>m. v = Object m \<and> map_of m key = Some x)"
  by (cases v) (auto simp: get_def)

end
