(* ===== verification/Remainder.thy ===== *)
theory Remainder
  imports Json
begin

text \<open>
  What a stored document carried beyond this build's shapes (\<open>remainder.rs\<close>): computed by
  difference when the document is read, put back when it is rewritten.
\<close>

datatype remainder =
  Remainder (unknown: "(str \<times> json) list") (within: "(str \<times> remainder) list")
    (elements: "remainder list")

definition no_remainder :: remainder where
  "no_remainder = Remainder [] [] []"

fun rem_is_empty :: "remainder \<Rightarrow> bool" where
  "rem_is_empty (Remainder u w es) \<longleftrightarrow> u = [] \<and> w = [] \<and> (\<forall>e \<in> set es. rem_is_empty e)"

fun between :: "json \<Rightarrow> json \<Rightarrow> remainder" where
  "between (Object raw) (Object understood) =
     Remainder
       (filter (\<lambda>(key, value). map_of understood key = None) raw)
       (filter_map (\<lambda>(key, value).
          case map_of understood key of
            None \<Rightarrow> None
          | Some seen \<Rightarrow>
              (let nested = between value seen
               in if rem_is_empty nested then None else Some (key, nested))) raw)
       []"
| "between (Array raw) (Array understood) =
     (if length raw = length understood
      then Remainder [] [] (map (\<lambda>(value, seen). between value seen) (zip raw understood))
      else no_remainder)"
| "between _ _ = no_remainder"

text \<open>\<open>entry(key).or_insert_with(..)\<close> and \<open>get_mut(key)\<close>.\<close>

definition or_insert :: "'k \<times> 'v \<Rightarrow> ('k \<times> 'v) list \<Rightarrow> ('k \<times> 'v) list" where
  "or_insert kv m = (if map_of m (fst kv) = None then m @ [kv] else m)"

definition modify :: "'k \<Rightarrow> ('v \<Rightarrow> 'v) \<Rightarrow> ('k \<times> 'v) list \<Rightarrow> ('k \<times> 'v) list" where
  "modify k f m = map (\<lambda>(key, v). (key, if key = k then f v else v)) m"

fun zip_with :: "('r \<Rightarrow> 'v \<Rightarrow> 'v) \<Rightarrow> 'r list \<Rightarrow> 'v list \<Rightarrow> 'v list" where
  "zip_with f (r # rs) (v # vs) = f r v # zip_with f rs vs"
| "zip_with f _ vs = vs"

lemma zip_with_cong [fundef_cong]:
  assumes "rs = rs'" "vs = vs'" "\<And>r v. r \<in> set rs' \<Longrightarrow> v \<in> set vs' \<Longrightarrow> f r v = g r v"
  shows "zip_with f rs vs = zip_with g rs' vs'"
  using assms(3) unfolding assms(1,2) by (induction f rs' vs' rule: zip_with.induct) auto

fun restore :: "remainder \<Rightarrow> json \<Rightarrow> json" where
  "restore (Remainder u w es) (Object into) =
     Object (fold (\<lambda>(key, nested) m. modify key (restore nested) m) w
              (fold or_insert u into))"
| "restore (Remainder u w es) (Array into) = Array (zip_with restore es into)"
| "restore _ v = v"

section \<open>Documents\<close>

text \<open>A document serde can hold: the keys of each object are distinct.\<close>

fun wf_json :: "json \<Rightarrow> bool" where
  "wf_json (Object m) \<longleftrightarrow> distinct (map fst m) \<and> (\<forall>kv \<in> set m. wf_json (snd kv))"
| "wf_json (Array vs) \<longleftrightarrow> (\<forall>v \<in> set vs. wf_json v)"
| "wf_json _ \<longleftrightarrow> True"

text \<open>
  \<open>extends a b\<close>: the document \<open>b\<close> says all that \<open>a\<close> says. Two documents are the same when
  each extends the other: objects compare without regard to the order of their entries.
\<close>

function extends :: "json \<Rightarrow> json \<Rightarrow> bool" where
  "extends (Object a) (Object b) \<longleftrightarrow>
     (\<forall>kv \<in> set a. case map_of b (fst kv) of None \<Rightarrow> False | Some w \<Rightarrow> extends (snd kv) w)"
| "extends (Array a) (Array b) \<longleftrightarrow>
     length a = length b \<and> (\<forall>p \<in> set (zip a b). extends (fst p) (snd p))"
| "extends (Object a) Null \<longleftrightarrow> False" | "extends (Object a) (Bool x1) \<longleftrightarrow> False"
| "extends (Object a) (Number x2) \<longleftrightarrow> False" | "extends (Object a) (Str x3) \<longleftrightarrow> False"
| "extends (Object a) (Array x4) \<longleftrightarrow> False"
| "extends (Array a) Null \<longleftrightarrow> False" | "extends (Array a) (Bool y1) \<longleftrightarrow> False"
| "extends (Array a) (Number y2) \<longleftrightarrow> False" | "extends (Array a) (Str y3) \<longleftrightarrow> False"
| "extends (Array a) (Object y4) \<longleftrightarrow> False"
| "extends Null b \<longleftrightarrow> b = Null"
| "extends (Bool x) b \<longleftrightarrow> b = Bool x"
| "extends (Number n) b \<longleftrightarrow> b = Number n"
| "extends (Str s) b \<longleftrightarrow> b = Str s"
  by pat_completeness auto
termination
proof (relation "measure (\<lambda>(a, b). size a)", simp, goal_cases)
  case (1 a b kv w)
  then show ?case using size_entry' [of kv a] by simp
next
  case (2 a b p)
  then show ?case using size_zip(1) [of "fst p" "snd p" a b] by (simp add: case_prod_beta)
qed

definition same :: "json \<Rightarrow> json \<Rightarrow> bool" where
  "same a b \<longleftrightarrow> extends a b \<and> extends b a"

text \<open>A place in a document: keys and indices, from the root.\<close>

datatype place = Key str | Index nat

fun lookup :: "place list \<Rightarrow> json \<Rightarrow> json option" where
  "lookup [] v = Some v"
| "lookup (Key k # p) (Object m) = (case map_of m k of None \<Rightarrow> None | Some v \<Rightarrow> lookup p v)"
| "lookup (Index i # p) (Array vs) = (if i < length vs then lookup p (vs ! i) else None)"
| "lookup _ _ = None"

fun wf_rem :: "remainder \<Rightarrow> bool" where
  "wf_rem (Remainder u w es) \<longleftrightarrow>
     distinct (map fst u) \<and> distinct (map fst w) \<and> (\<forall>kn \<in> set w. wf_rem (snd kn)) \<and>
     (\<forall>e \<in> set es. wf_rem e)"

section \<open>Entries after a restore\<close>

lemma map_of_or_insert:
  "map_of (fold or_insert u m) k = (case map_of m k of None \<Rightarrow> map_of u k | Some v \<Rightarrow> Some v)"
  by (induction u arbitrary: m) (auto simp: or_insert_def map_add_def split: option.splits)

lemma map_of_modify:
  "map_of (modify k f m) k' = (if k' = k then map_option f (map_of m k') else map_of m k')"
  by (induction m) (auto simp: modify_def)

lemma map_of_fold_modify:
  "distinct (map fst w) \<Longrightarrow>
   map_of (fold (\<lambda>(key, n) m. modify key (f n) m) w m) k =
     (case map_of w k of None \<Rightarrow> map_of m k | Some n \<Rightarrow> map_option (f n) (map_of m k))"
proof (induction w arbitrary: m)
  case Nil
  then show ?case by simp
next
  case (Cons kn w)
  have "fst kn \<notin> set (map fst w) \<Longrightarrow> map_of w (fst kn) = None" by (simp add: map_of_eq_None_iff)
  with Cons show ?case
    by (cases kn) (auto simp: map_of_modify split: option.splits)
qed

lemma map_of_restore:
  assumes "wf_rem (Remainder u w es)" "restore (Remainder u w es) (Object m) = Object m'"
  shows "map_of m' k =
    (case map_of m k of
       None \<Rightarrow> (case map_of w k of None \<Rightarrow> map_of u k | Some n \<Rightarrow> map_option (restore n) (map_of u k))
     | Some v \<Rightarrow> Some (case map_of w k of None \<Rightarrow> v | Some n \<Rightarrow> restore n v))"
  using assms by (auto simp: map_of_fold_modify map_of_or_insert split: option.splits)

lemma map_fst_or_insert: "distinct (map fst m) \<Longrightarrow> distinct (map fst (fold or_insert u m))"
  by (induction u arbitrary: m) (auto simp: or_insert_def map_of_eq_None_iff)

lemma map_fst_modify [simp]: "map fst (modify k f m) = map fst m"
  by (auto simp: modify_def)

lemma map_fst_fold_modify [simp]:
  "map fst (fold (\<lambda>(key, n) m. modify key (f n) m) w m) = map fst m"
  by (induction w arbitrary: m) auto

lemma zip_with_length [simp]: "length (zip_with f rs vs) = length vs"
  by (induction f rs vs rule: zip_with.induct) auto

lemma zip_with_nth:
  "i < length vs \<Longrightarrow> zip_with f rs vs ! i = (if i < length rs then f (rs ! i) (vs ! i) else vs ! i)"
  by (induction f rs vs arbitrary: i rule: zip_with.induct) (auto simp: nth_Cons split: nat.splits)

lemma extends_Object:
  "distinct (map fst a) \<Longrightarrow> extends (Object a) (Object b) \<longleftrightarrow>
   (\<forall>k v. map_of a k = Some v \<longrightarrow> (\<exists>w. map_of b k = Some w \<and> extends v w))"
  by (auto split: option.splits) (metis map_of_eq_Some_iff not_Some_eq option.inject)+

lemma extends_Array:
  "extends (Array a) (Array b) \<longleftrightarrow>
   length a = length b \<and> (\<forall>i < length a. extends (a ! i) (b ! i))"
  by (auto simp: set_zip) blast

lemma extends_refl: "wf_json d \<Longrightarrow> extends d d"
proof (induction d rule: wf_json.induct)
  case (1 m)
  then show ?case by (subst extends_Object) (auto dest: map_of_SomeD)
next
  case (2 vs)
  then show ?case by (auto simp: extends_Array simp del: extends.simps)
qed auto

lemma wf_entry: "wf_json (Object m) \<Longrightarrow> map_of m k = Some v \<Longrightarrow> wf_json v"
  by (auto dest: map_of_SomeD)

section \<open>Restoring\<close>

lemma restore_Object:
  "\<exists>m'. restore (Remainder u w es) (Object m) = Object m'" by simp

lemma restore_extends: "wf_rem r \<Longrightarrow> wf_json d \<Longrightarrow> extends d (restore r d)"
proof (induction r arbitrary: d)
  case (Remainder u w es)
  show ?case
  proof (cases d)
    case (Object m)
    obtain m' where m': "restore (Remainder u w es) (Object m) = Object m'"
      using restore_Object by blast
    have "\<exists>v'. map_of m' k = Some v' \<and> extends v v'" if v: "map_of m k = Some v" for k v
    proof (cases "map_of w k")
      case None
      with map_of_restore [OF Remainder.prems(1) m'] v wf_entry Remainder.prems(2) Object
      show ?thesis using extends_refl by fastforce
    next
      case (Some n)
      then have "(k, n) \<in> set w" by (rule map_of_SomeD)
      then have "extends v (restore n v)"
        using Remainder.IH(1) [of "(k, n)" n v] Remainder.prems Object wf_entry v by fastforce
      with map_of_restore [OF Remainder.prems(1) m'] v Some show ?thesis by simp
    qed
    then show ?thesis unfolding Object m'
      using Remainder.prems(2) Object by (subst extends_Object) auto
  next
    case (Array vs)
    have "extends (vs ! i) (restore (es ! i) (vs ! i))" if "i < length vs" "i < length es" for i
      using that Remainder Array by simp
    moreover have "extends (vs ! i) (vs ! i)" if "i < length vs" for i
      using that Remainder.prems(2) Array extends_refl by simp
    ultimately show ?thesis unfolding Array restore.simps extends_Array
      by (simp add: zip_with_nth)
  qed auto
qed

lemma wf_between: "wf_json raw \<Longrightarrow> wf_rem (between raw u)"
proof (induction raw u rule: between.induct)
  case (1 raw u)
  have "map fst (filter_map (\<lambda>(key, value). case map_of u key of None \<Rightarrow> None
      | Some seen \<Rightarrow> (let n = between value seen in if rem_is_empty n then None else Some (key, n))) raw)
    = map fst (filter (\<lambda>(key, value). case map_of u key of None \<Rightarrow> False
      | Some seen \<Rightarrow> \<not> rem_is_empty (between value seen)) raw)"
    by (induction raw) (auto split: option.splits simp: Let_def)
  with 1 show ?case
    by (auto simp: distinct_map_filter set_filter_map Let_def split: option.splits if_splits)
      (metis snd_conv)
next
  case (2 raw u)
  then show ?case by (auto simp: no_remainder_def) (metis in_set_zipE)
qed (auto simp: no_remainder_def)

lemma restore_empty: "rem_is_empty r \<Longrightarrow> restore r d = d"
proof (induction r arbitrary: d)
  case (Remainder u w es)
  then have "restore e v = v" if "e \<in> set es" for e v using that by simp
  then have "zip_with restore es vs = vs" for vs
    by (induction "restore" es vs rule: zip_with.induct) auto
  with Remainder.prems show ?case by (cases d) auto
qed

lemma restore_none: "restore no_remainder d = d"
  by (rule restore_empty) (simp add: no_remainder_def)

lemma map_of_filter_key:
  "map_of (filter (\<lambda>(k, v). P k) m) k = (if P k then map_of m k else None)"
  by (induction m) auto

lemma map_of_within:
  "distinct (map fst raw) \<Longrightarrow>
   map_of (filter_map (\<lambda>(key, value). case map_of u key of None \<Rightarrow> None
      | Some seen \<Rightarrow> (let n = between value seen in if rem_is_empty n then None else Some (key, n))) raw) k
   = (case (map_of raw k, map_of u k) of
        (Some v, Some s) \<Rightarrow> (if rem_is_empty (between v s) then None else Some (between v s))
      | _ \<Rightarrow> None)"
proof (induction raw)
  case Nil
  then show ?case by simp
next
  case (Cons kv raw)
  have "fst kv \<notin> set (map fst raw) \<Longrightarrow> map_of raw (fst kv) = None" by (simp add: map_of_eq_None_iff)
  with Cons show ?case
    by (cases kv) (auto simp: Let_def split: option.splits)
qed

text \<open>What each key of a rewritten object holds.\<close>

lemma restored_entry:
  assumes "wf_json (Object raw)" "restore (between (Object raw) (Object u)) (Object d) = Object m'"
  shows "map_of m' k =
    (case map_of d k of
       None \<Rightarrow> (if map_of u k = None then map_of raw k else None)
     | Some x \<Rightarrow> Some (case (map_of raw k, map_of u k) of
                       (Some v, Some s) \<Rightarrow> restore (between v s) x | _ \<Rightarrow> x))"
proof -
  have d: "distinct (map fst raw)" using assms(1) by simp
  show ?thesis
    using map_of_restore [OF wf_between [OF assms(1), of "Object u", unfolded between.simps]
        assms(2) [unfolded between.simps], of k]
    unfolding map_of_within [OF d] map_of_filter_key
    by (auto simp: restore_empty split: option.splits if_splits)
qed

lemma restored_distinct:
  "distinct (map fst d) \<Longrightarrow> restore r (Object d) = Object m' \<Longrightarrow> distinct (map fst m')"
  by (cases r) (auto simp: map_fst_or_insert)

lemma restore_roundtrip:
  "wf_json raw \<Longrightarrow> wf_json u \<Longrightarrow> extends u raw \<Longrightarrow> same (restore (between raw u) u) raw"
proof (induction raw u rule: between.induct)
  case (1 raw u)
  obtain m' where m': "restore (between (Object raw) (Object u)) (Object u) = Object m'"
    by (auto simp: restore_Object)
  have dr: "distinct (map fst raw)" "distinct (map fst u)" using "1.prems" by simp_all
  note dm = restored_distinct [OF dr(2) m']
  have entry: "\<exists>v. map_of raw k = Some v \<and> same w v" if "map_of m' k = Some w" for k w
  proof (cases "map_of u k")
    case None
    with restored_entry [OF "1.prems"(1) m', of k] that have "map_of raw k = Some w" by simp
    with "1.prems"(1) show ?thesis using extends_refl wf_entry unfolding same_def by blast
  next
    case (Some s)
    with "1.prems"(3) extends_Object [OF dr(2)] obtain v where
      v: "map_of raw k = Some v" "extends s v" by blast
    have "w = restore (between v s) s"
      using restored_entry [OF "1.prems"(1) m', of k] that Some v by simp
    moreover have "same (restore (between v s) s) v"
      using "1.IH" [OF map_of_SomeD [OF v(1)] refl Some] v Some "1.prems" wf_entry by blast
    ultimately show ?thesis using v by blast
  qed
  have conv: "\<exists>w. map_of m' k = Some w" if "map_of raw k = Some v" for k v
    using restored_entry [OF "1.prems"(1) m', of k] that by (auto split: option.splits)
  show ?case unfolding m' same_def extends_Object [OF dm] extends_Object [OF dr(1)]
    using entry conv unfolding same_def by (metis option.inject)
next
  case (2 raw u)
  then have len: "length raw = length u" by simp
  have "same (restore (between (raw ! i) (u ! i)) (u ! i)) (raw ! i)" if "i < length u" for i
  proof -
    have "(raw ! i, u ! i) \<in> set (zip raw u)" using that len by (auto simp: set_zip)
    moreover have "extends (u ! i) (raw ! i)"
      using "2.prems"(3) that unfolding extends_Array by blast
    ultimately show ?thesis using "2.IH" [OF len] "2.prems" len that by simp
  qed
  with len show ?case
    by (simp add: same_def extends_Array zip_with_nth del: extends.simps)
qed (auto simp: same_def restore_none extends_refl elim!: extends.elims)

lemma restore_shape:
  "lookup (Index i # p) (restore r (Object m)) = None"
  "lookup (Key k # p) (restore r (Array vs)) = None"
  by (cases r; simp)+

lemma lookup_restore:
  "wf_json raw \<Longrightarrow> lookup p u \<noteq> None \<Longrightarrow> lookup p d = None \<Longrightarrow>
   lookup p (restore (between raw u) d) = None"
proof (induction p d arbitrary: raw u rule: lookup.induct)
  case (1 v)
  then show ?case by simp
next
  case (2 k p d)
  then obtain m where u: "u = Object m" by (cases u) auto
  show ?case
  proof (cases raw)
    case (Object r)
    obtain m' where m': "restore (between (Object r) (Object m)) (Object d) = Object m'"
      by (auto simp: restore_Object)
    have "wf_json (Object r)" using "2.prems" Object by simp
    note e = restored_entry [OF this m', of k]
    show ?thesis using "2.prems" "2.IH" wf_entry [of r k] unfolding u Object m'
      by (auto simp: e split: option.splits)
  qed (use "2.prems" u in \<open>auto simp: no_remainder_def\<close>)
next
  case (3 i p vs)
  then obtain us where u: "u = Array us" by (cases u) auto
  show ?case
  proof (cases raw)
    case (Array rs)
    then show ?thesis using "3.prems" "3.IH" [of "rs ! i" "us ! i"] unfolding u
      by (auto simp: no_remainder_def zip_with_nth split: if_splits)
  qed (use "3.prems" u in \<open>auto simp: no_remainder_def\<close>)
qed (auto simp: restore_shape)

section \<open>Properties\<close>

text \<open>C30 What this build does not understand of a document survives a rewrite that changes nothing:
  the remainder restored into what was understood is the stored document again, keys and values
  alike.\<close>

lemma remainder_roundtrip:
  assumes "wf_json raw" "wf_json understood" "extends understood raw"
  shows "same (restore (between raw understood) understood) raw"
  by (rule restore_roundtrip [OF assms])

lemma remainder_roundtrip_witness:
  "same
     (restore
        (between (Object [(''schema'', Number ''2''), (''new'', Bool True),
                          (''list'', Array [Object [(''a'', Null), (''b'', Str ''x'')]])])
                 (Object [(''list'', Array [Object [(''a'', Null)]]), (''schema'', Number ''2'')]))
        (Object [(''list'', Array [Object [(''a'', Null)]]), (''schema'', Number ''2'')]))
     (Object [(''schema'', Number ''2''), (''new'', Bool True),
              (''list'', Array [Object [(''a'', Null), (''b'', Str ''x'')]])])"
  by (rule remainder_roundtrip) simp_all

text \<open>Restoring a remainder never undoes a write: everything written stays as written, and what
  was understood and then removed is not brought back.\<close>

lemma remainder_respects_write:
  assumes "wf_json raw" "wf_json written"
  shows "extends written (restore (between raw understood) written) \<and>
    (\<forall>p. lookup p understood \<noteq> None \<and> lookup p written = None \<longrightarrow>
         lookup p (restore (between raw understood) written) = None)"
  using restore_extends [OF wf_between [OF assms(1)] assms(2)] lookup_restore [OF assms(1)]
  by blast

lemma remainder_respects_write_witness:
  "extends (Object [(''schema'', Number ''3'')])
     (restore (between (Object [(''schema'', Number ''2''), (''new'', Bool True), (''gone'', Null)])
                       (Object [(''schema'', Number ''2''), (''gone'', Null)]))
       (Object [(''schema'', Number ''3'')]))"
proof -
  let ?raw = "Object [(''schema'', Number ''2''), (''new'', Bool True), (''gone'', Null)]"
  let ?written = "Object [(''schema'', Number ''3'')]"
  have "wf_json ?raw" "wf_json ?written" by simp_all
  from remainder_respects_write [OF this] show ?thesis by blast
qed

end
