(* ===== verification/Wildcards.thy ===== *)
theory Wildcards
  imports Prelude
begin

text \<open>
  The two wildcard dialects: the rules file's \<open>policy::glob\<close>, a greedy scan for the literal
  pieces between stars, and \<open>releases::HeadGlob::matches\<close>, a loop that backtracks to the last
  star. Both are shown to decide the same declarative relation \<open>wild\<close>, through a locale that
  states what a dialect is and derives what its users rely on.
\<close>

section \<open>What a pattern means\<close>

text \<open>
  \<open>star c\<close> says that the pattern character stands for any run of characters, and
  \<open>accepts c x\<close> that the pattern character \<open>c\<close> stands for the character \<open>x\<close>.
\<close>

fun wild :: "('c \<Rightarrow> bool) \<Rightarrow> ('c \<Rightarrow> 'd \<Rightarrow> bool) \<Rightarrow> 'c list \<Rightarrow> 'd list \<Rightarrow> bool" where
  "wild star accepts [] v \<longleftrightarrow> v = []"
| "wild star accepts (c # p) v \<longleftrightarrow>
     (if star c then list_ex (\<lambda>k. wild star accepts p (drop k v)) [0..<Suc (length v)]
      else (case v of [] \<Rightarrow> False | x # xs \<Rightarrow> accepts c x \<and> wild star accepts p xs))"

lemma wild_star:
  "star c \<Longrightarrow> wild star accepts (c # p) v \<longleftrightarrow> (\<exists>k \<le> length v. wild star accepts p (drop k v))"
  by (simp add: list_ex_iff less_Suc_eq_le Bex_def del: upt_Suc)

lemma wild_char:
  "\<not> star c \<Longrightarrow> wild star accepts (c # p) v \<longleftrightarrow>
   (\<exists>x xs. v = x # xs \<and> accepts c x \<and> wild star accepts p xs)"
  by (cases v) auto

declare wild.simps(2) [simp del]

lemma wild_literal:
  assumes "\<forall>c \<in> set q. \<not> star c"
  shows "wild star accepts (q @ p) v \<longleftrightarrow>
    (\<exists>u w. v = u @ w \<and> list_all2 accepts q u \<and> wild star accepts p w)"
  using assms
proof (induction q arbitrary: v)
  case Nil
  then show ?case by simp
next
  case (Cons c q)
  then show ?case by (simp add: wild_char list_all2_Cons1) (metis append_Cons)
qed

lemma wild_stars: "wild star accepts p [] \<longleftrightarrow> list_all star p"
proof (induction p)
  case (Cons c p)
  then show ?case by (cases "star c") (simp_all add: wild_star wild_char)
qed simp

lemma wild_star_longer:
  assumes "star c" "wild star accepts (c # p) w"
  shows "wild star accepts (c # p) (u @ w)"
proof -
  obtain k where "k \<le> length w" "wild star accepts p (drop k w)"
    using assms by (auto simp: wild_star)
  then have "length u + k \<le> length (u @ w)" "wild star accepts p (drop (length u + k) (u @ w))"
    by simp_all
  with assms(1) show ?thesis unfolding wild_star [where star = star, OF assms(1)] by blast
qed

section \<open>The interface\<close>

locale wildcard_dialect =
  fixes matches :: "'c list \<Rightarrow> 'c list \<Rightarrow> bool"
    and star :: 'c
    and accepts :: "'c \<Rightarrow> 'c \<Rightarrow> bool"
  assumes matches_wild: "matches p v \<longleftrightarrow> wild (\<lambda>c. c = star) accepts p v"
    and accepts_self: "c \<noteq> star \<Longrightarrow> accepts c c"
begin

lemma star_matches_all: "matches [star] v"
  by (auto simp: matches_wild wild_star intro: exI [of _ "length v"])

lemma name_matches_itself: "star \<notin> set v \<Longrightarrow> matches v v"
proof -
  assume a: "star \<notin> set v"
  then have "list_all2 accepts v v"
    by (simp add: list_all2_conv_all_nth) (metis accepts_self nth_mem)
  with a wild_literal [of v "\<lambda>c. c = star" accepts "[]" v] show ?thesis
    by (auto simp: matches_wild)
qed

lemma literal_prefix:
  assumes "star \<notin> set q"
  shows "matches (q @ [star]) v \<longleftrightarrow> (\<exists>u w. v = u @ w \<and> list_all2 accepts q u)"
  using star_matches_all wild_literal [of q "\<lambda>c. c = star" accepts "[star]" v] assms
  by (auto simp: matches_wild)

lemma literal_length:
  assumes "star \<notin> set q" "matches q v"
  shows "length v = length q"
proof -
  have "list_all2 accepts q v"
    using wild_literal [of q "\<lambda>c. c = star" accepts "[]" v] assms by (auto simp: matches_wild)
  then show ?thesis by (simp add: list_all2_lengthD)
qed

end

section \<open>\<open>policy::glob\<close>\<close>

text \<open>The loop over the pieces between the first and the last, from the rest of the value.\<close>

fun glob_middle :: "str list \<Rightarrow> str \<Rightarrow> str option" where
  "glob_middle [] rest = Some rest"
| "glob_middle (part # middle) rest =
     (case find_sub part rest of
        None \<Rightarrow> None
      | Some at \<Rightarrow> glob_middle middle (drop (at + length part) rest))"

definition glob :: "str \<Rightarrow> str \<Rightarrow> bool" where
  "glob pattern value =
     (case split_on (CHR ''*'') pattern of
        [] \<Rightarrow> False
      | first # parts \<Rightarrow>
          (case strip_prefix first value of
             None \<Rightarrow> False
           | Some rest \<Rightarrow>
               (if parts = [] then rest = []
                else (case glob_middle (butlast parts) rest of
                        None \<Rightarrow> False
                      | Some rest \<Rightarrow> ends_with (last parts) rest))))"

section \<open>\<open>HeadGlob::matches\<close>\<close>

text \<open>
  The characters are Unicode scalar values, so that \<open>?\<close> stands for one character whatever
  its encoding's length. The loop's state is the place in the glob, the place in the name, and
  where the last star was with how far it has been tried.
\<close>

type_synonym scalar = nat

definition ASTERISK :: scalar where "ASTERISK = 42"
definition QUESTION :: scalar where "QUESTION = 63"

definition char_whitespace :: "scalar \<Rightarrow> bool" where
  "char_whitespace c \<longleftrightarrow>
     (9 \<le> c \<and> c \<le> 13) \<or> c = 0x20 \<or> c = 0x85 \<or> c = 0xA0 \<or> c = 0x1680 \<or>
     (0x2000 \<le> c \<and> c \<le> 0x200A) \<or> c = 0x2028 \<or> c = 0x2029 \<or> c = 0x202F \<or> c = 0x205F \<or> c = 0x3000"

definition head_glob :: "scalar list \<Rightarrow> scalar list option" where
  "head_glob value = (if value = [] \<or> list_ex char_whitespace value then None else Some value)"

definition head_accepts :: "scalar \<Rightarrow> scalar \<Rightarrow> bool" where
  "head_accepts wanted had \<longleftrightarrow> wanted = QUESTION \<or> wanted = had"

function head_loop ::
    "scalar list \<Rightarrow> scalar list \<Rightarrow> nat \<Rightarrow> nat \<Rightarrow> (nat \<times> nat) option \<Rightarrow> bool" where
  "head_loop pat name at from star =
     (if from < length name then
        (if at < length pat \<and> pat ! at = ASTERISK
         then head_loop pat name (at + 1) from (Some (at, from))
         else if at < length pat \<and> head_accepts (pat ! at) (name ! from)
         then head_loop pat name (at + 1) (from + 1) star
         else (case star of
                 Some (star_at, star_from) \<Rightarrow>
                   head_loop pat name (star_at + 1) (star_from + 1) (Some (star_at, star_from + 1))
               | None \<Rightarrow> False))
      else list_all (\<lambda>rest. rest = ASTERISK) (drop at pat))"
  by pat_completeness auto
termination
proof (relation "measures
    [\<lambda>(pat, name, at, from, star). if from < length name then 1 else 0,
     \<lambda>(pat, name, at, from, star). case star of None \<Rightarrow> 0 | Some (s, f) \<Rightarrow> if s < at then 0 else 1,
     \<lambda>(pat, name, at, from, star). length pat - (case star of None \<Rightarrow> 0 | Some (s, f) \<Rightarrow> s + 1),
     \<lambda>(pat, name, at, from, star). length name - (case star of None \<Rightarrow> 0 | Some (s, f) \<Rightarrow> f),
     \<lambda>(pat, name, at, from, star). length pat - at]", goal_cases)
  case 1
  then show ?case by simp
next
  case 2
  then show ?case by (auto split: option.splits)
next
  case 3
  then show ?case by (auto split: option.splits)
next
  case 4
  then show ?case by (auto split: option.splits)
qed

declare head_loop.simps [simp del]

definition head_matches :: "scalar list \<Rightarrow> scalar list \<Rightarrow> bool" where
  "head_matches pat name = head_loop pat name 0 0 None"

section \<open>Both decide \<open>wild\<close>\<close>

subsection \<open>The greedy scan\<close>

text \<open>\<open>covers parts v\<close>: a star, then the pieces with stars between them.\<close>

fun covers :: "str list \<Rightarrow> str \<Rightarrow> bool" where
  "covers [] v \<longleftrightarrow> False"
| "covers [part] v \<longleftrightarrow> ends_with part v"
| "covers (part # q # parts) v \<longleftrightarrow> (\<exists>u w. v = u @ part @ w \<and> covers (q # parts) w)"

lemma covers_longer: "covers parts w \<Longrightarrow> covers parts (u @ w)"
proof (induction parts w rule: covers.induct)
  case (2 part v)
  then show ?case by (auto simp: ends_with_iff)
next
  case (3 part q parts v)
  then show ?case by (metis append_assoc covers.simps(3))
qed simp

lemma glob_middle_covers:
  "(case glob_middle middle rest of None \<Rightarrow> False | Some rest \<Rightarrow> ends_with final rest) \<longleftrightarrow>
   covers (middle @ [final]) rest"
proof (induction middle arbitrary: rest)
  case Nil
  then show ?case by simp
next
  case (Cons part middle)
  obtain q parts where qp: "middle @ [final] = q # parts" by (cases middle) auto
  show ?case
  proof (cases "find_sub part rest")
    case None
    then show ?thesis using find_sub_None [of part rest] by (auto simp: qp)
  next
    case (Some i)
    let ?w = "drop (i + length part) rest"
    have "covers (part # q # parts) rest \<longleftrightarrow> covers (q # parts) ?w"
    proof
      assume "covers (part # q # parts) rest"
      then obtain u w where uw: "rest = u @ part @ w" "covers (q # parts) w" by auto
      then have "i \<le> length u" using find_sub_Some [OF Some] by blast
      then have w: "?w = drop (i + length part) (u @ part) @ w" using uw(1) by simp
      show "covers (q # parts) ?w" unfolding w by (rule covers_longer [OF uw(2)])
    next
      assume "covers (q # parts) ?w"
      with find_sub_Some [OF Some] show "covers (part # q # parts) rest" by auto
    qed
    with Some Cons.IH [of ?w] qp show ?thesis by simp
  qed
qed

abbreviation byte_star :: "char \<Rightarrow> bool" where "byte_star \<equiv> \<lambda>c. c = CHR ''*''"
abbreviation byte_wild :: "str \<Rightarrow> str \<Rightarrow> bool" where "byte_wild \<equiv> wild byte_star (=)"

lemma byte_literal:
  "CHR ''*'' \<notin> set q \<Longrightarrow> byte_wild (q @ p) v \<longleftrightarrow> (\<exists>w. v = q @ w \<and> byte_wild p w)"
  using wild_literal [of q byte_star "(=)" p v] by (auto simp: list.rel_eq)

lemma covers_wild:
  "\<forall>part \<in> set parts. CHR ''*'' \<notin> set part \<Longrightarrow> parts \<noteq> [] \<Longrightarrow>
   byte_wild (CHR ''*'' # join_with ''*'' parts) v \<longleftrightarrow> covers parts v"
proof (induction parts arbitrary: v)
  case Nil
  then show ?case by simp
next
  case (Cons part rest)
  show ?case
  proof (cases rest)
    case Nil
    have "byte_wild (part @ []) w \<longleftrightarrow> w = part" for w
      using Cons.prems byte_literal [of part "[]" w] by auto
    then have "byte_wild (CHR ''*'' # part) v \<longleftrightarrow> (\<exists>k \<le> length v. drop k v = part)"
      by (simp add: wild_star)
    also have "\<dots> \<longleftrightarrow> ends_with part v"
      unfolding ends_with_iff by (metis append_eq_conv_conj append_take_drop_id le_add1 length_append)
    finally show ?thesis using Nil by simp
  next
    case (Cons q parts)
    have "byte_wild (join_with ''*'' (part # q # parts)) w \<longleftrightarrow>
        (\<exists>x. w = part @ x \<and> covers (q # parts) x)" for w
      using Cons Cons.IH Cons.prems
        byte_literal [of part "CHR ''*'' # join_with ''*'' (q # parts)" w] by auto
    then have "byte_wild (CHR ''*'' # join_with ''*'' (part # q # parts)) v \<longleftrightarrow>
        (\<exists>k \<le> length v. \<exists>x. drop k v = part @ x \<and> covers (q # parts) x)"
      by (simp add: wild_star)
    also have "\<dots> \<longleftrightarrow> covers (part # q # parts) v"
      unfolding covers.simps(3)
      by (metis append_eq_conv_conj append_take_drop_id le_add1 length_append)
    finally show ?thesis using Cons by simp
  qed
qed

lemma glob_wild: "glob pattern value \<longleftrightarrow> byte_wild pattern value"
proof -
  obtain first parts where fp: "split_on (CHR ''*'') pattern = first # parts"
    by (metis list.exhaust split_on_nonempty)
  then have free: "CHR ''*'' \<notin> set first" "\<forall>part \<in> set parts. CHR ''*'' \<notin> set part"
    using split_on_free [of _ "CHR ''*''" pattern] by auto
  have pattern: "pattern = join_with ''*'' (first # parts)"
    using join_split_on [of "CHR ''*''" pattern] fp by simp
  show ?thesis
  proof (cases "parts = []")
    case True
    have "byte_wild pattern value \<longleftrightarrow> value = first"
      using byte_literal [OF free(1), of "[]" "value"] True by (auto simp: pattern)
    then show ?thesis using True unfolding glob_def fp
      using strip_prefix_None [of first "value"] strip_prefix_Some [of first "value"]
      by (cases "strip_prefix first value") auto
  next
    case False
    then have "pattern = first @ CHR ''*'' # join_with ''*'' parts"
      by (cases parts) (auto simp: pattern)
    then have "byte_wild pattern value \<longleftrightarrow> (\<exists>w. value = first @ w \<and> covers parts w)"
      using byte_literal [OF free(1)] covers_wild [OF free(2) False] by auto
    moreover have "(case glob_middle (butlast parts) w of None \<Rightarrow> False
        | Some rest \<Rightarrow> ends_with (last parts) rest) \<longleftrightarrow> covers parts w" for w
      using glob_middle_covers [where middle = "butlast parts" and rest = w and final = "last parts"] False by simp
    ultimately show ?thesis using False unfolding glob_def fp
      using strip_prefix_None [of first "value"] strip_prefix_Some [of first "value"]
      by (cases "strip_prefix first value") auto
  qed
qed

interpretation rules_glob: wildcard_dialect glob "CHR ''*''" "(=)"
  by unfold_locales (auto simp: glob_wild)

subsection \<open>The backtracking loop\<close>

abbreviation head_star :: "scalar \<Rightarrow> bool" where "head_star \<equiv> \<lambda>c. c = ASTERISK"
abbreviation head_wild :: "scalar list \<Rightarrow> scalar list \<Rightarrow> bool" where
  "head_wild \<equiv> wild head_star head_accepts"

text \<open>
  The invariant: no star lies between the last star and the place in the glob, and the name
  has advanced from where that star was tried by as many characters as the glob has.
\<close>

fun tried :: "scalar list \<Rightarrow> nat \<Rightarrow> nat \<Rightarrow> (nat \<times> nat) option \<Rightarrow> bool" where
  "tried pat at pos None \<longleftrightarrow> True"
| "tried pat at pos (Some (s, f)) \<longleftrightarrow>
     s < at \<and> at = s + 1 + (pos - f) \<and> f \<le> pos \<and> (\<forall>i. s < i \<and> i < at \<longrightarrow> pat ! i \<noteq> ASTERISK)"

text \<open>What the last star could still take.\<close>

fun later :: "scalar list \<Rightarrow> scalar list \<Rightarrow> (nat \<times> nat) option \<Rightarrow> bool" where
  "later pat name None \<longleftrightarrow> False"
| "later pat name (Some (s, f)) \<longleftrightarrow>
     (\<exists>k. f < k \<and> k \<le> length name \<and> head_wild (drop (s + 1) pat) (drop k name))"

lemma later_skips:
  assumes "tried pat at pos star" "later pat name star" "at \<le> length pat"
  shows "\<exists>j. pos < j \<and> j \<le> length name \<and> head_wild (drop at pat) (drop j name)"
proof -
  obtain s f k where star: "star = Some (s, f)" and k: "f < k" "k \<le> length name"
    "head_wild (drop (s + 1) pat) (drop k name)"
    using assms(2) by (cases star) auto
  define q where "q = take (at - (s + 1)) (drop (s + 1) pat)"
  have q: "drop (s + 1) pat = q @ drop at pat"
  proof -
    have "at - (s + 1) + (s + 1) = at" using assms(1) star by simp
    then show ?thesis unfolding q_def by (metis append_take_drop_id drop_drop)
  qed
  have "\<forall>c \<in> set q. c \<noteq> ASTERISK"
    using assms(1,3) star by (auto simp: in_set_conv_nth q_def)
  moreover have "head_wild (q @ drop at pat) (drop k name)"
    using k(3) unfolding q .
  ultimately obtain u w where uw: "drop k name = u @ w" "list_all2 head_accepts q u"
    "head_wild (drop at pat) w"
    using wild_literal [of q head_star head_accepts "drop at pat" "drop k name"] by blast
  have "length u = at - (s + 1)" using uw(2) assms(3) by (auto simp: q_def dest: list_all2_lengthD)
  then have u: "length u = pos - f" using assms(1) star by simp
  have "w = drop (k + length u) name" using uw(1) by (metis append_eq_conv_conj drop_drop add.commute)
  moreover have "k + length u \<le> length name"
    using arg_cong [OF uw(1), of length] k(2) by simp
  moreover have "pos < k + length u" using k(1) u assms(1) star by simp
  ultimately show ?thesis using uw(3) by blast
qed

lemma head_loop_wild:
  "tried pat at pos star \<Longrightarrow> at \<le> length pat \<Longrightarrow> pos \<le> length name \<Longrightarrow>
   head_loop pat name at pos star \<longleftrightarrow>
     head_wild (drop at pat) (drop pos name) \<or> later pat name star"
proof (induction pat name at pos star rule: head_loop.induct)
  case (1 pat name at pos star)
  note inv = \<open>tried pat at pos star\<close>
  show ?case
  proof (cases "pos < length name")
    case False
    then have "pos = length name" using "1.prems" by simp
    then have "\<not> later pat name star" using later_skips [OF inv] "1.prems" by fastforce
    with False \<open>pos = length name\<close> show ?thesis
      by (subst head_loop.simps) (simp add: wild_stars)
  next
    case True
    have name: "drop pos name = name ! pos # drop (pos + 1) name"
      using True by (simp add: Cons_nth_drop_Suc)
    have pat: "drop at pat = pat ! at # drop (at + 1) pat" if "at < length pat"
      using that by (simp add: Cons_nth_drop_Suc)
    consider (star) "at < length pat" "pat ! at = ASTERISK"
      | (char) "at < length pat" "pat ! at \<noteq> ASTERISK" "head_accepts (pat ! at) (name ! pos)"
      | (mismatch) "at < length pat \<longrightarrow> pat ! at \<noteq> ASTERISK \<and> \<not> head_accepts (pat ! at) (name ! pos)"
      by blast
    then show ?thesis
    proof cases
      case star
      have W: "head_wild (drop at pat) (drop p name) \<longleftrightarrow>
          (\<exists>k. p \<le> k \<and> k \<le> length name \<and> head_wild (drop (at + 1) pat) (drop k name))"
        if "p \<le> length name" for p
      proof -
        have "head_wild (drop at pat) (drop p name) \<longleftrightarrow>
          (\<exists>k \<le> length name - p. head_wild (drop (at + 1) pat) (drop (p + k) name))"
          unfolding pat [OF star(1)] by (simp add: wild_star star add.commute)
        also have "\<dots> \<longleftrightarrow>
          (\<exists>k. p \<le> k \<and> k \<le> length name \<and> head_wild (drop (at + 1) pat) (drop k name))"
          using that by (metis le_add1 le_add_diff_inverse nat_add_left_cancel_le)
        finally show ?thesis .
      qed
      have "head_loop pat name at pos star \<longleftrightarrow> head_loop pat name (at + 1) pos (Some (at, pos))"
        using True star by (subst head_loop.simps) simp
      also have "\<dots> \<longleftrightarrow> head_wild (drop (at + 1) pat) (drop pos name) \<or> later pat name (Some (at, pos))"
        using "1.IH"(1) [OF True] star "1.prems" by simp
      also have "\<dots> \<longleftrightarrow> head_wild (drop at pat) (drop pos name)"
        using W [of pos] True by (auto simp: le_less)
      also have "\<dots> \<longleftrightarrow> head_wild (drop at pat) (drop pos name) \<or> later pat name star"
        using later_skips [OF inv _ \<open>at \<le> length pat\<close>] W True
        by (meson less_imp_le_nat order_trans)
      finally show ?thesis .
    next
      case char
      have "tried pat (at + 1) (pos + 1) star"
        using inv char by (cases star) (auto simp: less_Suc_eq)
      then have "head_loop pat name at pos star \<longleftrightarrow>
          head_wild (drop (at + 1) pat) (drop (pos + 1) name) \<or> later pat name star"
        using "1.IH"(2) [OF True] char True by (subst head_loop.simps) simp
      with char show ?thesis unfolding name pat [OF char(1)] by (simp add: wild_char)
    next
      case mismatch
      have no: "\<not> head_wild (drop at pat) (drop pos name)"
      proof (cases "at < length pat")
        case True
        with mismatch show ?thesis unfolding name pat [OF True] by (simp add: wild_char)
      qed (use True in simp)
      show ?thesis
      proof (cases star)
        case None
        with no mismatch True show ?thesis by (subst head_loop.simps) auto
      next
        case (Some sf)
        then obtain s f where sf: "star = Some (s, f)" by (cases sf) auto
        have "head_loop pat name at pos star \<longleftrightarrow>
            head_loop pat name (s + 1) (f + 1) (Some (s, f + 1))"
          using mismatch True sf by (subst head_loop.simps) auto
        also have "\<dots> \<longleftrightarrow> head_wild (drop (s + 1) pat) (drop (f + 1) name) \<or>
            later pat name (Some (s, f + 1))"
          using "1.IH"(3) [OF True _ _ sf] mismatch inv sf "1.prems" True by auto
        also have "\<dots> \<longleftrightarrow> later pat name star"
        proof -
          have e: "f < k \<longleftrightarrow> k = f + 1 \<or> f + 1 < k" for k by auto
          have "f + 1 \<le> length name" using inv sf True by simp
          then show ?thesis unfolding sf later.simps e by blast
        qed
        finally show ?thesis using no by simp
      qed
    qed
  qed
qed

lemma head_matches_wild: "head_matches pat name \<longleftrightarrow> head_wild pat name"
  by (simp add: head_matches_def head_loop_wild)

interpretation head_glob: wildcard_dialect head_matches ASTERISK head_accepts
  by unfold_locales (auto simp: head_matches_wild head_accepts_def)

end
