(* ===== verification/Store.thy ===== *)
theory Store
  imports Remainder
begin

text \<open>
  The registry document and what a repository argument resolves to (\<open>store.rs\<close>,
  \<open>registry.rs\<close>): the identity every spelling of an origin normalizes to, the migration of
  older documents, and resolution. The derived serializers of the registry shape
  (\<open>from_value\<close>, \<open>to_value\<close>) and the file system's \<open>canonicalize\<close> are parameters.
\<close>

section \<open>The document\<close>

datatype visibility = Public | Private | UnknownVisibility
datatype observation = HostAnswered | Override | UnknownObservation

record identity =
  origin :: str
  gate :: str
  visible :: visibility
  observed :: observation
  observed_at :: "str option"

record checkout =
  checkout_path :: str
  checkout_identity :: str

record registry =
  version :: nat
  identities :: "(str \<times> identity) list"
  checkouts :: "(str \<times> checkout) list"
  rules_file :: "str option"

definition effective :: "visibility \<Rightarrow> visibility" where
  "effective v = (case v of Public \<Rightarrow> Public | Private \<Rightarrow> Private | UnknownVisibility \<Rightarrow> Private)"

definition new_identity :: "str \<Rightarrow> str \<Rightarrow> identity" where
  "new_identity orig cmd = \<lparr>origin = orig, gate = cmd, visible = UnknownVisibility,
     observed = UnknownObservation, observed_at = None\<rparr>"

definition VERSION :: nat where "VERSION = 7"
definition SHAPE_SINCE :: nat where "SHAPE_SINCE = 6"
definition OLDEST_VERSION :: nat where "OLDEST_VERSION = 2"
definition NOOP_GATE :: str where "NOOP_GATE = ''<no-op>''"

definition empty_registry :: registry where
  "empty_registry = \<lparr>version = VERSION, identities = [], checkouts = [], rules_file = None\<rparr>"

datatype store_error =
    NotAnObject
  | NoVersion
  | UnreadableVersion nat
  | Unreadable
  | UnknownIdentity str str      \<comment> \<open>the alias and the identity its checkout names\<close>
  | RelativePath str str
  | MissingSection str
  | MissingField str
  | NoCheckout str
  | NotRegistered str

section \<open>Identities\<close>

record hosted =
  host :: str
  owner :: str
  name :: str

record normalized =
  key :: str
  hosted_at :: "hosted option"

text \<open>The spelling of an identity key itself: three segments, the host a dotted name.\<close>

definition hosted_key :: "str \<Rightarrow> normalized option" where
  "hosted_key s =
     (case split_on (CHR ''/'') s of
        [h, ow, n] \<Rightarrow>
          (if contains ''.'' h \<and> ow \<noteq> [] \<and> n \<noteq> []
           then Some \<lparr>key = s, hosted_at = Some \<lparr>host = h, owner = ow, name = n\<rparr>\<rparr> else None)
      | _ \<Rightarrow> None)"

text \<open>What is left of a URL, or of the \<open>git@host:owner/name\<close> spelling, once its scheme is read.\<close>

definition after_scheme :: "str \<Rightarrow> str option" where
  "after_scheme s =
     (case strip_prefix ''https://'' s of Some rest \<Rightarrow> Some rest | None \<Rightarrow>
     (case strip_prefix ''http://'' s of Some rest \<Rightarrow> Some rest | None \<Rightarrow>
     (case strip_prefix ''ssh://'' s of Some rest \<Rightarrow> Some rest | None \<Rightarrow>
     (case split_once (CHR '':'') s of
        None \<Rightarrow> None
      | Some (before, after) \<Rightarrow>
          (if contains ''/'' before \<or> starts_with ''//'' after \<or> starts_with ''/'' after then None
           else Some (before @ ''/'' @ after))))))"

text \<open>\<open>split(':').next()\<close>.\<close>

definition before_colon :: "str \<Rightarrow> str" where
  "before_colon s = hd (split_on (CHR '':'') s)"

text \<open>The host, owner and name of what is left: a user before the host is passed over.\<close>

definition hosted_parts :: "str \<Rightarrow> normalized option" where
  "hosted_parts whole =
     (let rest = (case split_once (CHR ''@'') whole of None \<Rightarrow> whole | Some (_, after) \<Rightarrow> after)
      in case split_on (CHR ''/'') (trim_end_char (CHR ''/'') rest) of
           [h0, ow, n0] \<Rightarrow>
             (let h = before_colon h0; n = trim_end_str ''.git'' n0
              in if h = [] \<or> ow = [] \<or> n = [] then None
                 else Some \<lparr>key = h @ ''/'' @ ow @ ''/'' @ n,
                            hosted_at = Some \<lparr>host = h, owner = ow, name = n\<rparr>\<rparr>)
         | _ \<Rightarrow> None)"

definition hosted_of :: "str \<Rightarrow> normalized option" where
  "hosted_of s =
     (if \<not> contains ''://'' s \<and> \<not> contains '':'' s \<and> \<not> starts_with ''/'' s then hosted_key s
      else Option.bind (after_scheme s) hosted_parts)"

definition normalize :: "(str \<Rightarrow> str option) \<Rightarrow> str \<Rightarrow> normalized" where
  "normalize canonicalize orig =
     (let trimmed = trim orig
      in case hosted_of trimmed of
           Some parts \<Rightarrow> parts
         | None \<Rightarrow>
             (let path = (case strip_prefix ''file://'' trimmed of None \<Rightarrow> trimmed | Some p \<Rightarrow> p);
                  k = (case canonicalize path of None \<Rightarrow> path | Some p \<Rightarrow> p)
              in \<lparr>key = trim_end_str ''.git'' k, hosted_at = None\<rparr>))"

definition is_identity :: "(str \<Rightarrow> str option) \<Rightarrow> str \<Rightarrow> bool" where
  "is_identity canonicalize s \<longleftrightarrow>
     s \<noteq> [] \<and> trim s = s \<and> \<not> any_control s \<and>
     (is_absolute s \<or> key (normalize canonicalize s) = s)"

section \<open>Reading and writing the document\<close>

record read_document =
  read_registry :: registry
  migrated :: bool
  carried :: remainder

definition coherent_checkout :: "registry \<Rightarrow> str \<times> checkout \<Rightarrow> store_error + unit" where
  "coherent_checkout r = (\<lambda>(alias, c).
     if map_of (identities r) (checkout_identity c) = None
     then Err (UnknownIdentity alias (checkout_identity c))
     else if \<not> is_absolute (checkout_path c) then Err (RelativePath alias (checkout_path c))
     else Ok ())"

definition coherent :: "registry \<Rightarrow> store_error + unit" where
  "coherent r = and_then (collect_res (coherent_checkout r) (checkouts r)) (\<lambda>_. Ok ())"

definition INFERRED_KEYS :: "str list" where
  "INFERRED_KEYS = [''workflow'', ''repo_type'']"

definition remove_keys :: "str list \<Rightarrow> json \<Rightarrow> json" where
  "remove_keys ks v =
     (case v of Object es \<Rightarrow> Object (filter (\<lambda>kv. fst kv \<notin> set ks) es) | _ \<Rightarrow> v)"

definition without_inference :: "json \<Rightarrow> json" where
  "without_inference v =
     (case v of
        Object m \<Rightarrow>
          Object (modify ''identities'' (\<lambda>ids.
            case ids of
              Object is \<Rightarrow> Object (map (\<lambda>(k, i). (k, remove_keys INFERRED_KEYS i)) is)
            | _ \<Rightarrow> ids) m)
      | _ \<Rightarrow> v)"

definition field_str :: "str \<Rightarrow> json \<Rightarrow> store_error + str" where
  "field_str n v = ok_or (Option.bind (get n v) as_str) (MissingField n)"

definition legacy_identity :: "nat \<Rightarrow> json \<Rightarrow> store_error + identity" where
  "legacy_identity v value =
     and_then (field_str ''origin'' value) (\<lambda>orig.
     and_then (if v \<ge> 4 then field_str ''gate'' value else Ok NOOP_GATE) (\<lambda>cmd.
       Ok (new_identity orig cmd)))"

fun legacy_identities ::
    "nat \<Rightarrow> (str \<times> json) list \<Rightarrow> (str \<times> identity) list \<Rightarrow> store_error + (str \<times> identity) list" where
  "legacy_identities v [] ids = Ok ids"
| "legacy_identities v ((k, value) # rest) ids =
     and_then (legacy_identity v value) (\<lambda>i. legacy_identities v rest (bt_insert k i ids))"

fun legacy_checkouts ::
    "(str \<times> identity) list \<Rightarrow> (str \<times> json) list \<Rightarrow> (str \<times> checkout) list \<Rightarrow>
     store_error + (str \<times> checkout) list" where
  "legacy_checkouts ids [] cs = Ok cs"
| "legacy_checkouts ids ((alias, value) # rest) cs =
     and_then (field_str ''identity'' value) (\<lambda>named.
       if map_of ids named = None then Err (UnknownIdentity alias named)
       else and_then (field_str ''path'' value) (\<lambda>path.
         legacy_checkouts ids rest
           (bt_insert alias \<lparr>checkout_path = path, checkout_identity = named\<rparr> cs)))"

definition legacy :: "(str \<times> json) list \<Rightarrow> nat \<Rightarrow> store_error + registry" where
  "legacy object v =
     and_then (ok_or (Option.bind (map_of object ''identities'') as_object)
                 (MissingSection ''identities'')) (\<lambda>is.
     and_then (legacy_identities v is []) (\<lambda>ids.
     and_then (ok_or (Option.bind (map_of object ''checkouts'') as_object)
                 (MissingSection ''checkouts'')) (\<lambda>cs.
     and_then (legacy_checkouts ids cs []) (\<lambda>table.
       Ok \<lparr>version = VERSION, identities = ids, checkouts = table, rules_file = None\<rparr>))))"

definition migrate ::
    "(json \<Rightarrow> registry option) \<Rightarrow> (registry \<Rightarrow> json) \<Rightarrow> json \<Rightarrow> store_error + read_document" where
  "migrate from_value to_value value =
     and_then (ok_or (as_object value) NotAnObject) (\<lambda>object.
     and_then (ok_or (Option.bind (map_of object ''version'') as_u64) NoVersion) (\<lambda>v.
       if v \<ge> SHAPE_SINCE then
         and_then (ok_or (from_value value) Unreadable) (\<lambda>r.
         and_then (coherent r) (\<lambda>_.
           Ok \<lparr>read_registry = r, migrated = False, carried = between value (to_value r)\<rparr>))
       else if 2 \<le> v \<and> v \<le> 5 then
         and_then (if v = 5 then ok_or (from_value value) Unreadable else legacy object v) (\<lambda>r0.
         let r = r0\<lparr>version := VERSION\<rparr>
         in and_then (coherent r) (\<lambda>_.
           Ok \<lparr>read_registry = r, migrated = True,
               carried = between (without_inference value) (to_value r)\<rparr>))
       else Err (UnreadableVersion v)))"

definition serialize :: "(registry \<Rightarrow> json) \<Rightarrow> registry \<Rightarrow> remainder \<Rightarrow> json" where
  "serialize to_value r c = restore c (to_value r)"

text \<open>
  \<open>load\<close> and \<open>update\<close>, on what is stored: \<open>None\<close> is a document that could not be read. The
  document written, where one is, comes with the answer.
\<close>

definition load ::
    "(json \<Rightarrow> registry option) \<Rightarrow> (registry \<Rightarrow> json) \<Rightarrow> json option \<Rightarrow>
     store_error + (registry \<times> json option)" where
  "load from_value to_value stored =
     (case stored of
        None \<Rightarrow> Ok (empty_registry, stored)
      | Some value \<Rightarrow>
          and_then (migrate from_value to_value value) (\<lambda>doc.
            Ok (read_registry doc,
                if migrated doc then Some (serialize to_value (read_registry doc) (carried doc))
                else stored)))"

definition update ::
    "(json \<Rightarrow> registry option) \<Rightarrow> (registry \<Rightarrow> json) \<Rightarrow> (registry \<Rightarrow> store_error + (registry \<times> 't)) \<Rightarrow>
     json option \<Rightarrow> store_error + ('t \<times> json option)" where
  "update from_value to_value change stored =
     and_then
       (case stored of
          None \<Rightarrow> Ok \<lparr>read_registry = empty_registry, migrated = False, carried = no_remainder\<rparr>
        | Some value \<Rightarrow> migrate from_value to_value value) (\<lambda>doc.
     and_then (change (read_registry doc)) (\<lambda>(r, outcome).
       Ok (outcome,
           Some (serialize to_value (r\<lparr>version := max (version r) VERSION\<rparr>) (carried doc)))))"

section \<open>Resolution\<close>

record resolution =
  res_key :: str
  res_identity :: identity
  res_alias :: str
  res_publication :: str

definition build :: "registry \<Rightarrow> str \<Rightarrow> checkout \<Rightarrow> store_error + resolution" where
  "build r alias c =
     (case map_of (identities r) (checkout_identity c) of
        None \<Rightarrow> Err (UnknownIdentity alias (checkout_identity c))
      | Some i \<Rightarrow> Ok \<lparr>res_key = checkout_identity c, res_identity = i, res_alias = alias,
                       res_publication = checkout_path c\<rparr>)"

definition resolve_anew :: "(str \<Rightarrow> str option) \<Rightarrow> registry \<Rightarrow> str \<Rightarrow> store_error + resolution" where
  "resolve_anew canonicalize r repo =
     (case map_of (checkouts r) repo of
        Some c \<Rightarrow> build r repo c
      | None \<Rightarrow>
     (case Option.bind (canonicalize repo)
             (\<lambda>canonical. List.find (\<lambda>(_, c). checkout_path c = canonical) (checkouts r)) of
        Some (alias, c) \<Rightarrow> build r alias c
      | None \<Rightarrow>
     (let k = (if map_of (identities r) repo \<noteq> None then repo else key (normalize canonicalize repo))
      in case List.find (\<lambda>(_, c). checkout_identity c = k) (checkouts r) of
           Some (alias, c) \<Rightarrow> build r alias c
         | None \<Rightarrow> (if map_of (identities r) k \<noteq> None then Err (NoCheckout k)
                   else Err (NotRegistered repo)))))"

text \<open>\<open>resolve\<close> inside \<open>resolving_once\<close>: the answers already given, by spelling.\<close>

definition resolve_once ::
    "(str \<Rightarrow> str option) \<Rightarrow> registry \<Rightarrow> (str \<rightharpoonup> resolution) \<Rightarrow> str \<Rightarrow>
     (store_error + resolution) \<times> (str \<rightharpoonup> resolution)" where
  "resolve_once canonicalize r answered repo =
     (case answered repo of
        Some res \<Rightarrow> (Ok res, answered)
      | None \<Rightarrow> (case resolve_anew canonicalize r repo of
                   Inl e \<Rightarrow> (Err e, answered)
                 | Inr res \<Rightarrow> (Ok res, answered(repo \<mapsto> res))))"

section \<open>Registration\<close>

text \<open>
  The change \<open>register\<close> makes to the document, for a checkout at \<open>path\<close> whose origin
  normalized to \<open>k\<close>, and whose own gate command was detected as \<open>cmd\<close>.
\<close>

definition alias_for :: "str \<Rightarrow> str" where
  "alias_for path =
     (case filter (\<lambda>part. part \<noteq> [] \<and> part \<noteq> ''.'') (split_on (CHR ''/'') path) of
        [] \<Rightarrow> path
      | parts \<Rightarrow> (if last parts = ''..'' then path else last parts))"

definition gate_markers :: "(str \<times> str) list" where
  "gate_markers =
     [(''justfile'', ''just gate''), (''Justfile'', ''just gate''), (''Makefile'', ''make check''),
      (''package.json'', ''npm test''), (''Cargo.toml'', ''cargo test''),
      (''pyproject.toml'', ''pytest'')]"

definition detect_gate :: "(str \<Rightarrow> bool) \<Rightarrow> str \<Rightarrow> str" where
  "detect_gate is_file path =
     (case List.find (\<lambda>(marker, _). is_file (path_join path marker)) gate_markers of
        Some (_, command) \<Rightarrow> command
      | None \<Rightarrow> NOOP_GATE)"

definition register_change :: "str \<Rightarrow> str \<Rightarrow> str \<Rightarrow> registry \<Rightarrow> registry" where
  "register_change path k cmd r =
     (let ids = (if map_of (identities r) k = None
                 then bt_insert k (new_identity k cmd) (identities r) else identities r);
          ids' = modify k (\<lambda>i. if gate i = NOOP_GATE \<and> cmd \<noteq> NOOP_GATE then i\<lparr>gate := cmd\<rparr>
                                  else i) ids
      in r\<lparr>identities := ids',
           checkouts := bt_insert (alias_for path)
             \<lparr>checkout_path = path, checkout_identity = k\<rparr> (checkouts r)\<rparr>)"

datatype coverage = PrePushHook str | RequiredChecks | NoCoverage

definition merge_path_coverage :: "(str \<Rightarrow> str option) \<Rightarrow> str option \<Rightarrow> bool \<Rightarrow> identity \<Rightarrow> coverage" where
  "merge_path_coverage canonicalize hook local_direct i =
     (case hook of
        Some h \<Rightarrow> PrePushHook h
      | None \<Rightarrow>
          (if \<not> local_direct \<and> hosted_at (normalize canonicalize (origin i)) \<noteq> None
           then RequiredChecks else NoCoverage))"

section \<open>Every spelling of a hosted repository is one identity\<close>

definition plain :: "str \<Rightarrow> bool" where
  "plain s \<longleftrightarrow> s \<noteq> [] \<and> CHR ''/'' \<notin> set s \<and> CHR '':'' \<notin> set s \<and> CHR ''@'' \<notin> set s"

definition key_of :: "hosted \<Rightarrow> str" where
  "key_of h = host h @ ''/'' @ owner h @ ''/'' @ name h"

definition spellings :: "hosted \<Rightarrow> str list" where
  "spellings h =
     [key_of h,
      ''https://'' @ key_of h, ''https://'' @ key_of h @ ''.git'', ''https://'' @ key_of h @ ''/'',
      ''http://'' @ key_of h, ''ssh://git@'' @ key_of h @ ''.git'',
      ''git@'' @ host h @ '':'' @ owner h @ ''/'' @ name h,
      ''git@'' @ host h @ '':'' @ owner h @ ''/'' @ name h @ ''.git'']"

definition nameable :: "hosted \<Rightarrow> bool" where
  "nameable h \<longleftrightarrow>
     plain (host h) \<and> CHR ''.'' \<in> set (host h) \<and> plain (owner h) \<and> plain (name h) \<and>
     \<not> ends_with ''.git'' (name h)"

lemma split_three:
  "CHR ''/'' \<notin> set a \<Longrightarrow> CHR ''/'' \<notin> set b \<Longrightarrow> CHR ''/'' \<notin> set c \<Longrightarrow>
   split_on (CHR ''/'') (a @ CHR ''/'' # b @ CHR ''/'' # c) = [a, b, c]"
  by (simp add: split_on_append split_on_free_id)

lemma after_scheme_url:
  "after_scheme (''https://'' @ r) = Some r" "after_scheme (''http://'' @ r) = Some r"
  "after_scheme (''ssh://'' @ r) = Some r"
  by (simp_all add: after_scheme_def strip_prefix_def starts_with_def)

text \<open>The parts are read whatever user comes first and whatever slash or suffix comes last.\<close>

lemma hosted_parts_plain:
  assumes "plain h" "plain ow" "plain n0" "trim_end_str ''.git'' n0 = n" "n \<noteq> []"
    and "pre = [] \<or> pre = ''git@''" "post = [] \<or> post = ''/''"
  shows "hosted_parts (pre @ h @ ''/'' @ ow @ ''/'' @ n0 @ post) =
    Some \<lparr>key = h @ ''/'' @ ow @ ''/'' @ n, hosted_at = Some \<lparr>host = h, owner = ow, name = n\<rparr>\<rparr>"
proof -
  let ?key = "h @ ''/'' @ ow @ ''/'' @ n0"
  have "CHR ''@'' \<notin> set (?key @ post)" using assms by (auto simp: plain_def)
  then have "split_once (CHR ''@'') (?key @ post) = None" by (simp only: split_once_None not_False_eq_True)
  then have strip: "(case split_once (CHR ''@'') (pre @ ?key @ post) of None \<Rightarrow> pre @ ?key @ post
      | Some (_, after) \<Rightarrow> after) = ?key @ post"
    using assms(6) by auto
  have "n0 \<noteq> []" "last n0 \<noteq> CHR ''/''" using assms(3) by (auto simp: plain_def) (metis last_in_set)
  then have "trim_end_char (CHR ''/'') ?key = ?key"
    by (intro trim_end_char_id) simp
  then have trim: "trim_end_char (CHR ''/'') (?key @ post) = ?key"
    using assms(7) trim_end_char_append [of "CHR ''/''" ?key] by (auto simp del: append.simps append_assoc)
  have split: "split_on (CHR ''/'') ?key = [h, ow, n0]"
    using assms(1-3) by (simp add: plain_def split_three)
  have colon: "before_colon h = h"
    using assms(1) by (simp add: before_colon_def plain_def split_on_free_id)
  have shape: "pre @ h @ ''/'' @ ow @ ''/'' @ n0 @ post = pre @ ?key @ post" by simp
  show ?thesis
    unfolding shape hosted_parts_def strip Let_def trim split
    using assms(1,2,4,5) by (simp add: colon plain_def)
qed

lemma hosted_of_url:
  assumes "CHR '':'' \<in> set s" "after_scheme s = Some r"
  shows "hosted_of s = hosted_parts r"
  using assms by (simp add: hosted_of_def)

lemma after_scheme_scp:
  assumes "plain h" "plain ow"
  shows "after_scheme (''git@'' @ h @ '':'' @ ow @ r) = Some (''git@'' @ h @ ''/'' @ ow @ r)"
proof -
  have "CHR '':'' \<notin> set (''git@'' @ h)" using assms(1) by (simp add: plain_def)
  from split_once_append [OF this] have "split_once (CHR '':'') (''git@'' @ h @ '':'' @ ow @ r) =
      Some (''git@'' @ h, ow @ r)" by simp
  moreover have "\<not> starts_with ''/'' (ow @ r)" "\<not> starts_with ''//'' (ow @ r)"
    using assms(2) by (cases ow; auto simp: plain_def starts_with_def)+
  ultimately show ?thesis using assms(1)
    by (simp add: after_scheme_def strip_prefix_def starts_with_def plain_def)
qed

lemma spellings_hosted:
  assumes "nameable h" "s \<in> set (spellings h)"
  shows "hosted_of s = Some \<lparr>key = key_of h, hosted_at = Some h\<rparr>"
proof -
  have p: "plain (host h)" "plain (owner h)" "plain (name h)" "name h \<noteq> []"
    and dot: "CHR ''.'' \<in> set (host h)" and git: "\<not> ends_with ''.git'' (name h)"
    using assms(1) by (auto simp: nameable_def plain_def)
  have t: "trim_end_str ''.git'' (name h) = name h" "trim_end_str ''.git'' (name h @ ''.git'') = name h"
    using git by (simp_all add: trim_end_str_id trim_end_str_append del: append.simps)
  have pg: "plain (name h @ ''.git'')" using p(3) by (simp add: plain_def)
  have whole: "Some \<lparr>key = key_of h, hosted_at = Some h\<rparr> =
      Some \<lparr>key = host h @ ''/'' @ owner h @ ''/'' @ name h,
            hosted_at = Some \<lparr>host = host h, owner = owner h, name = name h\<rparr>\<rparr>"
    by (simp add: key_of_def)
  note bare = hosted_parts_plain [OF p(1,2) p(3) t(1) p(4)]
  note git = hosted_parts_plain [OF p(1,2) pg t(2) p(4)]
  have "CHR '':'' \<notin> set (key_of h)" using p by (simp add: key_of_def plain_def)
  moreover have "\<not> starts_with ''/'' (key_of h)"
    using p by (cases "host h") (auto simp: key_of_def plain_def starts_with_def)
  ultimately have "hosted_of (key_of h) = hosted_key (key_of h)"
    by (simp add: hosted_of_def contains_head)
  also have "\<dots> = Some \<lparr>key = key_of h, hosted_at = Some h\<rparr>"
    using p dot by (simp add: hosted_key_def key_of_def plain_def split_three)
  finally have 1: "hosted_of (key_of h) = Some \<lparr>key = key_of h, hosted_at = Some h\<rparr>" .
  have url: "hosted_of (scheme @ r) = hosted_parts r"
    if "scheme \<in> {''https://'', ''http://'', ''ssh://''}" for scheme r
    using that after_scheme_url [of r] by (auto intro!: hosted_of_url)
  have 2: "hosted_of (scheme @ key_of h) = Some \<lparr>key = key_of h, hosted_at = Some h\<rparr>"
    if "scheme \<in> {''https://'', ''http://'', ''ssh://''}" for scheme
    unfolding url [OF that] whole using bare [of "[]" "[]"] by (simp add: key_of_def)
  have 3: "hosted_of (''https://'' @ key_of h @ ''.git'') = Some \<lparr>key = key_of h, hosted_at = Some h\<rparr>"
    using url [of "''https://''" "key_of h @ ''.git''"] git [of "[]" "[]"]
    by (simp add: key_of_def del: append.simps(2))
  have 4: "hosted_of (''https://'' @ key_of h @ ''/'') = Some \<lparr>key = key_of h, hosted_at = Some h\<rparr>"
    using url [of "''https://''" "key_of h @ ''/''"] bare [of "[]" "''/''"]
    by (simp add: key_of_def del: append.simps(2))
  have 5: "hosted_of (''ssh://git@'' @ key_of h @ ''.git'') = Some \<lparr>key = key_of h, hosted_at = Some h\<rparr>"
    using url [of "''ssh://''" "''git@'' @ key_of h @ ''.git''"] git [of "''git@''" "[]"]
    by (simp add: key_of_def)
  have scp: "hosted_of (''git@'' @ host h @ '':'' @ owner h @ r) =
      hosted_parts (''git@'' @ host h @ ''/'' @ owner h @ r)" for r
    by (rule hosted_of_url [OF _ after_scheme_scp [OF p(1,2)]]) simp
  have 6: "hosted_of (''git@'' @ host h @ '':'' @ owner h @ ''/'' @ name h) =
      Some \<lparr>key = key_of h, hosted_at = Some h\<rparr>"
    unfolding scp whole using bare [of "''git@''" "[]"] by simp
  have 7: "hosted_of (''git@'' @ host h @ '':'' @ owner h @ ''/'' @ name h @ ''.git'') =
      Some \<lparr>key = key_of h, hosted_at = Some h\<rparr>"
    unfolding scp whole using git [of "''git@''" "[]"] by simp
  from assms(2) 1 2 3 4 5 6 7 show ?thesis
    unfolding spellings_def by (auto simp del: append.simps)
qed

lemma join_split_three:
  "split_on (CHR ''/'') s = [a, b, c] \<Longrightarrow> s = a @ ''/'' @ b @ ''/'' @ c"
  using join_split_on [of "CHR ''/''" s] by simp

lemma hosted_key_Some:
  assumes "hosted_key s = Some nz"
  shows "\<exists>h. nz = \<lparr>key = s, hosted_at = Some h\<rparr> \<and> s = key_of h \<and> CHR ''.'' \<in> set (host h) \<and>
    split_on (CHR ''/'') s = [host h, owner h, name h]"
  using assms unfolding hosted_key_def
  by (auto split: list.splits if_splits dest!: join_split_three simp: key_of_def)

lemma hosted_key_intro:
  assumes "CHR ''/'' \<notin> set (host h)" "CHR ''/'' \<notin> set (owner h)" "CHR ''/'' \<notin> set (name h)"
    "CHR ''.'' \<in> set (host h)" "owner h \<noteq> []" "name h \<noteq> []"
  shows "hosted_key (key_of h) = Some \<lparr>key = key_of h, hosted_at = Some h\<rparr>"
  using assms by (simp add: hosted_key_def key_of_def split_three)

lemma hosted_parts_Some:
  assumes "hosted_parts w = Some nz"
  shows "\<exists>h. nz = \<lparr>key = key_of h, hosted_at = Some h\<rparr> \<and> host h \<noteq> [] \<and> owner h \<noteq> [] \<and> name h \<noteq> [] \<and>
    CHR ''/'' \<notin> set (host h) \<and> CHR ''/'' \<notin> set (owner h) \<and> CHR ''/'' \<notin> set (name h)"
proof -
  obtain rest where rest: "rest = (case split_once (CHR ''@'') w of None \<Rightarrow> w | Some (_, after) \<Rightarrow> after)"
    by simp
  obtain h0 ow n0 where s: "split_on (CHR ''/'') (trim_end_char (CHR ''/'') rest) = [h0, ow, n0]"
    using assms unfolding hosted_parts_def rest Let_def
    by (auto split: list.splits)
  let ?h = "\<lparr>host = before_colon h0, owner = ow, name = trim_end_str ''.git'' n0\<rparr>"
  have nz: "nz = \<lparr>key = key_of ?h, hosted_at = Some ?h\<rparr>" "host ?h \<noteq> []" "owner ?h \<noteq> []" "name ?h \<noteq> []"
    using assms unfolding hosted_parts_def rest [symmetric] s Let_def
    by (auto simp: key_of_def split: if_splits)
  have free: "CHR ''/'' \<notin> set h0" "CHR ''/'' \<notin> set ow" "CHR ''/'' \<notin> set n0"
    using split_on_free [of _ "CHR ''/''"] s by (metis list.set_intros)+
  have "CHR ''/'' \<notin> set (before_colon h0)"
  proof -
    obtain b bs where "split_on (CHR '':'') h0 = b # bs" by (metis list.exhaust split_on_nonempty)
    moreover from this have "set b \<subseteq> set h0"
      using join_split_on [of "CHR '':''" h0] by (cases bs) auto
    ultimately show ?thesis using free(1) by (auto simp: before_colon_def)
  qed
  moreover have "CHR ''/'' \<notin> set (trim_end_str ''.git'' n0)"
    using trim_end_str_prefix [of n0 "''.git''"] free(3) by (metis Un_iff set_append)
  ultimately show ?thesis using nz free(2) by (intro exI [of _ ?h]) simp
qed

lemma hosted_key_again:
  assumes "hosted_of s = Some nz" "hosted_at nz = Some h" "CHR ''.'' \<in> set (host h)"
    "CHR '':'' \<notin> set (key nz)"
  shows "hosted_of (key nz) = Some nz"
proof -
  have slash: "\<not> starts_with ''/'' (key_of k)" if "host k \<noteq> []" "CHR ''/'' \<notin> set (host k)" for k
    using that by (cases "host k") (auto simp: key_of_def starts_with_def)
  show ?thesis
  proof (cases "\<not> contains ''://'' s \<and> \<not> contains '':'' s \<and> \<not> starts_with ''/'' s")
    case True
    with assms show ?thesis using hosted_key_Some [of s nz] by (auto simp: hosted_of_def)
  next
    case False
    with assms(1) obtain w where "hosted_parts w = Some nz"
      by (auto simp: hosted_of_def bind_eq_Some_conv split: if_splits)
    from hosted_parts_Some [OF this] assms(2) have
      k: "nz = \<lparr>key = key_of h, hosted_at = Some h\<rparr>" "host h \<noteq> []" "owner h \<noteq> []" "name h \<noteq> []"
      "CHR ''/'' \<notin> set (host h)" "CHR ''/'' \<notin> set (owner h)" "CHR ''/'' \<notin> set (name h)"
      by auto
    have "hosted_of (key_of h) = hosted_key (key_of h)"
      using assms(4) k(1) slash [OF k(2,5)] by (simp add: hosted_of_def contains_head)
    with hosted_key_intro [OF k(5-7) assms(3) k(3,4)] k(1) show ?thesis by simp
  qed
qed

section \<open>What a document that was read says\<close>

definition coherent_registry :: "registry \<Rightarrow> bool" where
  "coherent_registry r \<longleftrightarrow>
     (\<forall>(alias, c) \<in> set (checkouts r). is_absolute (checkout_path c) \<and>
        map_of (identities r) (checkout_identity c) \<noteq> None)"

lemma coherent_Ok: "coherent r = Ok () \<longleftrightarrow> coherent_registry r"
proof -
  have one: "coherent_checkout r (nm, c) = Ok u \<longleftrightarrow>
      is_absolute (checkout_path c) \<and> map_of (identities r) (checkout_identity c) \<noteq> None" for nm c u
    by (simp add: coherent_checkout_def)
  have "coherent r = Ok () \<longleftrightarrow> (\<exists>us. list_all2 (\<lambda>x y. coherent_checkout r x = Ok y) (checkouts r) us)"
    by (auto simp: coherent_def ok_cases collect_res_Ok)
  also have "\<dots> \<longleftrightarrow> (\<forall>x \<in> set (checkouts r). coherent_checkout r x = Ok ())"
  proof
    assume "\<forall>x \<in> set (checkouts r). coherent_checkout r x = Ok ()"
    then have "list_all2 (\<lambda>x y. coherent_checkout r x = Ok y) (checkouts r)
        (map (\<lambda>_. ()) (checkouts r))" by (simp add: list_all2_conv_all_nth)
    then show "\<exists>us. list_all2 (\<lambda>x y. coherent_checkout r x = Ok y) (checkouts r) us" by blast
  next
    assume "\<exists>us. list_all2 (\<lambda>x y. coherent_checkout r x = Ok y) (checkouts r) us"
    then show "\<forall>x \<in> set (checkouts r). coherent_checkout r x = Ok ()"
      by (simp add: list_all2_conv_all_nth all_set_conv_all_nth)
  qed
  also have "\<dots> \<longleftrightarrow> coherent_registry r"
    unfolding coherent_registry_def by (auto simp: one)
  finally show ?thesis .
qed

lemma migrate_Ok:
  assumes "migrate fv tv v = Ok doc"
  shows "coherent_registry (read_registry doc)"
    and "\<exists>m n. v = Object m \<and> Option.bind (map_of m ''version'') as_u64 = Some n \<and>
      (n \<ge> SHAPE_SINCE \<and> fv v = Some (read_registry doc) \<and> \<not> migrated doc \<and>
         carried doc = between v (tv (read_registry doc)) \<or>
       2 \<le> n \<and> n \<le> 5 \<and> version (read_registry doc) = VERSION \<and> migrated doc \<and>
         carried doc = between (without_inference v) (tv (read_registry doc)))"
  using assms unfolding migrate_def
  by (auto simp: ok_cases as_object_Some coherent_Ok Let_def split: if_splits)

text \<open>The inferred keys, at any identity of the document.\<close>

definition inferred_place :: "place list \<Rightarrow> bool" where
  "inferred_place p \<longleftrightarrow> (\<exists>k. p = [Key ''identities'', Key k, Key ''workflow''] \<or>
                                 p = [Key ''identities'', Key k, Key ''repo_type''])"

lemma map_of_remove_keys:
  "map_of (filter (\<lambda>kv. fst kv \<notin> K) m) k = (if k \<in> K then None else map_of m k)"
  by (induction m) auto

lemma lookup_remove_keys:
  "x \<in> set ks \<Longrightarrow> lookup [Key x] (remove_keys ks v) = None"
  by (cases v) (auto simp: remove_keys_def map_of_remove_keys)

lemma map_of_map_snd: "map_of (map (\<lambda>(k, v). (k, f v)) m) k = map_option f (map_of m k)"
  by (induction m) auto

lemma lookup_without_inference:
  "inferred_place p \<Longrightarrow> lookup p (without_inference v) = None"
proof -
  have *: "lookup [Key ''identities'', Key k, Key x] (without_inference v) = None"
    if "x \<in> set INFERRED_KEYS" for k x
  proof (cases v)
    case (Object m)
    then show ?thesis
    proof (cases "map_of m ''identities''")
      case (Some ids)
      then show ?thesis using Object lookup_remove_keys [OF that]
        by (cases ids) (auto simp: without_inference_def map_of_modify map_of_map_snd split: option.splits)
    qed (simp add: without_inference_def map_of_modify)
  qed (auto simp: without_inference_def)
  then show "inferred_place p \<Longrightarrow> lookup p (without_inference v) = None"
    by (auto simp: inferred_place_def INFERRED_KEYS_def)
qed

text \<open>Nothing is restored at a place neither the document nor what is written has.\<close>

lemma lookup_restore_absent:
  "wf_json raw \<Longrightarrow> lookup p raw = None \<Longrightarrow> lookup p d = None \<Longrightarrow>
   lookup p (restore (between raw u) d) = None"
proof (induction p d arbitrary: raw u rule: lookup.induct)
  case (1 v)
  then show ?case by simp
next
  case (2 k p d)
  show ?case
  proof (cases "\<exists>r m. raw = Object r \<and> u = Object m")
    case True
    then obtain r m where ru: "raw = Object r" "u = Object m" by blast
    obtain m' where m': "restore (between (Object r) (Object m)) (Object d) = Object m'"
      by (auto simp: restore_Object)
    have wf: "wf_json (Object r)" using "2.prems" ru by simp
    note e = restored_entry [OF wf m', of k]
    show ?thesis using "2.prems"(2,3) "2.IH" wf_entry [OF wf, of k] unfolding ru m'
      by (auto simp: e split: option.splits)
  next
    case False
    then have "\<exists>es. between raw u = Remainder [] [] es"
      by (cases "(raw, u)" rule: between.cases) (auto simp: no_remainder_def)
    with "2.prems" show ?thesis by auto
  qed
next
  case (3 i p vs)
  show ?case
  proof (cases "\<exists>rs us. raw = Array rs \<and> u = Array us \<and> length rs = length us")
    case True
    then obtain rs us where "raw = Array rs" "u = Array us" "length rs = length us" by blast
    then show ?thesis using "3.prems" "3.IH" [of "rs ! i" "us ! i"]
      by (auto simp: zip_with_nth split: if_splits)
  next
    case False
    then have "\<exists>un w. between raw u = Remainder un w []"
      by (cases "(raw, u)" rule: between.cases) (auto simp: no_remainder_def)
    with "3.prems" show ?thesis by (auto simp: zip_with_nth split: if_splits)
  qed
qed (auto simp: restore_shape)

lemma wf_without_inference: "wf_json v \<Longrightarrow> wf_json (without_inference v)"
proof -
  have rk: "wf_json (remove_keys ks i)" if "wf_json i" for ks i
    using that by (cases i) (auto simp: remove_keys_def distinct_map_filter)
  have ids: "wf_json (case i of Object is \<Rightarrow> Object (map (\<lambda>(k, i). (k, remove_keys ks i)) is) | _ \<Rightarrow> i)"
    if "wf_json i" for ks i
    using that by (cases i) (fastforce simp: comp_def case_prod_beta intro: rk)+
  assume "wf_json v"
  then show ?thesis
    by (cases v) (auto simp: without_inference_def modify_def comp_def case_prod_beta ids)
qed

section \<open>Resolving\<close>

definition selects :: "registry \<Rightarrow> resolution \<Rightarrow> bool" where
  "selects r res \<longleftrightarrow>
     (\<exists>c. (res_alias res, c) \<in> set (checkouts r) \<and> res_key res = checkout_identity c \<and>
          res_publication res = checkout_path c \<and> map_of (identities r) (res_key res) = Some (res_identity res))"

lemma build_selects:
  assumes "coherent_registry r" "(nm, c) \<in> set (checkouts r)"
  shows "\<exists>res. build r nm c = Ok res \<and> selects r res"
  using assms by (auto simp: build_def selects_def coherent_registry_def split: option.splits)

lemma resolve_anew_cases:
  assumes "coherent_registry r"
  shows "case resolve_anew canon r repo of
      Inr res \<Rightarrow> selects r res
    | Inl e \<Rightarrow> (\<exists>k. (e = NoCheckout k \<or> e = NotRegistered repo) \<and>
               (k = repo \<or> k = key (normalize canon repo)) \<and>
               (\<forall>(nm, c) \<in> set (checkouts r). nm \<noteq> repo \<and> checkout_identity c \<noteq> k \<and>
                  canon repo \<noteq> Some (checkout_path c)))"
proof -
  note b = build_selects [OF assms]
  show ?thesis
  proof (cases "map_of (checkouts r) repo")
    case (Some c)
    with b [OF map_of_SomeD [OF Some]] show ?thesis by (auto simp: resolve_anew_def)
  next
    case no_alias: None
    let ?at = "Option.bind (canon repo)
             (\<lambda>canonical. List.find (\<lambda>(_, c). checkout_path c = canonical) (checkouts r))"
    let ?k = "if map_of (identities r) repo \<noteq> None then repo else key (normalize canon repo)"
    let ?of = "List.find (\<lambda>(_, c). checkout_identity c = ?k) (checkouts r)"
    show ?thesis
    proof (cases ?at)
      case (Some ac)
      then obtain nm c where ac: "ac = (nm, c)" by (cases ac) auto
      from Some have "ac \<in> set (checkouts r)"
        by (auto simp: bind_eq_Some_conv dest!: find_SomeD)
      with b ac obtain res where "build r nm c = Ok res" "selects r res" by blast
      with ac Some no_alias show ?thesis by (auto simp: resolve_anew_def)
    next
      case no_path: None
      show ?thesis
      proof (cases ?of)
        case (Some ac)
        then obtain nm c where ac: "ac = (nm, c)" by (cases ac) auto
        from Some have "ac \<in> set (checkouts r)" by (auto dest!: find_SomeD)
        with b ac obtain res where "build r nm c = Ok res" "selects r res" by blast
        with ac Some no_path no_alias show ?thesis by (auto simp: resolve_anew_def Let_def)
      next
        case None
        have "nm \<noteq> repo \<and> checkout_identity c \<noteq> ?k \<and> canon repo \<noteq> Some (checkout_path c)"
          if "(nm, c) \<in> set (checkouts r)" for nm c
        proof (intro conjI)
          show "nm \<noteq> repo" using that no_alias by (auto simp: map_of_eq_None_iff rev_image_eqI)
          show "checkout_identity c \<noteq> ?k" using find_NoneD [OF None that] by simp
          show "canon repo \<noteq> Some (checkout_path c)"
            using no_path find_NoneD [OF _ that, of "\<lambda>(_, d). checkout_path d = checkout_path c"]
            by (auto simp: bind_eq_None_conv)
        qed
        then have "\<forall>(nm, c) \<in> set (checkouts r). nm \<noteq> repo \<and> checkout_identity c \<noteq> ?k \<and>
                  canon repo \<noteq> Some (checkout_path c)" by blast
        moreover have "resolve_anew canon r repo = Err (NoCheckout ?k) \<or>
            resolve_anew canon r repo = Err (NotRegistered repo)"
          using no_alias no_path None by (simp add: resolve_anew_def Let_def)
        moreover have "?k = repo \<or> ?k = key (normalize canon repo)" by simp
        ultimately show ?thesis by (elim disjE; simp only: sum.case; blast)
      qed
    qed
  qed
qed

section \<open>Registering\<close>

lemma map_of_modify': "map_of (modify k f m) = (map_of m)(k := map_option f (map_of m k))"
  by (auto simp: map_of_modify fun_eq_iff)

lemma register_resolves:
  "\<exists>res. resolve_anew canon (register_change path k cmd r) (alias_for path) = Ok res \<and>
     res_key res = k \<and> res_publication res = path \<and> res_alias res = alias_for path"
  by (auto simp: resolve_anew_def register_change_def Let_def build_def map_of_modify')

lemma register_identities:
  "map_of (identities (register_change path k cmd r)) j =
    (if j = k then
       Some (case map_of (identities r) k of
               None \<Rightarrow> new_identity k cmd
             | Some i \<Rightarrow> (if gate i = NOOP_GATE then i\<lparr>gate := cmd\<rparr> else i))
     else map_of (identities r) j)"
  by (auto simp: register_change_def Let_def map_of_modify new_identity_def split: option.splits)

lemma register_checkouts:
  "map_of (checkouts (register_change path k cmd r)) =
    (map_of (checkouts r))(alias_for path \<mapsto> \<lparr>checkout_path = path, checkout_identity = k\<rparr>)"
  by (simp add: register_change_def)

section \<open>Answering each spelling once\<close>

definition answers_hold :: "(str \<Rightarrow> str option) \<Rightarrow> registry \<Rightarrow> (str \<rightharpoonup> resolution) \<Rightarrow> bool" where
  "answers_hold canon r answered \<longleftrightarrow>
     (\<forall>repo res. answered repo = Some res \<longrightarrow> resolve_anew canon r repo = Ok res)"

lemma resolve_once_transparent:
  "answers_hold canon r answered \<Longrightarrow> resolve_once canon r answered repo = (x, answered') \<Longrightarrow>
   x = resolve_anew canon r repo \<and> answers_hold canon r answered'"
  by (auto simp: resolve_once_def answers_hold_def split: option.splits sum.splits if_splits)

section \<open>Properties\<close>



text \<open>Normalizing is idempotent where a host has a dot: the key a hosted spelling normalizes to
  normalizes to itself, with the same host, owner and name.\<close>

theorem identity_key_resolves_again:
  assumes "hosted_of s = Some nz" "hosted_at nz = Some h" "CHR ''.'' \<in> set (host h)"
    "CHR '':'' \<notin> set (key nz)"
  shows "hosted_of (key nz) = Some nz"
  by (rule hosted_key_again [OF assms])

lemma identity_key_resolves_again_witness:
  "hosted_of ''github.com/acme/tool'' =
   Some \<lparr>key = ''github.com/acme/tool'',
         hosted_at = Some \<lparr>host = ''github.com'', owner = ''acme'', name = ''tool''\<rparr>\<rparr>"
proof -
  let ?h = "\<lparr>host = ''github.com'', owner = ''acme'', name = ''tool''\<rparr>"
  have "nameable ?h" "''https://github.com/acme/tool'' \<in> set (spellings ?h)"
    by (simp_all add: nameable_def plain_def ends_with_def spellings_def key_of_def)
  from spellings_hosted [OF this] have
    "hosted_of ''https://github.com/acme/tool'' = Some \<lparr>key = key_of ?h, hosted_at = Some ?h\<rparr>" .
  from identity_key_resolves_again [OF this] show ?thesis by (simp add: key_of_def)
qed

text \<open>The key of a repository on a host without a dot is read back as a local path: the normalized
  key of https://localhost/a/b does not name its host, owner and name again.\<close>

lemma dotless_host_key_is_a_path:
  "hosted_of ''https://localhost/a/b'' =
     Some \<lparr>key = ''localhost/a/b'',
           hosted_at = Some \<lparr>host = ''localhost'', owner = ''a'', name = ''b''\<rparr>\<rparr> \<and>
   hosted_of ''localhost/a/b'' = None"
proof
  have "hosted_of (''https://'' @ ''localhost/a/b'') = hosted_parts ''localhost/a/b''"
    using after_scheme_url(1) [of "''localhost/a/b''"] by (intro hosted_of_url) simp_all
  moreover have "plain ''localhost''" "plain ''a''" "plain ''b''" "trim_end_str ''.git'' ''b'' = ''b''"
    by (simp_all add: plain_def trim_end_str_id ends_with_def)
  from hosted_parts_plain [OF this, of "[]" "[]"]
  have "hosted_parts ''localhost/a/b'' = Some \<lparr>key = ''localhost/a/b'',
      hosted_at = Some \<lparr>host = ''localhost'', owner = ''a'', name = ''b''\<rparr>\<rparr>" by simp
  ultimately show "hosted_of ''https://localhost/a/b'' =
     Some \<lparr>key = ''localhost/a/b'',
           hosted_at = Some \<lparr>host = ''localhost'', owner = ''a'', name = ''b''\<rparr>\<rparr>" by simp
  show "hosted_of ''localhost/a/b'' = None"
    by (simp add: hosted_of_def contains_head starts_with_def hosted_key_def)
qed

text \<open>Resolution of a repository reference is complete over the registry that was read: an answer
  names a registered checkout and its identity, and a refusal means that no checkout has that
  alias, that path or that identity.\<close>

theorem resolution_complete:
  assumes "migrate from_value to_value stored = Ok doc"
  shows "case resolve_anew canon (read_registry doc) repo of
      Inr res \<Rightarrow> selects (read_registry doc) res
    | Inl e \<Rightarrow> (\<exists>k. (e = NoCheckout k \<or> e = NotRegistered repo) \<and>
               (k = repo \<or> k = key (normalize canon repo)) \<and>
               (\<forall>(nm, c) \<in> set (checkouts (read_registry doc)).
                  nm \<noteq> repo \<and> checkout_identity c \<noteq> k \<and> canon repo \<noteq> Some (checkout_path c)))"
  by (rule resolve_anew_cases [OF migrate_Ok(1) [OF assms]])


text \<open>A migrated document carries no inferred workflow or repository type: rewriting it leaves
  neither key on any identity.\<close>

theorem migration_drops_inference:
  assumes "wf_json stored" "migrate from_value to_value stored = Ok doc" "migrated doc"
    and "\<And>r p. inferred_place p \<Longrightarrow> lookup p (to_value r) = None" "inferred_place p"
  shows "lookup p (serialize to_value r (carried doc)) = None"
proof -
  have "carried doc = between (without_inference stored) (to_value (read_registry doc))"
    using migrate_Ok(2) [OF assms(2)] assms(3) by auto
  then show ?thesis
    using lookup_restore_absent [OF wf_without_inference [OF assms(1)] lookup_without_inference [OF assms(5)]]
      assms(4,5) by (simp add: serialize_def)
qed

text \<open>Two checkouts with one directory name have one alias: registering the second replaces the
  first, which is no longer in the registry.\<close>

theorem register_collision:
  assumes "alias_for p = alias_for q" "p \<noteq> q"
  shows "p \<notin> (\<lambda>(nm, c). checkout_path c) `
    set (checkouts (register_change q k cmd (register_change p j cmd' empty_registry)))"
  using assms by (simp add: register_change_def empty_registry_def Let_def)

text \<open>A concrete serializer for the witnesses: a registry of nothing, at one version.\<close>

definition bare :: json where
  "bare = Object [(''version'', Number ''7''), (''identities'', Object []), (''checkouts'', Object [])]"

definition bare_from :: "json \<Rightarrow> registry option" where
  "bare_from v = (if extends bare v then Some empty_registry else None)"


lemma migration_drops_inference_witness:
  "lookup [Key ''identities'', Key ''/r'', Key ''workflow'']
     (serialize (\<lambda>_. bare) empty_registry
       (between (without_inference
          (Object [(''version'', Number ''5''),
                   (''identities'', Object [(''/r'', Object [(''workflow'', Str ''local'')])])])) bare)) = None"
proof -
  let ?v = "Object [(''version'', Number ''5''),
                   (''identities'', Object [(''/r'', Object [(''workflow'', Str ''local'')])])]"
  let ?doc = "\<lparr>read_registry = empty_registry, migrated = True,
               carried = between (without_inference ?v) bare\<rparr>"
  have 1: "wf_json ?v" by simp
  have 2: "migrate (\<lambda>_. Some empty_registry) (\<lambda>_. bare) ?v = Ok ?doc"
    by (simp add: migrate_def ok_or_def as_u64_def parse_uint_def digits_value_def digit_value_def
        char_classes SHAPE_SINCE_def coherent_def empty_registry_def Let_def VERSION_def)
  have 3: "lookup p bare = None" if "inferred_place p" for p
    using that by (auto simp: inferred_place_def bare_def)
  have 4: "inferred_place [Key ''identities'', Key ''/r'', Key ''workflow'']"
    by (auto simp: inferred_place_def)
  from migration_drops_inference [OF 1 2 _ 3 4] show ?thesis by simp
qed

lemma resolution_complete_witness:
  "resolve_anew (\<lambda>_. None) empty_registry ''nowhere'' = Err (NotRegistered ''nowhere'')"
proof -
  let ?doc = "\<lparr>read_registry = empty_registry, migrated = False, carried = between bare bare\<rparr>"
  have "migrate (\<lambda>_. Some empty_registry) (\<lambda>_. bare) bare = Ok ?doc"
    by (simp add: migrate_def ok_or_def as_u64_def parse_uint_def digits_value_def digit_value_def
        char_classes SHAPE_SINCE_def coherent_def empty_registry_def Let_def bare_def)
  from resolution_complete [OF this, where canon = "\<lambda>_. None" and repo = "''nowhere''"] show ?thesis
    by (simp add: resolve_anew_def empty_registry_def Let_def)
qed

lemma register_collision_witness:
  "''/a/tool'' \<notin> (\<lambda>(nm, c). checkout_path c) ` set (checkouts (register_change ''/b/tool'' ''/b'' NOOP_GATE
      (register_change ''/a/tool'' ''/a'' NOOP_GATE empty_registry)))"
  by (rule register_collision) (simp_all add: alias_for_def)

end
