(* ===== verification/Policy.thy ===== *)
theory Policy
  imports Complex_Main Store Wildcards
begin

text \<open>
  The rules file and the policy a repository resolves to (\<open>rules.rs\<close>, \<open>policy.rs\<close>): the
  document's shape, the checks a loaded file passes, first match wins with each key decided by
  the rule, the default or the shipped value, and the narrowing of a per-run policy. The YAML
  reader and the git-trailer check of a prefix are parameters; an \<open>f64\<close> is a rational or one of
  the values that are not numbers.
\<close>

section \<open>The rules file\<close>

datatype merge_policy = LocalDirect | ChangeOpen | ChangeAuto | ChangeDirect
datatype approvals = Required | NoApprovals
datatype base_merge = Always | OnConflict
datatype declared_visibility = DeclaredPublic | DeclaredPrivate

definition to_visibility :: "declared_visibility \<Rightarrow> visibility" where
  "to_visibility d = (case d of DeclaredPublic \<Rightarrow> Public | DeclaredPrivate \<Rightarrow> Private)"

datatype f64 = Finite rat | Infinite bool | NaN

type_synonym wait_seconds = rat

definition MAX_SECONDS :: rat where "MAX_SECONDS = 1000000000"
definition SHIPPED_WAIT :: wait_seconds where "SHIPPED_WAIT = 3600"

text \<open>\<open>WaitSeconds::try_from\<close>.\<close>

definition wait_seconds :: "f64 \<Rightarrow> wait_seconds option" where
  "wait_seconds x =
     (case x of Finite v \<Rightarrow> (if v > 0 \<and> v \<le> MAX_SECONDS then Some v else None)
      | Infinite _ \<Rightarrow> None | NaN \<Rightarrow> None)"

record drafts =
  disabled :: "bool option"
  warn_on_early_lift :: "bool option"

record checks =
  wait :: "wait_seconds option"

record rule_match =
  match_host :: "str option"
  match_owner :: "str option"
  match_name :: "str option"
  match_path :: "str option"

record rule =
  criteria :: rule_match
  rule_publication :: "merge_policy option"
  rule_approvals :: "approvals option"
  rule_drafts :: "drafts option"
  rule_visibility :: "declared_visibility option"
  rule_base_merge :: "base_merge option"
  rule_checks :: "checks option"

record policy =
  publication :: merge_policy
  approvals :: approvals
  policy_drafts :: "drafts option"
  policy_base_merge :: "base_merge option"
  policy_checks :: "checks option"

record rules_file =
  rules_version :: nat
  trailer_prefix :: "str option"
  rules :: "rule list"
  default_policy :: policy

definition RULES_VERSION :: nat where "RULES_VERSION = 4"
definition OLDEST_RULES_VERSION :: nat where "OLDEST_RULES_VERSION = 1"
definition TRAILER_PREFIX_VERSION :: nat where "TRAILER_PREFIX_VERSION = 2"
definition GATE_REMOVED_VERSION :: nat where "GATE_REMOVED_VERSION = 3"
definition DRAFTS_VERSION :: nat where "DRAFTS_VERSION = 3"
definition VISIBILITY_VERSION :: nat where "VISIBILITY_VERSION = 4"
definition DRAFTS_DISABLED_DEFAULT :: bool where "DRAFTS_DISABLED_DEFAULT = False"
definition WARN_ON_EARLY_LIFT_DEFAULT :: bool where "WARN_ON_EARLY_LIFT_DEFAULT = True"

text \<open>A refusal names the place in the file, the key, and what is wrong with it.\<close>

datatype rules_error =
    MalformedYaml
  | UnreadableFile str
  | VersionTooOld nat
  | RemovedGate str
  | NotAMapping str str
  | UnknownKey str str
  | BadValue str str
  | KeyBeforeItsVersion str
  | MergesUnreviewed str merge_policy
  | Widens merge_policy merge_policy

section \<open>Ranks and spellings\<close>

definition review_rank :: "merge_policy \<Rightarrow> nat" where
  "review_rank p =
     (case p of LocalDirect \<Rightarrow> 0 | ChangeDirect \<Rightarrow> 1 | ChangeAuto \<Rightarrow> 2 | ChangeOpen \<Rightarrow> 3)"

definition spell_policy :: "merge_policy \<Rightarrow> str" where
  "spell_policy p =
     (case p of LocalDirect \<Rightarrow> ''local-direct'' | ChangeOpen \<Rightarrow> ''change-open''
      | ChangeAuto \<Rightarrow> ''change-auto'' | ChangeDirect \<Rightarrow> ''change-direct'')"

definition spell_base_merge :: "base_merge \<Rightarrow> str" where
  "spell_base_merge b = (case b of Always \<Rightarrow> ''always'' | OnConflict \<Rightarrow> ''on-conflict'')"

text \<open>Policies are ordered by how much review they leave in the path.\<close>

instantiation merge_policy :: linorder
begin

definition less_eq_merge_policy :: "merge_policy \<Rightarrow> merge_policy \<Rightarrow> bool" where
  "less_eq_merge_policy a b \<longleftrightarrow> review_rank a \<le> review_rank b"

definition less_merge_policy :: "merge_policy \<Rightarrow> merge_policy \<Rightarrow> bool" where
  "less_merge_policy a b \<longleftrightarrow> review_rank a < review_rank b"

instance
proof
  fix a b c :: merge_policy
  show "a < b \<longleftrightarrow> a \<le> b \<and> \<not> b \<le> a"
    by (auto simp: less_eq_merge_policy_def less_merge_policy_def)
  show "a \<le> a" by (simp add: less_eq_merge_policy_def)
  show "a \<le> b \<Longrightarrow> b \<le> c \<Longrightarrow> a \<le> c" by (simp add: less_eq_merge_policy_def)
  show "a \<le> b \<Longrightarrow> b \<le> a \<Longrightarrow> a = b"
    by (cases a; cases b) (auto simp: less_eq_merge_policy_def review_rank_def)
  show "a \<le> b \<or> b \<le> a" by (auto simp: less_eq_merge_policy_def)
qed

end

definition narrow_publication :: "merge_policy \<Rightarrow> merge_policy \<Rightarrow> rules_error + merge_policy" where
  "narrow_publication resolved requested =
     (if review_rank requested < review_rank resolved then Err (Widens requested resolved)
      else Ok requested)"

definition narrow :: "policy \<Rightarrow> merge_policy \<Rightarrow> rules_error + merge_policy" where
  "narrow resolved requested = narrow_publication (publication resolved) requested"

section \<open>What each key resolves to\<close>

record 'a decided =
  decided_value :: 'a
  decided_from :: str

definition the_default :: str where "the_default = ''the default''"
definition the_shipped :: str where "the_shipped = ''the shipped default''"

definition derived_base_merge :: "merge_policy \<Rightarrow> base_merge" where
  "derived_base_merge p =
     (case p of LocalDirect \<Rightarrow> Always | ChangeOpen \<Rightarrow> OnConflict | ChangeAuto \<Rightarrow> OnConflict
      | ChangeDirect \<Rightarrow> OnConflict)"

definition resolve_base_merge ::
    "(str \<times> base_merge option) option \<Rightarrow> base_merge option \<Rightarrow> merge_policy \<Rightarrow> base_merge decided" where
  "resolve_base_merge rule dflt pub =
     (case rule of
        Some (named, Some v) \<Rightarrow> \<lparr>decided_value = v, decided_from = named\<rparr>
      | _ \<Rightarrow>
     (case dflt of
        Some v \<Rightarrow> \<lparr>decided_value = v, decided_from = the_default\<rparr>
      | None \<Rightarrow> \<lparr>decided_value = derived_base_merge pub,
                 decided_from = ''publication '' @ spell_policy pub\<rparr>))"

definition resolve_checks_wait ::
    "(str \<times> checks) option \<Rightarrow> checks option \<Rightarrow> wait_seconds decided" where
  "resolve_checks_wait rule dflt =
     (case map_option (\<lambda>(named, c). (named, wait c)) rule of
        Some (named, Some w) \<Rightarrow> \<lparr>decided_value = w, decided_from = named\<rparr>
      | _ \<Rightarrow>
     (case Option.bind dflt wait of
        Some w \<Rightarrow> \<lparr>decided_value = w, decided_from = the_default\<rparr>
      | None \<Rightarrow> \<lparr>decided_value = SHIPPED_WAIT, decided_from = the_shipped\<rparr>))"

text \<open>\<open>Decided::effective\<close>: the process-wide override, already read and checked.\<close>

definition CHECKS_TIMEOUT_ENV :: str where
  "CHECKS_TIMEOUT_ENV = ''ONEVCS_CHECKS_TIMEOUT_SECONDS''"

definition effective_wait ::
    "'e + wait_seconds option \<Rightarrow> wait_seconds decided \<Rightarrow> 'e + wait_seconds decided" where
  "effective_wait override d =
     and_then override (\<lambda>chosen.
       case chosen of
         Some s \<Rightarrow> Ok \<lparr>decided_value = s, decided_from = CHECKS_TIMEOUT_ENV\<rparr>
       | None \<Rightarrow> Ok d)"

record draft_lifecycle =
  lifecycle_disabled :: bool
  disabled_from :: str
  lifecycle_warns :: bool
  warns_from :: str

definition pick_draft_key ::
    "(str \<times> drafts) option \<Rightarrow> drafts option \<Rightarrow> (drafts \<Rightarrow> bool option) \<Rightarrow> bool \<Rightarrow> bool \<times> str" where
  "pick_draft_key rule dflt k shipped =
     (case Option.bind rule (\<lambda>(named, d). map_option (\<lambda>v. (v, named)) (k d)) of
        Some decided \<Rightarrow> decided
      | None \<Rightarrow>
     (case Option.bind dflt k of
        Some v \<Rightarrow> (v, the_default)
      | None \<Rightarrow> (shipped, the_shipped)))"

definition resolve_drafts :: "(str \<times> drafts) option \<Rightarrow> drafts option \<Rightarrow> draft_lifecycle" where
  "resolve_drafts rule dflt =
     (let (dis, dis_from) = pick_draft_key rule dflt disabled DRAFTS_DISABLED_DEFAULT;
          (warns, w_from) = pick_draft_key rule dflt warn_on_early_lift WARN_ON_EARLY_LIFT_DEFAULT
      in \<lparr>lifecycle_disabled = dis, disabled_from = dis_from, lifecycle_warns = warns,
          warns_from = w_from\<rparr>)"

datatype green_draft = Lift | KeepForReview | NotApplicable

definition green_draft :: "merge_policy \<Rightarrow> approvals \<Rightarrow> green_draft" where
  "green_draft pub app =
     (case (pub, app) of
        (LocalDirect, _) \<Rightarrow> NotApplicable
      | (ChangeOpen, Required) \<Rightarrow> KeepForReview
      | _ \<Rightarrow> Lift)"

definition spell_green_draft :: "green_draft \<Rightarrow> str" where
  "spell_green_draft g =
     (case g of Lift \<Rightarrow> ''lift'' | KeepForReview \<Rightarrow> ''keep for review''
      | NotApplicable \<Rightarrow> ''not applicable'')"

datatype rules_source = RulesFileAt str | BuiltIn

definition source_file :: "'e + str \<Rightarrow> rules_source \<Rightarrow> 'e + str" where
  "source_file default_path s = (case s of RulesFileAt path \<Rightarrow> Ok path | BuiltIn \<Rightarrow> default_path)"

definition source_text :: "rules_source \<Rightarrow> str" where
  "source_text s = (case s of RulesFileAt path \<Rightarrow> path | BuiltIn \<Rightarrow> ''the built-in default policy'')"

definition built_in_default :: policy where
  "built_in_default = \<lparr>publication = ChangeOpen, approvals = Required, policy_drafts = None,
     policy_base_merge = None, policy_checks = None\<rparr>"

section \<open>The checks a file passes\<close>

definition spent_gates :: "json \<Rightarrow> nat" where
  "spent_gates document =
     (let carries = (\<lambda>policy. case Option.bind policy (get ''gate'') of None \<Rightarrow> 0 | Some _ \<Rightarrow> (1::nat));
          in_rules = (case get ''rules'' document of
                        Some (Array rs) \<Rightarrow> sum_list (map (\<lambda>r. carries (Some r)) rs)
                      | _ \<Rightarrow> 0)
      in carries (get ''default'' document) + in_rules)"

definition rule_name :: "nat \<Rightarrow> str" where
  "rule_name index = ''rule '' @ show_nat (index + 1)"

definition refuse_removed_gate :: "json \<Rightarrow> rules_error + unit" where
  "refuse_removed_gate document =
     (let named = (\<lambda>v place. case v of
                     Some (Object es) \<Rightarrow> (if map_of es ''gate'' \<noteq> None then Some place else None)
                   | _ \<Rightarrow> None);
          found = (case named (get ''default'' document) ''default'' of
                     Some w \<Rightarrow> Some w
                   | None \<Rightarrow> (case get ''rules'' document of
                        Some (Array rs) \<Rightarrow>
                          find_map (\<lambda>(index, r). named (Some r) (rule_name index)) (enumerate 0 rs)
                      | _ \<Rightarrow> None))
      in case found of None \<Rightarrow> Ok () | Some w \<Rightarrow> Err (RemovedGate w))"

definition policy_keys :: "json \<Rightarrow> str \<Rightarrow> (str \<times> json) list" where
  "policy_keys document k =
     (let held = (\<lambda>policy. case get k policy of Some v \<Rightarrow> (if v = Null then None else Some v) | None \<Rightarrow> None)
      in (case Option.bind (get ''default'' document) held of
            Some v \<Rightarrow> [(''default'', v)] | None \<Rightarrow> []) @
         (case get ''rules'' document of
            Some (Array rs) \<Rightarrow>
              filter_map (\<lambda>(index, r). map_option (\<lambda>v. (rule_name index, v)) (held r)) (enumerate 0 rs)
          | _ \<Rightarrow> []))"

text \<open>
  What the YAML reader answers: a document, the rules shape, and whether one value reads as the
  type of a key. A mapping type has the keys it has whatever the reader.
\<close>

record yaml_reader =
  yaml_document :: "str \<Rightarrow> json option"
  yaml_rules :: "str \<Rightarrow> rules_file option"
  reads_flag :: "json \<Rightarrow> bool"
  reads_wait :: "json \<Rightarrow> bool"
  reads_base_merge :: "json \<Rightarrow> bool"
  reads_version :: "json \<Rightarrow> nat option"

definition draft_key_names :: "str list" where
  "draft_key_names = [''disabled'', ''warn_on_early_lift'']"

definition check_key_names :: "str list" where
  "check_key_names = [''wait_seconds'']"

definition refuse_malformed ::
    "str list \<Rightarrow> (json \<Rightarrow> bool) \<Rightarrow> str \<Rightarrow> json \<Rightarrow> rules_error + unit" where
  "refuse_malformed known reads section document =
     and_then (collect_res (\<lambda>(place, v).
       case v of
         Object es \<Rightarrow>
           collect_res (\<lambda>(k, x).
             if k \<notin> set known then Err (UnknownKey place k)
             else if \<not> reads x then Err (BadValue place k)
             else Ok ()) es
       | _ \<Rightarrow> Err (NotAMapping place section)) (policy_keys document section)) (\<lambda>_. Ok ())"

definition refuse_malformed_drafts :: "yaml_reader \<Rightarrow> json \<Rightarrow> rules_error + unit" where
  "refuse_malformed_drafts y = refuse_malformed draft_key_names (reads_flag y) ''drafts''"

definition refuse_malformed_checks :: "yaml_reader \<Rightarrow> json \<Rightarrow> rules_error + unit" where
  "refuse_malformed_checks y = refuse_malformed check_key_names (reads_wait y) ''checks''"

definition refuse_malformed_base_merge :: "yaml_reader \<Rightarrow> json \<Rightarrow> rules_error + unit" where
  "refuse_malformed_base_merge y document =
     and_then (collect_res (\<lambda>(place, v).
       if reads_base_merge y v then Ok () else Err (BadValue place ''base_merge''))
       (policy_keys document ''base_merge'')) (\<lambda>_. Ok ())"

text \<open>\<open>read\<close> also says how many spent gates it warned about, \<open>0\<close> printing nothing.\<close>

definition read_rules :: "yaml_reader \<Rightarrow> str \<Rightarrow> rules_error + (rules_file \<times> nat)" where
  "read_rules y raw =
     and_then (ok_or (yaml_document y raw) MalformedYaml) (\<lambda>document.
     and_then
       (case Option.bind (get ''version'' document) (reads_version y) of
          None \<Rightarrow> Ok 0
        | Some declared \<Rightarrow>
            (if declared < OLDEST_RULES_VERSION then Err (VersionTooOld declared)
             else if declared < GATE_REMOVED_VERSION then Ok (spent_gates document)
             else and_then (refuse_removed_gate document) (\<lambda>_. Ok 0))) (\<lambda>warned.
     and_then (refuse_malformed_drafts y document) (\<lambda>_.
     and_then (refuse_malformed_base_merge y document) (\<lambda>_.
     and_then (refuse_malformed_checks y document) (\<lambda>_.
     and_then (ok_or (yaml_rules y raw) MalformedYaml) (\<lambda>file. Ok (file, warned)))))))"

definition checked_pairs :: "rules_file \<Rightarrow> (str \<times> merge_policy \<times> approvals) list" where
  "checked_pairs file =
     (''default'', publication (default_policy file), approvals (default_policy file)) #
     map (\<lambda>(index, r). (rule_name index,
            case rule_publication r of Some p \<Rightarrow> p | None \<Rightarrow> publication (default_policy file),
            case rule_approvals r of Some a \<Rightarrow> a | None \<Rightarrow> approvals (default_policy file)))
       (enumerate 0 (rules file))"

definition validate :: "rules_file \<Rightarrow> rules_error + unit" where
  "validate file =
     (if rules_version file < TRAILER_PREFIX_VERSION \<and> trailer_prefix file \<noteq> None
      then Err (KeyBeforeItsVersion ''trailer_prefix'')
      else if rules_version file < DRAFTS_VERSION \<and>
              (policy_drafts (default_policy file) \<noteq> None \<or>
               position (\<lambda>r. rule_drafts r \<noteq> None) (rules file) \<noteq> None)
      then Err (KeyBeforeItsVersion ''drafts'')
      else if rules_version file < VISIBILITY_VERSION \<and>
              position (\<lambda>r. rule_visibility r \<noteq> None) (rules file) \<noteq> None
      then Err (KeyBeforeItsVersion ''visibility'')
      else (case List.find (\<lambda>(place, pub, app). app = Required \<and> review_rank pub < review_rank ChangeAuto)
                   (checked_pairs file) of
              Some (place, pub, app) \<Rightarrow> Err (MergesUnreviewed place pub)
            | None \<Rightarrow> Ok ()))"

definition parse :: "yaml_reader \<Rightarrow> str \<Rightarrow> rules_error + (rules_file \<times> nat)" where
  "parse y raw =
     and_then (read_rules y raw) (\<lambda>(file, warned).
     and_then (validate file) (\<lambda>_. Ok (file, warned)))"

text \<open>
  \<open>load\<close>: the registry's own reference, or the file at the conventional place, or the
  built-in default. The file system answers whether a path is a file and what it holds.
\<close>

definition load_rules ::
    "yaml_reader \<Rightarrow> (str \<Rightarrow> bool) \<Rightarrow> (str \<Rightarrow> str option) \<Rightarrow> str \<Rightarrow> str option \<Rightarrow>
     rules_error + (rules_file \<times> rules_source)" where
  "load_rules y is_file contents default_path reference =
     (let path = (case reference of Some p \<Rightarrow> p | None \<Rightarrow> default_path)
      in if reference = None \<and> \<not> is_file path
         then Ok (\<lparr>rules_version = RULES_VERSION, trailer_prefix = None, rules = [],
                   default_policy = built_in_default\<rparr>, BuiltIn)
         else and_then (ok_or (contents path) (UnreadableFile path)) (\<lambda>raw.
              and_then (parse y raw) (\<lambda>(file, _). Ok (file, RulesFileAt path))))"

section \<open>First match wins\<close>

definition expand_tilde :: "str option \<Rightarrow> str \<Rightarrow> str" where
  "expand_tilde home p =
     (case (strip_prefix ''~/'' p, home) of
        (Some rest, Some h) \<Rightarrow> path_join h rest
      | _ \<Rightarrow> p)"

definition matches :: "str option \<Rightarrow> rule_match \<Rightarrow> normalized \<Rightarrow> str \<Rightarrow> bool" where
  "matches home c identity checkout \<longleftrightarrow>
     (let part_is = (\<lambda>part wanted. case hosted_at identity of None \<Rightarrow> False | Some h \<Rightarrow> glob wanted (part h));
          unless = (\<lambda>field test. case field of None \<Rightarrow> True | Some wanted \<Rightarrow> test wanted)
      in unless (match_host c) (part_is host) \<and> unless (match_owner c) (part_is owner) \<and>
         unless (match_name c) (part_is name) \<and>
         unless (match_path c) (\<lambda>wanted. glob (expand_tilde home wanted) checkout))"

definition field_source :: "str \<Rightarrow> bool \<Rightarrow> str" where
  "field_source named from_rule = (if from_rule then named else the_default)"

record matched =
  matched_index :: nat
  matched_criteria :: rule_match

record resolved =
  resolved_policy :: policy
  resolved_source :: str
  resolved_matched :: "matched option"
  publication_from :: str
  approvals_from :: str
  resolved_drafts :: draft_lifecycle
  resolved_visibility :: "declared_visibility option"
  resolved_base_merge :: "base_merge decided"
  resolved_wait :: "wait_seconds decided"

definition or_else :: "'a option \<Rightarrow> 'a option \<Rightarrow> 'a option" where
  "or_else a b = (case a of Some _ \<Rightarrow> a | None \<Rightarrow> b)"

definition unwrap_or :: "'a option \<Rightarrow> 'a \<Rightarrow> 'a" where
  "unwrap_or a d = (case a of Some v \<Rightarrow> v | None \<Rightarrow> d)"

definition resolved_by_rule :: "rules_file \<Rightarrow> rules_source \<Rightarrow> nat \<Rightarrow> rule \<Rightarrow> resolved" where
  "resolved_by_rule file src index r =
     (let named = rule_name index; d = default_policy file;
          pub = unwrap_or (rule_publication r) (publication d)
      in \<lparr>resolved_policy = \<lparr>publication = pub,
            approvals = unwrap_or (rule_approvals r) (approvals d),
            policy_drafts = or_else (rule_drafts r) (policy_drafts d),
            policy_base_merge = or_else (rule_base_merge r) (policy_base_merge d),
            policy_checks = or_else (rule_checks r) (policy_checks d)\<rparr>,
          resolved_source = source_text src,
          resolved_matched = Some \<lparr>matched_index = index + 1, matched_criteria = criteria r\<rparr>,
          publication_from = field_source named (rule_publication r \<noteq> None),
          approvals_from = field_source named (rule_approvals r \<noteq> None),
          resolved_drafts = resolve_drafts (map_option (\<lambda>x. (named, x)) (rule_drafts r)) (policy_drafts d),
          resolved_visibility = rule_visibility r,
          resolved_base_merge =
            resolve_base_merge (Some (named, rule_base_merge r)) (policy_base_merge d) pub,
          resolved_wait =
            resolve_checks_wait (map_option (\<lambda>x. (named, x)) (rule_checks r)) (policy_checks d)\<rparr>)"

definition resolved_by_default :: "rules_file \<Rightarrow> rules_source \<Rightarrow> resolved" where
  "resolved_by_default file src =
     (let d = default_policy file
      in \<lparr>resolved_policy = d, resolved_source = source_text src, resolved_matched = None,
          publication_from = the_default, approvals_from = the_default,
          resolved_drafts = resolve_drafts None (policy_drafts d), resolved_visibility = None,
          resolved_base_merge = resolve_base_merge None (policy_base_merge d) (publication d),
          resolved_wait = resolve_checks_wait None (policy_checks d)\<rparr>)"

fun resolve_rules ::
    "str option \<Rightarrow> rules_file \<Rightarrow> rules_source \<Rightarrow> normalized \<Rightarrow> str \<Rightarrow> nat \<Rightarrow> rule list \<Rightarrow> resolved" where
  "resolve_rules home file src identity checkout index [] = resolved_by_default file src"
| "resolve_rules home file src identity checkout index (r # rs) =
     (if \<not> matches home (criteria r) identity checkout
      then resolve_rules home file src identity checkout (index + 1) rs
      else resolved_by_rule file src index r)"

definition resolve ::
    "str option \<Rightarrow> rules_file \<Rightarrow> rules_source \<Rightarrow> normalized \<Rightarrow> str \<Rightarrow> resolved" where
  "resolve home file src identity checkout =
     resolve_rules home file src identity checkout 0 (rules file)"

text \<open>A branch name as a directory name; \<open>short_digest\<close> is \<open>ids::short_digest\<close>.\<close>

definition branch_slug :: "(str \<Rightarrow> str) \<Rightarrow> str \<Rightarrow> str" where
  "branch_slug short_digest branch =
     (let flattened = map (\<lambda>c. if c = CHR ''/'' then CHR ''-'' else c) branch
      in if list_all (\<lambda>c. is_alnum c \<or> c \<in> {CHR ''-'', CHR ''.'', CHR ''_''}) flattened
         then flattened else short_digest branch)"

section \<open>Narrowing\<close>

lemma narrow_publication_Ok: "narrow_publication r q = Ok p \<longleftrightarrow> p = q \<and> r \<le> q"
  by (auto simp: narrow_publication_def less_eq_merge_policy_def)

section \<open>Validation\<close>

definition honest :: "merge_policy \<Rightarrow> approvals \<Rightarrow> bool" where
  "honest pub app \<longleftrightarrow> (app = Required \<longrightarrow> ChangeAuto \<le> pub)"

lemma validate_Ok:
  assumes "validate file = Ok ()"
  shows "honest (publication (default_policy file)) (approvals (default_policy file))"
    and "r \<in> set (rules file) \<Longrightarrow>
      honest (unwrap_or (rule_publication r) (publication (default_policy file)))
             (unwrap_or (rule_approvals r) (approvals (default_policy file)))"
proof -
  from assms have all: "\<forall>(place, pub, app) \<in> set (checked_pairs file). honest pub app"
    unfolding validate_def
    by (auto simp: find_None honest_def less_eq_merge_policy_def split: if_splits option.splits)
  then show "honest (publication (default_policy file)) (approvals (default_policy file))"
    by (simp add: checked_pairs_def)
  assume "r \<in> set (rules file)"
  then obtain i where "(i, r) \<in> set (enumerate 0 (rules file))"
    using set_enumerate by metis
  with all show "honest (unwrap_or (rule_publication r) (publication (default_policy file)))
             (unwrap_or (rule_approvals r) (approvals (default_policy file)))"
    unfolding checked_pairs_def unwrap_or_def by fastforce
qed

lemma parse_Ok: "parse y raw = Ok (file, w) \<Longrightarrow> validate file = Ok ()"
  by (auto simp: parse_def ok_cases)

section \<open>First match\<close>

lemma resolve_rules_position:
  "resolve_rules home file src i c n rs =
     (case position (\<lambda>r. matches home (criteria r) i c) rs of
        None \<Rightarrow> resolved_by_default file src
      | Some k \<Rightarrow> resolved_by_rule file src (n + k) (rs ! k))"
  by (induction rs arbitrary: n) (auto split: option.splits)

lemma resolve_position:
  "resolve home file src i c =
     (case position (\<lambda>r. matches home (criteria r) i c) (rules file) of
        None \<Rightarrow> resolved_by_default file src
      | Some k \<Rightarrow> resolved_by_rule file src k (rules file ! k))"
  by (simp add: resolve_def resolve_rules_position split: option.split)

lemma resolve_honest:
  assumes "validate file = Ok ()"
  shows "honest (publication (resolved_policy (resolve home file src i c)))
                (approvals (resolved_policy (resolve home file src i c)))"
proof (cases "position (\<lambda>r. matches home (criteria r) i c) (rules file)")
  case None
  then show ?thesis using validate_Ok(1) [OF assms]
    by (simp add: resolve_position resolved_by_default_def Let_def)
next
  case (Some k)
  then have "rules file ! k \<in> set (rules file)" by (simp add: position_Some)
  with Some show ?thesis using validate_Ok(2) [OF assms]
    by (simp add: resolve_position resolved_by_rule_def Let_def)
qed

section \<open>Spent gates\<close>

lemma sum_list_zero: "sum_list xs = 0 \<longleftrightarrow> (\<forall>x \<in> set xs. x = 0)" for xs :: "nat list"
  by (induction xs) auto

lemma gate_at:
  "(case v of Some (Object es) \<Rightarrow> (if map_of es ''gate'' \<noteq> None then Some w else None) | _ \<Rightarrow> None) = None
   \<longleftrightarrow> Option.bind v (get ''gate'') = None"
  by (cases v; cases "the v") (auto simp: get_def)

lemma refuse_removed_gate_spent: "refuse_removed_gate document = Ok () \<longleftrightarrow> spent_gates document = 0"
proof -
  let ?g = "\<lambda>v. Option.bind v (get ''gate'')"
  let ?rs = "case get ''rules'' document of Some (Array rs) \<Rightarrow> rs | _ \<Rightarrow> []"
  have named: "(case v of Some (Object es) \<Rightarrow> (if map_of es ''gate'' \<noteq> None then Some w else None) | _ \<Rightarrow> None)
      = (case ?g v of None \<Rightarrow> None | Some _ \<Rightarrow> Some w)" for v and w :: str
    by (cases v; cases "the v") (auto simp: get_def split: option.splits)
  have "refuse_removed_gate document = Ok () \<longleftrightarrow>
      ?g (get ''default'' document) = None \<and> (\<forall>r \<in> set ?rs. ?g (Some r) = None)"
  proof -
    have "find_map (\<lambda>(index, r). case ?g (Some r) of None \<Rightarrow> None | Some _ \<Rightarrow> Some (rule_name index))
        (enumerate 0 rs) = None \<longleftrightarrow> (\<forall>r \<in> set rs. ?g (Some r) = None)" for rs
      using ball_enumerate [of 0 rs "\<lambda>r. ?g (Some r) = None"]
      by (simp add: find_map_None case_prod_beta split: option.splits)
    moreover have "(case x of None \<Rightarrow> Ok () | Some w \<Rightarrow> Err (RemovedGate w)) = Ok () \<longleftrightarrow> x = None" for x
      by (cases x) auto
    moreover have "(case x of Some w \<Rightarrow> Some w | None \<Rightarrow> y) = None \<longleftrightarrow> x = None \<and> y = None"
      for x y :: "str option" by (cases x) auto
    moreover have "(case x of None \<Rightarrow> None | Some _ \<Rightarrow> Some w) = None \<longleftrightarrow> x = None"
      for x :: "json option" and w :: str by (cases x) auto
    ultimately show ?thesis unfolding refuse_removed_gate_def Let_def named
      by (simp split: option.split json.split) blast
  qed
  also have "\<dots> \<longleftrightarrow> spent_gates document = 0"
    unfolding spent_gates_def Let_def
    by (auto simp: sum_list_zero split: option.splits json.splits)
  finally show ?thesis .
qed

section \<open>Which layer decided\<close>

lemma rule_name_not_layer [simp]:
  "rule_name i \<noteq> the_default" "rule_name i \<noteq> the_shipped"
  by (simp_all add: rule_name_def the_default_def the_shipped_def)

lemma wait_layers:
  assumes "resolve home file src i c = r"
    and "position (\<lambda>r. matches home (criteria r) i c) (rules file) = k"
  shows "decided_value (resolved_wait r) =
    unwrap_or (or_else (Option.bind k (\<lambda>k. Option.bind (rule_checks (rules file ! k)) wait))
                       (Option.bind (policy_checks (default_policy file)) wait)) SHIPPED_WAIT"
  using assms
  by (auto simp: resolve_position resolved_by_rule_def resolved_by_default_def Let_def
      resolve_checks_wait_def unwrap_or_def or_else_def split: option.splits)

section \<open>Properties\<close>

text \<open>C2 A rules file this build accepted never lets a publication merge without the approvals its
  policy requires, whatever the caller asked to narrow it to.\<close>

theorem no_unreviewed_merge:
  assumes "parse y raw = Ok (file, warned)"
    and "approvals (resolved_policy (resolve home file src identity checkout)) = Required"
    and "narrow (resolved_policy (resolve home file src identity checkout)) requested = Ok p"
  shows "p = requested \<and> p \<in> {ChangeAuto, ChangeOpen}"
proof -
  have "ChangeAuto \<le> publication (resolved_policy (resolve home file src identity checkout))"
    using resolve_honest [OF parse_Ok [OF assms(1)]] assms(2) unfolding honest_def by blast
  with assms(3) have "p = requested" "ChangeAuto \<le> p"
    by (auto simp: narrow_def narrow_publication_Ok)
  then show ?thesis by (cases p) (auto simp: less_eq_merge_policy_def review_rank_def)
qed

definition sample_rules :: rules_file where
  "sample_rules = \<lparr>rules_version = 4, trailer_prefix = None,
     rules = [\<lparr>criteria = \<lparr>match_host = None, match_owner = Some ''acme*'', match_name = None,
                           match_path = None\<rparr>,
               rule_publication = Some ChangeAuto, rule_approvals = None, rule_drafts = None,
               rule_visibility = None, rule_base_merge = None, rule_checks = None\<rparr>],
     default_policy = built_in_default\<rparr>"

definition sample_reader :: yaml_reader where
  "sample_reader = \<lparr>yaml_document = \<lambda>_. Some (Object [(''version'', Number ''4'')]),
     yaml_rules = \<lambda>_. Some sample_rules, reads_flag = \<lambda>v. as_bool v \<noteq> None,
     reads_wait = \<lambda>_. False, reads_base_merge = \<lambda>_. False, reads_version = as_u64\<rparr>"

definition sample_identity :: normalized where
  "sample_identity = \<lparr>key = ''github.com/acme-corp/tool'',
     hosted_at = Some \<lparr>host = ''github.com'', owner = ''acme-corp'', name = ''tool''\<rparr>\<rparr>"

lemma sample_matches: "matches None (criteria (hd (rules sample_rules))) sample_identity ''/w''"
  by (simp add: matches_def sample_rules_def sample_identity_def Let_def glob_def strip_prefix_def
      starts_with_def ends_with_def)

lemma no_unreviewed_merge_witness:
  "narrow (resolved_policy (resolve None sample_rules BuiltIn sample_identity ''/w'')) ChangeOpen = Ok ChangeOpen \<and>
   ChangeOpen \<in> {ChangeAuto, ChangeOpen}"
proof -
  have v: "as_u64 (Number ''4'') = Some 4"
    by (simp add: as_u64_def parse_uint_def digits_value_def digit_value_def char_classes)
  have "validate sample_rules = Ok ()"
    by (simp add: validate_def sample_rules_def checked_pairs_def built_in_default_def review_rank_def)
  then have 1: "parse sample_reader [] = Ok (sample_rules, 0)"
    by (simp add: parse_def read_rules_def sample_reader_def ok_or_def v OLDEST_RULES_VERSION_def
        GATE_REMOVED_VERSION_def refuse_removed_gate_def refuse_malformed_drafts_def
        refuse_malformed_checks_def refuse_malformed_base_merge_def refuse_malformed_def policy_keys_def
        Let_def)
  have r: "resolved_policy (resolve None sample_rules BuiltIn sample_identity ''/w'') =
      built_in_default\<lparr>publication := ChangeAuto\<rparr>"
    using sample_matches
    by (simp add: resolve_def sample_rules_def resolved_by_rule_def Let_def unwrap_or_def or_else_def
        built_in_default_def)
  have 2: "approvals (resolved_policy (resolve None sample_rules BuiltIn sample_identity ''/w'')) = Required"
    by (simp add: r built_in_default_def)
  have 3: "narrow (resolved_policy (resolve None sample_rules BuiltIn sample_identity ''/w'')) ChangeOpen = Ok ChangeOpen"
    by (simp add: r narrow_def narrow_publication_def review_rank_def built_in_default_def)
  from no_unreviewed_merge [OF 1 2 3] 3 show ?thesis by blast
qed

text \<open>Resolution takes the first rule that matches the identity and the checkout, and the default
  policy where none does.\<close>

theorem first_match_wins:
  "resolve home file src identity checkout =
     (case position (\<lambda>r. matches home (criteria r) identity checkout) (rules file) of
        None \<Rightarrow> resolved_by_default file src
      | Some k \<Rightarrow> resolved_by_rule file src k (rules file ! k))"
  by (rule resolve_position)

text \<open>A rules file that still declares the removed gate is refused exactly when some policy of it
  does, the default or any rule's.\<close>

theorem removed_gate_iff_spent:
  "refuse_removed_gate document = Ok () \<longleftrightarrow> spent_gates document = 0"
  by (rule refuse_removed_gate_spent)

theorem narrowing_never_widens:
  "narrow_publication r q = Ok p \<longleftrightarrow> p = q \<and> r \<le> p"
  by (auto simp: narrow_publication_Ok)

text \<open>C38 Both glob dialects mean the one wildcard specification: the rules' byte glob, which searches
  for its literal pieces, and the release heads' backtracking loop, in which a question mark is
  any one character.\<close>

theorem rules_and_heads_mean_wild:
  "glob pat v = wild (\<lambda>c. c = CHR ''*'') (=) pat v \<and>
   head_matches g n = wild (\<lambda>c. c = ASTERISK) head_accepts g n"
  by (simp add: glob_wild head_matches_wild)

theorem rule_names_identity:
  assumes "hosted_at identity = Some h"
    and "CHR ''*'' \<notin> set (host h)" "CHR ''*'' \<notin> set (owner h)" "CHR ''*'' \<notin> set (name h)"
  shows "matches home \<lparr>match_host = Some (host h), match_owner = Some (owner h),
            match_name = n, match_path = None\<rparr> identity checkout \<longleftrightarrow>
         (case n of None \<Rightarrow> True | Some pat \<Rightarrow> glob pat (name h))"
    and "matches home \<lparr>match_host = Some (host h), match_owner = Some (owner h),
            match_name = Some ''*'', match_path = None\<rparr> identity checkout"
  using assms rules_glob.name_matches_itself rules_glob.star_matches_all
  by (auto simp: matches_def Let_def split: option.splits)

end
