(* ===== verification/Graph.thy ===== *)
theory Graph
  imports Ids "HOL-Library.Word" "HOL-Library.While_Combinator"
begin

text \<open>
  The walks of the commit graph answered in process (\<open>native_objects.rs\<close>, module
  \<open>graph\<close>): git's paint down to the common ancestors with its early exit, what merge bases
  and ancestry are read off it, and the listings a count and a range are made of.
  The walks ask for commits through a reader that threads its own memory (what has been read,
  and how many more objects may be); \<open>view_commit\<close> is the reader of the source. A loop is a
  \<open>while_option\<close>, whose \<open>None\<close> is a loop that never ends: the walks are shown to end.
\<close>

unbundle bit_operations_syntax

type_synonym oid = str

record parsed =
  parents :: "oid list"
  tree :: oid
  committed :: int

type_synonym 's reader = "oid \<Rightarrow> 's \<Rightarrow> parsed option \<times> 's"

section \<open>Reading a commit\<close>

text \<open>
  A store lists what it holds: a commit it can parse, or an object it cannot read as one. A
  view is the stores a repository borrows, in order, and the repository itself.
\<close>

type_synonym object_store = "(oid \<times> parsed option) list"

record view =
  shared :: "object_store list"
  repository :: object_store

record memory =
  shared_memory :: "(oid \<rightharpoonup> parsed) list"
  own_memory :: "oid \<rightharpoonup> parsed"
  unspent :: nat

definition OBJECT_LIMIT :: nat where "OBJECT_LIMIT = 512"

definition spend :: "memory \<Rightarrow> memory option" where
  "spend m = (if unspent m > 0 then Some (m\<lparr>unspent := unspent m - 1\<rparr>) else None)"

definition remembered :: "memory \<Rightarrow> oid \<Rightarrow> parsed option" where
  "remembered m i = find_map (\<lambda>source. source i) (shared_memory m @ [own_memory m])"

definition view_commit :: "view \<Rightarrow> memory reader" where
  "view_commit v i m =
     (case remembered m i of
        Some p \<Rightarrow> (Some p, m)
      | None \<Rightarrow>
     (case spend m of
        None \<Rightarrow> (None, m)
      | Some m \<Rightarrow>
     (case position (\<lambda>store. map_of store i \<noteq> None) (shared v) of
        Some k \<Rightarrow>
          (case the (map_of (shared v ! k) i) of
             None \<Rightarrow> (None, m)
           | Some p \<Rightarrow> (Some p, m\<lparr>shared_memory := (shared_memory m)[k := (shared_memory m ! k)(i \<mapsto> p)]\<rparr>))
      | None \<Rightarrow>
          (case map_of (repository v) i of
             Some (Some p) \<Rightarrow> (Some p, m\<lparr>own_memory := (own_memory m)(i \<mapsto> p)\<rparr>)
           | _ \<Rightarrow> (None, m)))))"

section \<open>The paint\<close>

definition PARENT1 :: "8 word" where "PARENT1 = 1"
definition PARENT2 :: "8 word" where "PARENT2 = 2"
definition STALE :: "8 word" where "STALE = 4"
definition RESULT :: "8 word" where "RESULT = 8"

text \<open>An entry of the queue: its committer time, when it was pushed, and the commit.\<close>

type_synonym entry = "int \<times> nat \<times> oid"

record walk =
  flags :: "oid \<rightharpoonup> 8 word"
  queue :: "entry list"
  enqueued :: "oid set"
  oldest_nonstale :: "(int \<times> oid) option"
  pushed :: nat
  results :: "oid list"

definition flag :: "walk \<Rightarrow> oid \<Rightarrow> 8 word" where
  "flag w i = (case flags w i of None \<Rightarrow> 0 | Some f \<Rightarrow> f)"

definition push :: "oid \<Rightarrow> int \<Rightarrow> bool \<Rightarrow> walk \<Rightarrow> walk" where
  "push i time stale w =
     (if i \<in> enqueued w then w
      else (let w' = w\<lparr>enqueued := insert i (enqueued w), queue := (time, pushed w, i) # queue w,
                       pushed := pushed w + 1\<rparr>
            in if \<not> stale \<and> (case oldest_nonstale w of None \<Rightarrow> True | Some (oldest, _) \<Rightarrow> time \<le> oldest)
               then w'\<lparr>oldest_nonstale := Some (time, i)\<rparr> else w'))"

text \<open>The greatest entry: the latest time, and among equal times the first one pushed.\<close>

fun before :: "entry \<Rightarrow> entry \<Rightarrow> bool" where
  "before (t, n, i) (t', n', i') \<longleftrightarrow> t > t' \<or> (t = t' \<and> n \<le> n')"

fun greatest :: "entry \<Rightarrow> entry list \<Rightarrow> entry" where
  "greatest e [] = e"
| "greatest e (e' # es) = (if before e e' then greatest e es else greatest e' es)"

definition pop :: "entry list \<Rightarrow> (entry \<times> entry list) option" where
  "pop q = (case q of [] \<Rightarrow> None | e # es \<Rightarrow> (let top = greatest e es in Some (top, remove1 top q)))"

fun mark_parents :: "'s reader \<Rightarrow> 8 word \<Rightarrow> oid list \<Rightarrow> walk \<Rightarrow> 's \<Rightarrow> walk option \<times> 's" where
  "mark_parents read marks [] w s = (Some w, s)"
| "mark_parents read marks (parent # ps) w s =
     (let carried = flag w parent
      in if carried AND marks = marks then mark_parents read marks ps w s
         else (case read parent s of
                 (None, s) \<Rightarrow> (None, s)
               | (Some p, s) \<Rightarrow>
                   mark_parents read marks ps
                     (push parent (committed p) (marks AND STALE \<noteq> 0)
                       (w\<lparr>flags := (flags w)(parent \<mapsto> carried OR marks)\<rparr>)) s))"

definition paint_pop :: "entry \<Rightarrow> entry list \<Rightarrow> walk \<Rightarrow> walk \<times> 8 word" where
  "paint_pop e rest w =
     (let i = snd (snd e);
          w = w\<lparr>queue := rest,
                oldest_nonstale := (case oldest_nonstale w of
                   Some (t, oldest) \<Rightarrow> if oldest = i then None else Some (t, oldest) | None \<Rightarrow> None),
                enqueued := enqueued w - {i}\<rparr>;
          held = flag w i;
          marks = held AND (PARENT1 OR PARENT2 OR STALE)
      in if marks = PARENT1 OR PARENT2
         then ((if held AND RESULT = 0
                then w\<lparr>flags := (flags w)(i \<mapsto> held OR RESULT), results := results w @ [i]\<rparr>
                else w), marks OR STALE)
         else (w, marks))"

definition paint_step :: "'s reader \<Rightarrow> walk \<Rightarrow> 's \<Rightarrow> walk option \<times> 's" where
  "paint_step read w s =
     (case pop (queue w) of
        None \<Rightarrow> (Some w, s)
      | Some (e, rest) \<Rightarrow>
          (let (w, marks) = paint_pop e rest w
           in case read (snd (snd e)) s of
                (None, s) \<Rightarrow> (None, s)
              | (Some p, s) \<Rightarrow> mark_parents read marks (parents p) w s))"

definition paint_more :: "walk option \<times> 's \<Rightarrow> bool" where
  "paint_more st = (case fst st of None \<Rightarrow> False | Some w \<Rightarrow> oldest_nonstale w \<noteq> None \<and> queue w \<noteq> [])"

definition paint_loop :: "'s reader \<Rightarrow> walk option \<times> 's \<Rightarrow> (walk option \<times> 's) option" where
  "paint_loop read = while_option paint_more (\<lambda>(w, s). paint_step read (the w) s)"

definition empty_walk :: walk where
  "empty_walk = \<lparr>flags = Map.empty, queue = [], enqueued = {}, oldest_nonstale = None,
     pushed = 0, results = []\<rparr>"

definition paint_start :: "'s reader \<Rightarrow> oid \<Rightarrow> oid \<Rightarrow> 's \<Rightarrow> walk option \<times> 's" where
  "paint_start read one two s =
     (let w = empty_walk\<lparr>flags := [one \<mapsto> PARENT1]\<rparr>
      in case read one s of
           (None, s) \<Rightarrow> (None, s)
         | (Some p, s) \<Rightarrow>
             (let w = push one (committed p) False w;
                  w = w\<lparr>flags := (flags w)(two \<mapsto> flag w two OR PARENT2)\<rparr>
              in case read two s of
                   (None, s) \<Rightarrow> (None, s)
                 | (Some p, s) \<Rightarrow> (Some (push two (committed p) False w), s)))"

definition paint :: "'s reader \<Rightarrow> oid \<Rightarrow> oid \<Rightarrow> 's \<Rightarrow> (walk option \<times> 's) option" where
  "paint read one two s = paint_loop read (paint_start read one two s)"

definition merge_base :: "'s reader \<Rightarrow> oid \<Rightarrow> oid \<Rightarrow> 's \<Rightarrow> (oid option \<times> 's) option" where
  "merge_base read a b s =
     (if a = b then
        (case read a s of (None, s) \<Rightarrow> Some (None, s) | (Some _, s) \<Rightarrow> Some (Some a, s))
      else map_option (\<lambda>(w, s).
        (case w of None \<Rightarrow> (None, s)
         | Some w \<Rightarrow>
             (case filter (\<lambda>i. flag w i AND STALE = 0) (results w) of
                [only] \<Rightarrow> (Some only, s)
              | _ \<Rightarrow> (None, s)))) (paint read a b s))"

definition is_ancestor :: "'s reader \<Rightarrow> oid \<Rightarrow> oid \<Rightarrow> 's \<Rightarrow> (bool option \<times> 's) option" where
  "is_ancestor read ancestor descendant s =
     (if ancestor = descendant then
        (case read ancestor s of (None, s) \<Rightarrow> Some (None, s) | (Some _, s) \<Rightarrow> Some (Some True, s))
      else map_option (\<lambda>(w, s).
        (case w of None \<Rightarrow> (None, s) | Some w \<Rightarrow> (Some (flag w ancestor AND PARENT2 \<noteq> 0), s)))
        (paint read ancestor descendant s))"

section \<open>Listings\<close>

definition ANCESTRY :: nat where "ANCESTRY = 4096"

text \<open>
  \<open>ancestors\<close>: the set seen, what is pending with its top first, and the answer once there is
  one. What was listed, or found too long or unreadable, is remembered beside the reader's
  own memory.
\<close>

fun see :: "oid list \<Rightarrow> oid set \<times> oid list \<Rightarrow> oid set \<times> oid list" where
  "see [] sp = sp"
| "see (p # ps) (seen, pending) =
     (if p \<in> seen then see ps (seen, pending) else see ps (insert p seen, p # pending))"

record 's listing =
  seen :: "oid set"
  pending :: "oid list"
  listed :: "oid set option option"
  reading :: 's

definition list_step :: "'s reader \<Rightarrow> 's listing \<Rightarrow> 's listing" where
  "list_step read l =
     (case pending l of
        [] \<Rightarrow> l\<lparr>listed := Some (Some (seen l))\<rparr>
      | next # rest \<Rightarrow>
          (case read next (reading l) of
             (None, s) \<Rightarrow> l\<lparr>pending := rest, reading := s, listed := Some None\<rparr>
           | (Some p, s) \<Rightarrow>
               (let (seen', pending') = see (parents p) (seen l, rest)
                in l\<lparr>seen := seen', pending := pending', reading := s,
                     listed := (if card seen' > ANCESTRY then Some None else None)\<rparr>)))"

definition list_loop :: "'s reader \<Rightarrow> 's listing \<Rightarrow> 's listing option" where
  "list_loop read = while_option (\<lambda>l. listed l = None) (list_step read)"

type_synonym memo = "oid \<rightharpoonup> oid set option"

definition ancestors :: "'s reader \<Rightarrow> oid \<Rightarrow> memo \<times> 's \<Rightarrow> (oid set option \<times> memo \<times> 's) option" where
  "ancestors read i ms =
     (case fst ms i of
        Some known \<Rightarrow> Some (known, ms)
      | None \<Rightarrow>
          map_option (\<lambda>l. (the (listed l), (fst ms)(i \<mapsto> the (listed l)), reading l))
            (list_loop read \<lparr>seen = {i}, pending = [i], listed = None, reading = snd ms\<rparr>))"

fun all_ancestors ::
    "'s reader \<Rightarrow> oid list \<Rightarrow> memo \<times> 's \<Rightarrow> (oid set list option \<times> memo \<times> 's) option" where
  "all_ancestors read [] ms = Some (Some [], ms)"
| "all_ancestors read (i # is) ms =
     (case ancestors read i ms of
        None \<Rightarrow> None
      | Some (None, ms) \<Rightarrow> Some (None, ms)
      | Some (Some a, ms) \<Rightarrow>
          (case all_ancestors read is ms of
             None \<Rightarrow> None
           | Some (None, ms) \<Rightarrow> Some (None, ms)
           | Some (Some as, ms) \<Rightarrow> Some (Some (a # as), ms)))"

record 's collecting =
  members :: "oid set"
  todo :: "oid list"
  failed :: bool
  collector :: 's

definition only_step :: "'s reader \<Rightarrow> oid set list \<Rightarrow> 's collecting \<Rightarrow> 's collecting" where
  "only_step read excluded c =
     (case todo c of
        [] \<Rightarrow> c
      | next # rest \<Rightarrow>
          (if list_ex (\<lambda>e. next \<in> e) excluded \<or> next \<in> members c then c\<lparr>todo := rest\<rparr>
           else (case read next (collector c) of
                   (None, s) \<Rightarrow> c\<lparr>members := insert next (members c), todo := rest,
                                  failed := True, collector := s\<rparr>
                 | (Some p, s) \<Rightarrow> c\<lparr>members := insert next (members c),
                                    todo := rev (parents p) @ rest, collector := s\<rparr>)))"

definition only_loop :: "'s reader \<Rightarrow> oid set list \<Rightarrow> 's collecting \<Rightarrow> 's collecting option" where
  "only_loop read excluded =
     while_option (\<lambda>c. todo c \<noteq> [] \<and> \<not> failed c) (only_step read excluded)"

definition only :: "'s reader \<Rightarrow> oid \<Rightarrow> oid list \<Rightarrow> memo \<times> 's \<Rightarrow> (oid set option \<times> memo \<times> 's) option" where
  "only read to from ms =
     (case all_ancestors read from ms of
        None \<Rightarrow> None
      | Some (None, ms) \<Rightarrow> Some (None, ms)
      | Some (Some excluded, ms) \<Rightarrow>
          map_option (\<lambda>c. (if failed c then None else Some (members c), fst ms, collector c))
            (only_loop read excluded \<lparr>members = {}, todo = [to], failed = False, collector = snd ms\<rparr>))"

definition count :: "'s reader \<Rightarrow> oid \<Rightarrow> oid list \<Rightarrow> memo \<times> 's \<Rightarrow> (nat option \<times> memo \<times> 's) option" where
  "count read a hidden ms =
     (case read a (snd ms) of
        (None, s) \<Rightarrow> Some (None, fst ms, s)
      | (Some _, s) \<Rightarrow>
          map_option (\<lambda>(m, ms). (map_option card m, ms)) (only read a hidden (fst ms, s)))"

text \<open>The chain of a range: it stops once it is as long as the members are many.\<close>

function chain_from ::
    "'s reader \<Rightarrow> oid set \<Rightarrow> oid option \<Rightarrow> oid list \<Rightarrow> 's \<Rightarrow> oid list option \<times> 's" where
  "chain_from read ms nxt chain s =
     (case nxt of
        None \<Rightarrow> (Some chain, s)
      | Some i \<Rightarrow>
          (if i \<notin> ms then (Some chain, s)
           else (case read i s of
                   (None, s) \<Rightarrow> (None, s)
                 | (Some p, s) \<Rightarrow>
                     (if length (parents p) > 1 \<or> length chain \<ge> card ms then (None, s)
                      else chain_from read ms (case parents p of [] \<Rightarrow> None | q # _ \<Rightarrow> Some q)
                             (chain @ [i]) s))))"
  by pat_completeness auto
termination
  by (relation "measure (\<lambda>(read, ms, nxt, chain, s). card ms - length chain)") auto

declare chain_from.simps [simp del]

definition linear_range ::
    "'s reader \<Rightarrow> oid \<Rightarrow> oid \<Rightarrow> memo \<times> 's \<Rightarrow> (oid list option \<times> memo \<times> 's) option" where
  "linear_range read from to ms =
     (case read from (snd ms) of
        (None, s) \<Rightarrow> Some (None, fst ms, s)
      | (Some _, s) \<Rightarrow>
          (case only read to [from] (fst ms, s) of
             None \<Rightarrow> None
           | Some (None, ms) \<Rightarrow> Some (None, ms)
           | Some (Some mem, ms) \<Rightarrow>
               (case chain_from read mem (Some to) [] (snd ms) of
                  (None, s) \<Rightarrow> Some (None, fst ms, s)
                | (Some chain, s) \<Rightarrow>
                    Some (if length chain = card mem then Some chain else None, fst ms, s))))"


section \<open>Reachability\<close>

definition edges :: "(oid \<rightharpoonup> parsed) \<Rightarrow> (oid \<times> oid) set" where
  "edges G = {(c, p). \<exists>x. G c = Some x \<and> p \<in> set (parents x)}"

definition reach :: "(oid \<rightharpoonup> parsed) \<Rightarrow> oid \<Rightarrow> oid set" where
  "reach G c = {d. (c, d) \<in> (edges G)\<^sup>*}"

definition common :: "(oid \<rightharpoonup> parsed) \<Rightarrow> oid \<Rightarrow> oid \<Rightarrow> oid set" where
  "common G one two = reach G one \<inter> reach G two"

lemma reach_self [simp]: "c \<in> reach G c"
  by (simp add: reach_def)

lemma reach_trans: "d \<in> reach G c \<Longrightarrow> e \<in> reach G d \<Longrightarrow> e \<in> reach G c"
  by (simp add: reach_def)

lemma reach_edge: "d \<in> reach G c \<Longrightarrow> (d, e) \<in> edges G \<Longrightarrow> e \<in> reach G c"
  by (simp add: reach_def)

lemma reach_closed:
  "c \<in> S \<Longrightarrow> (\<And>d e. d \<in> S \<Longrightarrow> (d, e) \<in> edges G \<Longrightarrow> e \<in> S) \<Longrightarrow> reach G c \<subseteq> S"
  by (auto simp: reach_def elim: rtrancl_induct)

lemma finite_edges: "finite (dom G) \<Longrightarrow> finite (edges G)"
proof -
  assume "finite (dom G)"
  moreover have "edges G = (\<Union>c \<in> dom G. {c} \<times> set (parents (the (G c))))"
    by (fastforce simp: edges_def)
  ultimately show ?thesis by simp
qed

lemma finite_reach: "finite (dom G) \<Longrightarrow> finite (reach G c)"
proof -
  assume "finite (dom G)"
  then have "finite (insert c (snd ` edges G))" by (simp add: finite_edges)
  moreover have "reach G c \<subseteq> insert c (snd ` edges G)"
    by (rule reach_closed) (auto intro: rev_image_eqI)
  ultimately show ?thesis by (rule rev_finite_subset)
qed

section \<open>Marks\<close>

definition marked :: "walk \<Rightarrow> oid \<Rightarrow> nat \<Rightarrow> bool" where
  "marked w i n \<longleftrightarrow> n < 3 \<and> bit (flag w i) n"

text \<open>What a popped commit hands to its parents.\<close>

definition carries :: "walk \<Rightarrow> oid \<Rightarrow> nat \<Rightarrow> bool" where
  "carries w i n \<longleftrightarrow> marked w i n \<or> (n = 2 \<and> marked w i 0 \<and> marked w i 1)"

lemma bit_marks [simp]:
  "bit PARENT1 n \<longleftrightarrow> n = 0" "bit PARENT2 n \<longleftrightarrow> n = 1" "bit STALE n \<longleftrightarrow> n = 2" "bit RESULT n \<longleftrightarrow> n = 3"
proof -
  have m: "PARENT1 = 2 ^ 0" "PARENT2 = 2 ^ 1" "STALE = 2 ^ 2" "RESULT = 2 ^ 3"
    by (simp_all add: PARENT1_def PARENT2_def STALE_def RESULT_def)
  show "bit PARENT1 n \<longleftrightarrow> n = 0" "bit PARENT2 n \<longleftrightarrow> n = 1" "bit STALE n \<longleftrightarrow> n = 2" "bit RESULT n \<longleftrightarrow> n = 3"
    unfolding m bit_exp_iff by auto
qed

lemma all_marks: "bit (PARENT1 OR PARENT2 OR STALE) n \<longleftrightarrow> n < 3"
  by (auto simp: bit_or_iff)

lemma byte_eq: "a = b \<longleftrightarrow> (\<forall>n. bit a n \<longleftrightarrow> bit b n)" for a b :: "8 word"
  by (auto intro: bit_eqI)

lemma mark_set: "f AND STALE \<noteq> 0 \<longleftrightarrow> bit f 2" "f AND PARENT2 \<noteq> 0 \<longleftrightarrow> bit f 1"
  for f :: "8 word"
  unfolding byte_eq [where b = 0] bit_and_iff bit_marks by auto

lemma marks_included: "c AND m = m \<longleftrightarrow> (\<forall>n. bit m n \<longrightarrow> bit c n)" for c m :: "8 word"
  unfolding byte_eq bit_and_iff by blast

lemma both_marks:
  "h AND (PARENT1 OR PARENT2 OR STALE) = PARENT1 OR PARENT2 \<longleftrightarrow> bit h 0 \<and> bit h 1 \<and> \<not> bit h 2"
  for h :: "8 word"
proof -
  have "h AND (PARENT1 OR PARENT2 OR STALE) = PARENT1 OR PARENT2 \<longleftrightarrow>
      (\<forall>n. bit h n \<and> n < 3 \<longleftrightarrow> n = 0 \<or> n = 1)"
    unfolding byte_eq bit_and_iff all_marks by (simp only: bit_or_iff [of PARENT1] bit_marks)
  also have "\<dots> \<longleftrightarrow> bit h 0 \<and> bit h 1 \<and> \<not> bit h 2"
  proof
    assume all: "\<forall>n. bit h n \<and> n < 3 \<longleftrightarrow> n = 0 \<or> n = 1"
    show "bit h 0 \<and> bit h 1 \<and> \<not> bit h 2"
      using all [rule_format, of 0] all [rule_format, of 1] all [rule_format, of 2] by simp
  next
    assume b: "bit h 0 \<and> bit h 1 \<and> \<not> bit h 2"
    have "n < 3 \<longleftrightarrow> n = 0 \<or> n = 1 \<or> n = 2" for n :: nat by linarith
    with b show "\<forall>n. bit h n \<and> n < 3 \<longleftrightarrow> n = 0 \<or> n = 1" by metis
  qed
  finally show ?thesis .
qed

section \<open>The queue\<close>

lemma before_refl: "before e e" by (cases e) auto
lemma before_trans: "before a b \<Longrightarrow> before b c \<Longrightarrow> before a c"
  by (cases a; cases b; cases c) auto
lemma before_total: "before a b \<or> before b a"
  by (cases a; cases b) auto

lemma greatest_in: "greatest e es \<in> set (e # es)"
  by (induction e es rule: greatest.induct) auto

lemma greatest_before: "x \<in> set (e # es) \<Longrightarrow> before (greatest e es) x"
proof (induction e es arbitrary: x rule: greatest.induct)
  case (1 e)
  then show ?case by (simp add: before_refl)
next
  case (2 e e' es)
  show ?case
  proof (cases "before e e'")
    case True
    have all: "before (greatest e es) y" if "y \<in> set (e # es)" for y
      using "2.IH"(1) [OF True that] .
    then have "before (greatest e es) e'" using True before_trans by (meson list.set_intros(1))
    with True all "2.prems" show ?thesis by (metis greatest.simps(2) set_ConsD list.set_intros)
  next
    case False
    have all: "before (greatest e' es) y" if "y \<in> set (e' # es)" for y
      using "2.IH"(2) [OF False that] .
    moreover have "before e' e" using False before_total by blast
    ultimately have "before (greatest e' es) e" using before_trans by (meson list.set_intros(1))
    with False all "2.prems" show ?thesis by (metis greatest.simps(2) set_ConsD)
  qed
qed

lemma pop_Some:
  assumes "pop q = Some (e, rest)"
  shows "e \<in> set q" "rest = remove1 e q" "\<And>x. x \<in> set q \<Longrightarrow> before e x" "length rest < length q"
proof -
  obtain f es where q: "q = f # es" using assms by (cases q) (auto simp: pop_def)
  with assms have e: "e = greatest f es" "rest = remove1 e q" by (auto simp: pop_def Let_def)
  show "e \<in> set q" using greatest_in e(1) q by simp
  then show "length rest < length q"
    unfolding e(2) using length_pos_if_in_set [of e q] by (simp add: length_remove1)
  show "rest = remove1 e q" by (rule e(2))
  show "before e x" if "x \<in> set q" for x using greatest_before [of x f es] that e(1) q by simp
qed

lemma pop_None: "pop q = None \<longleftrightarrow> q = []"
  by (auto simp: pop_def Let_def split: list.splits)

abbreviation entry_id :: "entry \<Rightarrow> oid" where "entry_id e \<equiv> snd (snd e)"
abbreviation entry_no :: "entry \<Rightarrow> nat" where "entry_no e \<equiv> fst (snd e)"

text \<open>
  The queue holds each commit once, and the oldest nonstale entry is in it and comes last
  among the entries whose commits are not stale.
\<close>

definition queued :: "walk \<Rightarrow> bool" where
  "queued w \<longleftrightarrow>
     enqueued w = entry_id ` set (queue w) \<and> distinct (map entry_id (queue w)) \<and>
     distinct (map entry_no (queue w)) \<and> (\<forall>e \<in> set (queue w). entry_no e < pushed w) \<and>
     (\<forall>t i. oldest_nonstale w = Some (t, i) \<longrightarrow> (\<exists>n. (t, n, i) \<in> set (queue w))) \<and>
     (\<forall>e \<in> set (queue w). \<not> marked w (entry_id e) 2 \<longrightarrow>
        (\<exists>t n i. oldest_nonstale w = Some (t, i) \<and> (t, n, i) \<in> set (queue w) \<and> before e (t, n, i)))"

lemma queued_push:
  assumes q: "queued w" and mono: "\<And>j. marked w j 2 \<Longrightarrow> marked w' j 2"
    and same: "queue w' = queue w" "enqueued w' = enqueued w" "oldest_nonstale w' = oldest_nonstale w"
      "pushed w' = pushed w"
    and stale: "stale \<Longrightarrow> marked w' i 2"
  shows "queued (push i t stale w')"
proof -
  have fm: "marked (push i t stale w') j n = marked w' j n" for j n
    by (simp add: push_def Let_def marked_def flag_def)
  have old: "\<exists>t n i. oldest_nonstale w = Some (t, i) \<and> (t, n, i) \<in> set (queue w) \<and> before e (t, n, i)"
    if "e \<in> set (queue w)" "\<not> marked w' (entry_id e) 2" for e
    using q that mono unfolding queued_def by blast
  show ?thesis
  proof (cases "i \<in> enqueued w'")
    case True
    then have "push i t stale w' = w'" by (simp add: push_def)
    moreover have "queued w'"
      using q old unfolding queued_def same by simp
    ultimately show ?thesis by simp
  next
    case False
    let ?w = "push i t stale w'"
    have w: "queue ?w = (t, pushed w, i) # queue w" "enqueued ?w = insert i (enqueued w)"
      "pushed ?w = pushed w + 1"
      using False same by (simp_all add: push_def Let_def)
    have o: "oldest_nonstale ?w =
        (if \<not> stale \<and> (case oldest_nonstale w of None \<Rightarrow> True | Some (oldest, _) \<Rightarrow> t \<le> oldest)
         then Some (t, i) else oldest_nonstale w)"
      using False same by (simp add: push_def Let_def)
    have struct: "enqueued ?w = entry_id ` set (queue ?w)" "distinct (map entry_id (queue ?w))"
      "distinct (map entry_no (queue ?w))" "\<forall>e \<in> set (queue ?w). entry_no e < pushed ?w"
      using q False same unfolding w queued_def by (auto simp: less_Suc_eq)
    have there: "\<exists>n. (a, n, b) \<in> set (queue ?w)" if "oldest_nonstale ?w = Some (a, b)" for a b
      using that q unfolding o w queued_def by (auto split: if_splits)
    have last: "\<exists>a n b. oldest_nonstale ?w = Some (a, b) \<and> (a, n, b) \<in> set (queue ?w) \<and> before e (a, n, b)"
      if e: "e \<in> set (queue ?w)" "\<not> marked ?w (entry_id e) 2" for e
    proof (cases "e = (t, pushed w, i)")
      case True
      with e(2) stale have "\<not> stale" by (auto simp: fm)
      show ?thesis
      proof (cases "case oldest_nonstale w of None \<Rightarrow> True | Some (oldest, _) \<Rightarrow> t \<le> oldest")
        case True
        with \<open>\<not> stale\<close> \<open>e = _\<close> show ?thesis unfolding o w by auto
      next
        case False
        then obtain a b where ab: "oldest_nonstale w = Some (a, b)" "a < t"
          by (auto split: option.splits)
        then obtain n where "(a, n, b) \<in> set (queue w)" using q unfolding queued_def by blast
        with ab \<open>e = _\<close> False show ?thesis unfolding o w by auto
      qed
    next
      case False
      with e have eq: "e \<in> set (queue w)" by (simp add: w)
      obtain a n b where ab: "oldest_nonstale w = Some (a, b)" "(a, n, b) \<in> set (queue w)"
        "before e (a, n, b)" using old [OF eq] e(2) by (auto simp: fm)
      have "entry_no e < pushed w" using q eq unfolding queued_def by blast
      with ab show ?thesis unfolding o w
        by (cases e) (auto split: if_splits)
    qed
    show ?thesis unfolding queued_def using struct there last by blast
  qed
qed

lemma queued_same:
  assumes "queued w" "\<And>j. marked w j 2 \<Longrightarrow> marked w' j 2" "queue w' = queue w"
    "enqueued w' = enqueued w" "oldest_nonstale w' = oldest_nonstale w" "pushed w' = pushed w"
  shows "queued w'"
  using assms unfolding queued_def by (simp; blast)

lemma queued_pop:
  assumes q: "queued w" and p: "pop (queue w) = Some (e, rest)"
  shows "queued (w\<lparr>queue := rest,
           oldest_nonstale := (case oldest_nonstale w of
             Some (t, oldest) \<Rightarrow> if oldest = entry_id e then None else Some (t, oldest) | None \<Rightarrow> None),
           enqueued := enqueued w - {entry_id e}\<rparr>)" (is "queued ?w")
proof -
  note top = pop_Some [OF p]
  have d: "distinct (map entry_id (queue w))" "distinct (map entry_no (queue w))" "distinct (queue w)"
    using q by (auto simp: queued_def distinct_map)
  have rest: "set rest = set (queue w) - {e}" using top(2) d(3) by simp
  have ids: "entry_id x = entry_id e \<longleftrightarrow> x = e" if "x \<in> set (queue w)" for x
    using d(1) top(1) that by (auto simp: distinct_map inj_on_def)
  have nos: "entry_no x = entry_no e \<longleftrightarrow> x = e" if "x \<in> set (queue w)" for x
    using d(2) top(1) that by (auto simp: distinct_map inj_on_def)
  have fm: "marked ?w j n = marked w j n" for j n by (simp add: marked_def flag_def)
  have image: "entry_id ` (set (queue w) - {e}) = entry_id ` set (queue w) - {entry_id e}"
    using d(1) top(1) inj_on_image_set_diff [of entry_id "set (queue w)" "set (queue w)" "{e}"]
    by (simp add: distinct_map)
  have dr: "distinct rest" using top(2) d(3) by simp
  have struct: "enqueued ?w = entry_id ` set (queue ?w)" "distinct (map entry_id (queue ?w))"
      "distinct (map entry_no (queue ?w))" "\<forall>x \<in> set (queue ?w). entry_no x < pushed ?w"
  proof -
    have q1: "enqueued w = entry_id ` set (queue w)" "\<forall>x \<in> set (queue w). entry_no x < pushed w"
      using q unfolding queued_def by blast+
    have sub: "set rest \<subseteq> set (queue w)" using rest by blast
    have "enqueued ?w = enqueued w - {entry_id e}" "queue ?w = rest" by simp_all
    then show "enqueued ?w = entry_id ` set (queue ?w)" unfolding rest image q1(1) by (simp only: rest image)
    show "distinct (map entry_id (queue ?w))" "distinct (map entry_no (queue ?w))"
      using d(1,2) dr sub by (auto simp: distinct_map intro: inj_on_subset)
    show "\<forall>x \<in> set (queue ?w). entry_no x < pushed ?w" using q1(2) sub by auto
  qed
  have last: "\<exists>t n i. oldest_nonstale ?w = Some (t, i) \<and> (t, n, i) \<in> set (queue ?w) \<and> before x (t, n, i)"
    if x: "x \<in> set rest" "\<not> marked w (entry_id x) 2" for x
  proof -
    have xq: "x \<in> set (queue w)" "x \<noteq> e" using x(1) rest by auto
    then obtain t n i where o: "oldest_nonstale w = Some (t, i)" "(t, n, i) \<in> set (queue w)"
      "before x (t, n, i)" using q x(2) unfolding queued_def by blast
    have "(t, n, i) \<noteq> e"
    proof
      assume "(t, n, i) = e"
      with top(3) [OF xq(1)] o(3) have "entry_no x = entry_no e" by (cases x) auto
      with nos [OF xq(1)] xq(2) show False by blast
    qed
    with ids [OF o(2)] o rest show ?thesis by (auto intro!: exI [of _ n])
  qed
  have there: "\<exists>n. (t, n, i) \<in> set rest" if "oldest_nonstale ?w = Some (t, i)" for t i
  proof -
    from that have o: "oldest_nonstale w = Some (t, i)" "i \<noteq> entry_id e"
      by (auto split: option.splits if_splits)
    then obtain n where "(t, n, i) \<in> set (queue w)" using q unfolding queued_def by blast
    with o(2) rest show ?thesis by auto
  qed
  show ?thesis unfolding queued_def fm
  proof (intro conjI struct allI impI ballI)
    fix t i assume "oldest_nonstale ?w = Some (t, i)"
    then show "\<exists>n. (t, n, i) \<in> set (queue ?w)" using there by simp
  next
    fix x assume "x \<in> set (queue ?w)" "\<not> marked w (entry_id x) 2"
    then show "\<exists>t n i. oldest_nonstale ?w = Some (t, i) \<and> (t, n, i) \<in> set (queue ?w) \<and> before x (t, n, i)"
      using last [of x] by simp
  qed
qed

lemma queued_done:
  assumes "queued w" "\<not> paint_more (Some w, s)" "i \<in> enqueued w"
  shows "marked w i 2"
proof (rule ccontr)
  assume "\<not> marked w i 2"
  moreover obtain e where "e \<in> set (queue w)" "entry_id e = i"
    using assms(1,3) by (auto simp: queued_def)
  ultimately obtain t n j where "oldest_nonstale w = Some (t, j)" "(t, n, j) \<in> set (queue w)"
    using assms(1) unfolding queued_def by blast
  with assms(2) show False by (auto simp: paint_more_def)
qed

section \<open>What the paint keeps\<close>

text \<open>
  Every mark is sound; and each commit that waits in the queue no longer has handed its marks
  to its parents, the edges of \<open>due\<close> excepted.
\<close>

definition painted ::
    "(oid \<rightharpoonup> parsed) \<Rightarrow> oid \<Rightarrow> oid \<Rightarrow> (oid \<times> oid) set \<Rightarrow> walk \<Rightarrow> bool" where
  "painted G one two due w \<longleftrightarrow>
     (\<forall>i. marked w i 0 \<longrightarrow> i \<in> reach G one) \<and> (\<forall>i. marked w i 1 \<longrightarrow> i \<in> reach G two) \<and>
     (\<forall>i. marked w i 2 \<longrightarrow> marked w i 0 \<and> marked w i 1 \<and>
        (\<exists>x \<in> common G one two. (x, i) \<in> (edges G)\<^sup>+)) \<and>
     marked w one 0 \<and> marked w two 1 \<and>
     (\<forall>a p. (a, p) \<in> edges G \<and> (a, p) \<notin> due \<and> a \<notin> enqueued w \<longrightarrow>
        (\<forall>n. carries w a n \<longrightarrow> marked w p n)) \<and>
     (\<forall>i. i \<notin> enqueued w \<and> marked w i 0 \<and> marked w i 1 \<and> \<not> marked w i 2 \<longrightarrow> i \<in> set (results w)) \<and>
     (\<forall>i. bit (flag w i) 3 \<longrightarrow> i \<in> set (results w)) \<and>
     (\<forall>i \<in> set (results w). marked w i 0 \<and> marked w i 1)"

lemma paintedD:
  assumes "painted G one two due w"
  shows "marked w i 0 \<Longrightarrow> i \<in> reach G one" "marked w i 1 \<Longrightarrow> i \<in> reach G two"
    "marked w i 2 \<Longrightarrow> marked w i 0 \<and> marked w i 1 \<and> (\<exists>x \<in> common G one two. (x, i) \<in> (edges G)\<^sup>+)"
    "marked w one 0" "marked w two 1"
    "(a, p) \<in> edges G \<Longrightarrow> (a, p) \<notin> due \<Longrightarrow> a \<notin> enqueued w \<Longrightarrow> carries w a n \<Longrightarrow> marked w p n"
    "i \<notin> enqueued w \<Longrightarrow> marked w i 0 \<Longrightarrow> marked w i 1 \<Longrightarrow> \<not> marked w i 2 \<Longrightarrow> i \<in> set (results w)"
    "bit (flag w i) 3 \<Longrightarrow> i \<in> set (results w)"
    "i \<in> set (results w) \<Longrightarrow> marked w i 0 \<and> marked w i 1"
  using assms unfolding painted_def by (elim conjE; blast)+

text \<open>What is handed on by a commit is sound for it.\<close>

definition handed :: "(oid \<rightharpoonup> parsed) \<Rightarrow> oid \<Rightarrow> oid \<Rightarrow> oid \<Rightarrow> 8 word \<Rightarrow> bool" where
  "handed G one two i m \<longleftrightarrow>
     (\<forall>n. bit m n \<longrightarrow> n < 3) \<and> (bit m 0 \<longrightarrow> i \<in> reach G one) \<and> (bit m 1 \<longrightarrow> i \<in> reach G two) \<and>
     (bit m 2 \<longrightarrow> bit m 0 \<and> bit m 1 \<and> (\<exists>x \<in> common G one two. i \<in> reach G x))"

lemma push_simps [simp]:
  "flags (push i t st w) = flags w" "results (push i t st w) = results w"
  "enqueued (push i t st w) = insert i (enqueued w)"
  by (auto simp: push_def Let_def)

lemma flag_push [simp]: "flag (push i t st w) = flag w"
  by (simp add: flag_def fun_eq_iff)

lemma marked_push [simp]: "marked (push i t st w) = marked w"
  by (simp add: marked_def fun_eq_iff)

definition handing :: "oid \<Rightarrow> 8 word \<Rightarrow> walk \<Rightarrow> walk" where
  "handing p m w = w\<lparr>flags := (flags w)(p \<mapsto> flag w p OR m)\<rparr>"

lemma handing_simps [simp]:
  "queue (handing p m w) = queue w" "enqueued (handing p m w) = enqueued w"
  "oldest_nonstale (handing p m w) = oldest_nonstale w" "pushed (handing p m w) = pushed w"
  "results (handing p m w) = results w"
  by (simp_all add: handing_def)

lemma flag_handing: "bit (flag (handing p m w) j) n \<longleftrightarrow> bit (flag w j) n \<or> (j = p \<and> bit m n)"
  by (auto simp: handing_def flag_def bit_or_iff split: option.splits)

lemma marked_handing:
  "(\<And>n. bit m n \<Longrightarrow> n < 3) \<Longrightarrow> marked (handing p m w) j n \<longleftrightarrow> marked w j n \<or> (j = p \<and> bit m n)"
  by (auto simp: marked_def flag_handing)

lemma painted_hand:
  assumes p: "painted G one two due w" and h: "handed G one two i m" and e: "(i, p) \<in> edges G"
    and m: "i \<notin> enqueued w \<Longrightarrow> \<forall>n. carries w i n \<longrightarrow> bit m n"
    and d: "due - {(i, p)} \<subseteq> due'"
  shows "painted G one two due' (push p t st (handing p m w))"
    and "i \<notin> enqueued (push p t st (handing p m w)) \<Longrightarrow>
      \<forall>n. carries (push p t st (handing p m w)) i n \<longrightarrow> bit m n"
proof -
  let ?w = "push p t st (handing p m w)"
  have m3: "bit m n \<Longrightarrow> n < 3" for n using h by (auto simp: handed_def)
  have fm: "marked ?w j n \<longleftrightarrow> marked w j n \<or> (j = p \<and> bit m n)" for j n
    using marked_handing [of m p w j n] m3 by simp
  have cm: "carries ?w j n \<longleftrightarrow> carries w j n" if "j \<noteq> p" for j n
    unfolding carries_def fm using that by simp
  have s0: "marked ?w j 0 \<Longrightarrow> j \<in> reach G one" for j
    using p h e reach_edge paintedD [OF p] unfolding fm handed_def by blast
  have s1: "marked ?w j 1 \<Longrightarrow> j \<in> reach G two" for j
    using p h e reach_edge paintedD [OF p] unfolding fm handed_def by blast
  have s2: "marked ?w j 0 \<and> marked ?w j 1 \<and> (\<exists>x \<in> common G one two. (x, j) \<in> (edges G)\<^sup>+)"
    if "marked ?w j 2" for j
  proof (cases "marked w j 2")
    case True
    then show ?thesis using paintedD(3) [OF p] unfolding fm by blast
  next
    case False
    with that have j: "j = p" "bit m 2" unfolding fm by blast+
    then obtain x where "x \<in> common G one two" "i \<in> reach G x" "bit m 0" "bit m 1"
      using h by (auto simp: handed_def)
    with e j show ?thesis unfolding fm reach_def by (auto intro: rtrancl_into_trancl1)
  qed
  have closure: "marked ?w q n"
    if "(a, q) \<in> edges G" "(a, q) \<notin> due'" "a \<notin> enqueued ?w" "carries ?w a n" for a q n
  proof -
    from that have a: "a \<noteq> p" "a \<notin> enqueued w" "carries w a n" using cm by auto
    show ?thesis
    proof (cases "(a, q) = (i, p)")
      case True
      with a m show ?thesis unfolding fm by blast
    next
      case False
      with that d have "(a, q) \<notin> due" by blast
      with that a have "marked w q n" using paintedD(6) [OF p] by blast
      then show ?thesis unfolding fm by blast
    qed
  qed
  have res: "j \<in> set (results ?w)"
    if "j \<notin> enqueued ?w" "marked ?w j 0" "marked ?w j 1" "\<not> marked ?w j 2" for j
  proof -
    have "\<forall>i. i \<notin> enqueued w \<and> marked w i 0 \<and> marked w i 1 \<and> \<not> marked w i 2 \<longrightarrow> i \<in> set (results w)"
      using paintedD(7) [OF p] by blast
    with that show ?thesis unfolding fm by simp
  qed
  have res3: "j \<in> set (results ?w)" if "bit (flag ?w j) 3" for j
  proof -
    have "\<forall>i. bit (flag w i) 3 \<longrightarrow> i \<in> set (results w)" using paintedD(8) [OF p] by blast
    with that m3 [of 3] show ?thesis by (auto simp: flag_handing)
  qed
  have start: "marked ?w one 0" "marked ?w two 1" using paintedD(4,5) [OF p] unfolding fm by blast+
  have rs: "\<forall>j \<in> set (results ?w). marked ?w j 0 \<and> marked ?w j 1"
    using paintedD(9) [OF p] unfolding fm by simp
  show "painted G one two due' ?w"
    unfolding painted_def using s0 s1 s2 start closure res res3 rs by blast
  show "i \<notin> enqueued ?w \<Longrightarrow> \<forall>n. carries ?w i n \<longrightarrow> bit m n"
    using m cm by auto
qed

lemma painted_skip:
  assumes p: "painted G one two due w" and i: "flag w q AND m = m" "\<And>n. bit m n \<Longrightarrow> n < 3"
    and m: "i \<notin> enqueued w \<Longrightarrow> \<forall>n. carries w i n \<longrightarrow> bit m n"
    and d: "due - {(i, q)} \<subseteq> due'"
  shows "painted G one two due' w"
proof -
  have "marked w b n" if "(a, b) \<in> edges G" "(a, b) \<notin> due'" "a \<notin> enqueued w" "carries w a n" for a b n
  proof (cases "(a, b) = (i, q)")
    case True
    with that m have "bit m n" by blast
    with i True show ?thesis by (auto simp: marked_def marks_included)
  next
    case False
    with that d show ?thesis using paintedD(6) [OF p] by blast
  qed
  then show ?thesis unfolding painted_def using paintedD [OF p] by blast
qed

lemma painted_pop:
  assumes p: "painted G one two {} w" and q: "queued w" and e: "pop (queue w) = Some (e, rest)"
    and r: "paint_pop e rest w = (w', m)"
  shows "painted G one two ({entry_id e} \<times> UNIV) w'" "queued w'"
    "handed G one two (entry_id e) m" "\<And>n. carries w' (entry_id e) n \<Longrightarrow> bit m n"
    "queue w' = rest" "\<And>j n. marked w' j n \<longleftrightarrow> marked w j n"
proof -
  let ?i = "entry_id e"
  define v where "v = w\<lparr>queue := rest,
           oldest_nonstale := (case oldest_nonstale w of
             Some (t, oldest) \<Rightarrow> if oldest = ?i then None else Some (t, oldest) | None \<Rightarrow> None),
           enqueued := enqueued w - {?i}\<rparr>"
  have qv: "queued v" unfolding v_def by (rule queued_pop [OF q e])
  have fv: "flag v j = flag w j" for j by (simp add: v_def flag_def)
  have mv: "marked v j n = marked w j n" for j n by (simp add: marked_def fv)
  let ?both = "bit (flag v ?i) 0 \<and> bit (flag v ?i) 1 \<and> \<not> bit (flag v ?i) 2"
  let ?marks = "flag v ?i AND (PARENT1 OR PARENT2 OR STALE)"
  have w': "w' = (if ?both \<and> \<not> bit (flag v ?i) 3
      then v\<lparr>flags := (flags v)(?i \<mapsto> flag v ?i OR RESULT), results := results v @ [?i]\<rparr> else v)"
    and m: "m = (if ?both then ?marks OR STALE else ?marks)"
  proof -
    have three: "flag v ?i AND RESULT = 0 \<longleftrightarrow> \<not> bit (flag v ?i) 3"
      unfolding byte_eq [where b = 0] bit_and_iff bit_marks by auto
    show "w' = (if ?both \<and> \<not> bit (flag v ?i) 3
      then v\<lparr>flags := (flags v)(?i \<mapsto> flag v ?i OR RESULT), results := results v @ [?i]\<rparr> else v)"
      "m = (if ?both then ?marks OR STALE else ?marks)"
      using r unfolding paint_pop_def Let_def v_def [symmetric] both_marks three
      by (auto split: if_splits)
  qed
  have fw: "bit (flag w' j) n \<longleftrightarrow> bit (flag w j) n \<or> (j = ?i \<and> n = 3 \<and> ?both)" for j n
    unfolding w' by (auto simp: flag_def fv [unfolded flag_def] bit_or_iff v_def split: option.splits)
  show mw: "marked w' j n \<longleftrightarrow> marked w j n" for j n by (auto simp: marked_def fw)
  have same: "queue w' = queue v" "enqueued w' = enqueued v" "oldest_nonstale w' = oldest_nonstale v"
    "pushed w' = pushed v" unfolding w' by simp_all
  show "queued w'" by (rule queued_same [OF qv]) (simp_all add: mw mv same)
  show "queue w' = rest" by (simp add: same v_def)
  have both: "?both \<longleftrightarrow> marked w ?i 0 \<and> marked w ?i 1 \<and> \<not> marked w ?i 2"
    by (simp add: marked_def fv)
  have bm: "bit m n \<longleftrightarrow> carries w ?i n" for n
    unfolding m by (auto simp: bit_or_iff bit_and_iff carries_def marked_def fv)
  show "carries w' ?i n \<Longrightarrow> bit m n" for n unfolding bm by (simp add: carries_def mw)
  show "handed G one two ?i m"
  proof -
    have s: "\<forall>i. marked w i 0 \<longrightarrow> i \<in> reach G one" "\<forall>i. marked w i 1 \<longrightarrow> i \<in> reach G two"
      "\<forall>i. marked w i 2 \<longrightarrow> marked w i 0 \<and> marked w i 1 \<and> (\<exists>x \<in> common G one two. (x, i) \<in> (edges G)\<^sup>+)"
      using paintedD(1-3) [OF p] by blast+
    have c: "carries w ?i n \<Longrightarrow> n < 3" "carries w ?i 0 \<longleftrightarrow> marked w ?i 0" "carries w ?i 1 \<longleftrightarrow> marked w ?i 1" for n
      by (auto simp: carries_def marked_def)
    have "\<exists>x \<in> common G one two. ?i \<in> reach G x" if "carries w ?i 2"
    proof (cases "marked w ?i 2")
      case True
      with s(3) show ?thesis by (auto simp: reach_def intro: trancl_into_rtrancl)
    next
      case False
      with that s(1,2) have "?i \<in> common G one two" by (simp add: carries_def common_def)
      then show ?thesis by (auto intro: reach_self)
    qed
    moreover have "carries w ?i 2 \<Longrightarrow> marked w ?i 0 \<and> marked w ?i 1"
      using s(3) unfolding carries_def by blast
    ultimately show ?thesis using s(1,2) c unfolding handed_def bm by blast
  qed
  have rs: "set (results w) \<subseteq> set (results w')" unfolding w' by (auto simp: v_def)
  have ri: "?i \<in> set (results w')" if "bit (flag w' ?i) 3"
  proof (cases "bit (flag w ?i) 3")
    case True
    then show ?thesis using paintedD(8) [OF p] rs by blast
  next
    case False
    with that show ?thesis unfolding fw by (auto simp: w' fv)
  qed
  have rb: "?i \<in> set (results w')" if "marked w ?i 0" "marked w ?i 1" "\<not> marked w ?i 2"
    using ri both that unfolding fw by blast
  have en: "enqueued w' = enqueued w - {?i}" by (simp add: same v_def)
  show "painted G one two ({?i} \<times> UNIV) w'"
  proof -
    have res: "j \<in> set (results w')"
      if "j \<notin> enqueued w'" "marked w j 0" "marked w j 1" "\<not> marked w j 2" for j
    proof (cases "j = ?i")
      case False
      with that en have "j \<notin> enqueued w" by blast
      with that(2-4) rs show ?thesis using paintedD(7) [OF p] by blast
    qed (use that rb in simp)
    have res3: "j \<in> set (results w')" if "bit (flag w' j) 3" for j
    proof (cases "j = ?i")
      case False
      with that have "bit (flag w j) 3" by (simp add: fw)
      with rs show ?thesis using paintedD(8) [OF p] by blast
    qed (use that ri in simp)
    have both_results: "\<forall>j \<in> set (results w'). marked w j 0 \<and> marked w j 1"
      using paintedD(9) [OF p] both unfolding w' by (auto simp: v_def)
    have "marked w q n" if "(a, q) \<in> edges G" "a \<noteq> ?i" "a \<notin> enqueued w'" "carries w a n" for a q n
      using that en paintedD(6) [OF p] by blast
    moreover have "carries w' j n = carries w j n" for j n by (simp add: carries_def mw)
    ultimately show ?thesis unfolding painted_def mw
      using paintedD(1-5) [OF p] res res3 both_results by blast
  qed
qed

definition load :: "(oid \<rightharpoonup> parsed) \<Rightarrow> oid \<Rightarrow> oid \<Rightarrow> walk \<Rightarrow> nat" where
  "load G one two w =
     2 * (\<Sum>j \<in> reach G one \<union> reach G two. card {n \<in> {..<3}. \<not> marked w j n}) + length (queue w)"

definition walking ::
    "(oid \<rightharpoonup> parsed) \<Rightarrow> ('s \<Rightarrow> bool) \<Rightarrow> oid \<Rightarrow> oid \<Rightarrow> walk option \<times> 's \<Rightarrow> bool" where
  "walking G sound one two st \<longleftrightarrow> sound (snd st) \<and>
     (\<forall>w. fst st = Some w \<longrightarrow> painted G one two {} w \<and> queued w)"

text \<open>The walk a paint starts from, its two commits read.\<close>

definition painting :: "oid \<Rightarrow> int \<Rightarrow> oid \<Rightarrow> int \<Rightarrow> walk" where
  "painting one t two u =
     (let w = push one t False (empty_walk\<lparr>flags := [one \<mapsto> PARENT1]\<rparr>)
      in push two u False (w\<lparr>flags := (flags w)(two \<mapsto> flag w two OR PARENT2)\<rparr>))"

lemma flag_painting:
  "bit (flag (painting one t two u) j) n \<longleftrightarrow> (j = one \<and> n = 0) \<or> (j = two \<and> n = 1)"
  by (simp add: painting_def Let_def) (auto simp: flag_def empty_walk_def bit_or_iff)

lemma marked_painting:
  "marked (painting one t two u) j n \<longleftrightarrow> (j = one \<and> n = 0) \<or> (j = two \<and> n = 1)"
  by (auto simp: marked_def flag_painting)

lemma painting_painted: "painted G one two {} (painting one t two u)"
proof -
  have "enqueued (painting one t two u) = {one, two}" "results (painting one t two u) = []"
    by (auto simp: painting_def Let_def empty_walk_def)
  then show ?thesis unfolding painted_def carries_def marked_painting flag_painting by auto
qed

lemma painting_queued: "queued (painting one t two u)"
proof -
  let ?w = "push one t False (empty_walk\<lparr>flags := [one \<mapsto> PARENT1]\<rparr>)"
  have none: "\<not> marked empty_walk j n" for j n by (simp add: marked_def flag_def empty_walk_def)
  have "queued empty_walk" by (simp add: queued_def empty_walk_def)
  then have "queued ?w" by (rule queued_push) (simp_all add: none)
  then show ?thesis unfolding painting_def Let_def
  proof (rule queued_push)
    fix j assume "marked ?w j 2"
    then show "marked (?w\<lparr>flags := (flags ?w)(two \<mapsto> flag ?w two OR PARENT2)\<rparr>) j 2"
      by (auto simp: marked_def flag_def bit_or_iff split: option.splits)
  qed simp_all
qed

section \<open>The interface to the store\<close>

text \<open>
  What the walks rely on of their reader: an answer is what the graph holds, whatever was read
  before, and the graph is finite.
\<close>

locale commit_reader =
  fixes read :: "'s reader"
    and graph :: "oid \<rightharpoonup> parsed"
    and sound :: "'s \<Rightarrow> bool"
  assumes read_keeps: "sound s \<Longrightarrow> sound (snd (read i s))"
    and read_graph: "sound s \<Longrightarrow> fst (read i s) = Some p \<Longrightarrow> graph i = Some p"
    and finite_graph: "finite (dom graph)"
begin

lemma read_Some: "sound s \<Longrightarrow> read i s = (Some p, s') \<Longrightarrow> graph i = Some p \<and> sound s'"
  using read_keeps [of s i] read_graph [of s i p] by simp

lemma read_None: "sound s \<Longrightarrow> read i s = (None, s') \<Longrightarrow> sound s'"
  using read_keeps [of s i] by simp

lemma load_hand:
  assumes "p \<in> reach graph one \<union> reach graph two" "\<And>n. bit m n \<Longrightarrow> n < 3" "\<not> flag w p AND m = m"
  shows "load graph one two (push p t st (handing p m w)) < load graph one two w"
proof -
  let ?V = "reach graph one \<union> reach graph two"
  let ?w = "push p t st (handing p m w)"
  have fin: "finite ?V" using finite_reach [OF finite_graph] by simp
  have le: "card {n \<in> {..<3}. \<not> marked ?w j n} \<le> card {n \<in> {..<3}. \<not> marked w j n}" for j
    using assms(2) by (intro card_mono) (auto simp: marked_handing)
  obtain n where n: "bit m n" "\<not> bit (flag w p) n" using assms(3) by (auto simp: marks_included)
  then have "n < 3" using assms(2) by blast
  have "{n \<in> {..<3}. \<not> marked ?w p n} \<subset> {n \<in> {..<3}. \<not> marked w p n}"
  proof
    show "{n \<in> {..<3}. \<not> marked ?w p n} \<subseteq> {n \<in> {..<3}. \<not> marked w p n}"
      using assms(2) by (auto simp: marked_handing)
    have "n \<in> {n \<in> {..<3}. \<not> marked w p n}" "n \<notin> {n \<in> {..<3}. \<not> marked ?w p n}"
      using n \<open>n < 3\<close> assms(2) by (auto simp: marked_def flag_handing)
    then show "{n \<in> {..<3}. \<not> marked ?w p n} \<noteq> {n \<in> {..<3}. \<not> marked w p n}" by blast
  qed
  then have "card {n \<in> {..<3}. \<not> marked ?w p n} < card {n \<in> {..<3}. \<not> marked w p n}"
    by (intro psubset_card_mono) auto
  with fin le assms(1) have
    "(\<Sum>j \<in> ?V. card {n \<in> {..<3}. \<not> marked ?w j n}) < (\<Sum>j \<in> ?V. card {n \<in> {..<3}. \<not> marked w j n})"
    by (intro sum_strict_mono_ex1) auto
  moreover have "length (queue ?w) \<le> length (queue w) + 1" by (simp add: push_def Let_def)
  ultimately show ?thesis unfolding load_def by linarith
qed

lemma mark_parents_keeps:
  assumes "sound s" "painted graph one two ({i} \<times> set ps) w" "queued w"
    "handed graph one two i m" "i \<notin> enqueued w \<Longrightarrow> \<forall>n. carries w i n \<longrightarrow> bit m n"
    "\<And>p. p \<in> set ps \<Longrightarrow> (i, p) \<in> edges graph"
  shows "walking graph sound one two (mark_parents read m ps w s) \<and>
    (\<forall>w'. fst (mark_parents read m ps w s) = Some w' \<longrightarrow> load graph one two w' \<le> load graph one two w)"
  using assms
proof (induction ps arbitrary: w s)
  case Nil
  then show ?case by (simp add: walking_def)
next
  case (Cons p ps)
  have m3: "bit m n \<Longrightarrow> n < 3" for n using Cons.prems(4) by (auto simp: handed_def)
  have due: "{i} \<times> set (p # ps) - {(i, p)} \<subseteq> {i} \<times> set ps" by auto
  have edge: "(i, p) \<in> edges graph" using Cons.prems(6) by simp
  show ?case
  proof (cases "flag w p AND m = m")
    case True
    from painted_skip [OF Cons.prems(2) True m3 Cons.prems(5) due]
    have "painted graph one two ({i} \<times> set ps) w" by blast
    with Cons.IH [OF Cons.prems(1) this Cons.prems(3-5)] Cons.prems(6) True show ?thesis by simp
  next
    case False
    show ?thesis
    proof (cases "read p s")
      case (Pair x s')
      show ?thesis
      proof (cases x)
        case None
        with Pair False read_None [OF Cons.prems(1)] show ?thesis by (simp add: walking_def Let_def)
      next
        case (Some q)
        let ?w = "push p (committed q) (m AND STALE \<noteq> 0) (handing p m w)"
        have sound': "sound s'" using read_Some [OF Cons.prems(1)] Pair Some by blast
        have mono: "marked w j 2 \<Longrightarrow> marked (handing p m w) j 2" for j
          by (simp add: marked_handing [OF m3])
        have st: "m AND STALE \<noteq> 0 \<Longrightarrow> marked (handing p m w) p 2"
          by (simp add: marked_handing [OF m3] mark_set)
        have q': "queued ?w" by (rule queued_push [OF Cons.prems(3) mono _ _ _ _ st]) simp_all
        have p': "painted graph one two ({i} \<times> set ps) ?w"
          by (rule painted_hand(1) [OF Cons.prems(2,4) edge Cons.prems(5) due])
        have m': "i \<notin> enqueued ?w \<Longrightarrow> \<forall>n. carries ?w i n \<longrightarrow> bit m n"
          by (rule painted_hand(2) [OF Cons.prems(2,4) edge Cons.prems(5) due])
        have "p \<in> reach graph one \<union> reach graph two"
        proof -
          obtain n where "bit m n" using False by (auto simp: marks_included)
          then have "n < 3" "bit m n" using m3 by auto
          then have "n = 0 \<or> n = 1 \<or> n = 2" by linarith
          then have "i \<in> reach graph one \<union> reach graph two"
            using \<open>bit m n\<close> Cons.prems(4) by (auto simp: handed_def)
          with edge show ?thesis by (auto intro: reach_edge)
        qed
        then have load: "load graph one two ?w < load graph one two w"
          by (rule load_hand [OF _ m3 False])
        have step: "mark_parents read m (p # ps) w s = mark_parents read m ps ?w s'"
          using False Pair Some by (simp add: Let_def handing_def)
        from Cons.IH [OF sound' p' q' Cons.prems(4) m' Cons.prems(6)] load show ?thesis
          unfolding step by (auto intro: order.trans less_imp_le)
      qed
    qed
  qed
qed

lemma paint_step_keeps:
  assumes "walking graph sound one two (Some w, s)" "queue w \<noteq> []"
  shows "walking graph sound one two (paint_step read w s) \<and>
    (\<forall>w'. fst (paint_step read w s) = Some w' \<longrightarrow> load graph one two w' < load graph one two w)"
proof -
  have w: "sound s" "painted graph one two {} w" "queued w" using assms(1) by (auto simp: walking_def)
  obtain e rest where pop: "pop (queue w) = Some (e, rest)"
    using assms(2) pop_None by (cases "pop (queue w)") auto
  obtain w' m where pp: "paint_pop e rest w = (w', m)" by (cases "paint_pop e rest w")
  note pw = painted_pop [OF w(2,3) pop pp]
  show ?thesis
  proof (cases "read (entry_id e) s")
    case (Pair x s')
    show ?thesis
    proof (cases x)
      case None
      with Pair pop pp read_None [OF w(1)] show ?thesis by (simp add: paint_step_def walking_def)
    next
      case (Some p)
      with Pair have g: "graph (entry_id e) = Some p" "sound s'" using read_Some [OF w(1)] by auto
      have edges: "(entry_id e, q) \<in> edges graph \<longleftrightarrow> q \<in> set (parents p)" for q
        using g(1) by (auto simp: edges_def)
      have "painted graph one two ({entry_id e} \<times> set (parents p)) w'"
        unfolding painted_def using paintedD [OF pw(1)] edges by blast
      from mark_parents_keeps [OF g(2) this pw(2,3)] pw(4) edges
      have keeps: "walking graph sound one two (mark_parents read m (parents p) w' s')"
        "\<forall>v. fst (mark_parents read m (parents p) w' s') = Some v \<longrightarrow> load graph one two v \<le> load graph one two w'"
        by blast+
      have "load graph one two w' < load graph one two w"
        using pop_Some(4) [OF pop] by (simp add: load_def pw(5,6))
      with keeps show ?thesis using Pair Some pop pp by (auto simp: paint_step_def)
    qed
  qed
qed

lemma paint_start_keeps:
  assumes "sound s"
  shows "walking graph sound one two (paint_start read one two s)"
proof (cases "read one s")
  case one: (Pair x s')
  show ?thesis
  proof (cases x)
    case None
    with one read_None [OF assms] show ?thesis by (simp add: paint_start_def walking_def)
  next
    case some: (Some p)
    with one have sound': "sound s'" using read_Some [OF assms] by blast
    show ?thesis
    proof (cases "read two s'")
      case two: (Pair y s'')
      show ?thesis
      proof (cases y)
        case None
        with one some two read_None [OF sound'] show ?thesis
          by (simp add: paint_start_def walking_def Let_def)
      next
        case (Some q)
        with two have sound'': "sound s''" using read_Some [OF sound'] by blast
        from one some two Some have "paint_start read one two s =
            (Some (painting one (committed p) two (committed q)), s'')"
          by (simp add: paint_start_def painting_def Let_def)
        with painting_painted painting_queued sound'' show ?thesis by (simp add: walking_def)
      qed
    qed
  qed
qed

lemma paint_ends:
  assumes "walking graph sound one two st"
  shows "\<exists>st'. paint_loop read st = Some st'"
  unfolding paint_loop_def
proof (rule measure_while_option_Some [where P = "walking graph sound one two" and
      f = "\<lambda>st. case fst st of None \<Rightarrow> 0 | Some w \<Rightarrow> Suc (load graph one two w)"])
  show "walking graph sound one two st" by (rule assms)
  fix st assume k: "walking graph sound one two st" and more: "paint_more st"
  obtain w s where st: "st = (Some w, s)" "queue w \<noteq> []"
    using more by (cases st) (auto simp: paint_more_def split: option.splits)
  from paint_step_keeps [OF k [unfolded st(1)] st(2)]
  show "walking graph sound one two ((\<lambda>(w, s). paint_step read (the w) s) st) \<and>
    (case fst ((\<lambda>(w, s). paint_step read (the w) s) st) of None \<Rightarrow> 0 | Some w \<Rightarrow> Suc (load graph one two w)) <
    (case fst st of None \<Rightarrow> 0 | Some w \<Rightarrow> Suc (load graph one two w))"
    by (auto simp: st(1) split: option.splits)
qed

lemma paint_loop_keeps:
  assumes "walking graph sound one two st" "paint_loop read st = Some st'"
  shows "walking graph sound one two st'" "\<not> paint_more st'"
proof -
  show "\<not> paint_more st'" using assms(2) unfolding paint_loop_def by (rule while_option_stop)
  show "walking graph sound one two st'"
  proof (rule while_option_rule [where P = "walking graph sound one two", OF _ assms(2) [unfolded paint_loop_def] assms(1)])
    fix st assume k: "walking graph sound one two st" and more: "paint_more st"
    obtain w s where st: "st = (Some w, s)" "queue w \<noteq> []"
      using more by (cases st) (auto simp: paint_more_def split: option.splits)
    from paint_step_keeps [OF k [unfolded st(1)] st(2)]
    show "walking graph sound one two ((\<lambda>(w, s). paint_step read (the w) s) st)" by (simp add: st(1))
  qed
qed

end

section \<open>What the finished paint says\<close>

lemma painted_flow:
  assumes "painted G one two {} w" "marked w a n" "(a, p) \<in> edges G" "a \<notin> enqueued w"
  shows "marked w p n"
  using paintedD(6) [OF assms(1)] assms(2-4) unfolding carries_def by blast

lemma best_above:
  assumes "finite (edges G)" "acyclic (edges G)" "c \<in> C"
  shows "\<exists>b \<in> C. (b, c) \<in> (edges G)\<^sup>* \<and> (\<forall>x \<in> C. (x, b) \<notin> (edges G)\<^sup>+)"
proof -
  have wf: "wf ((edges G)\<^sup>+)" using assms(1,2) by (simp add: finite_acyclic_wf wf_trancl)
  have "c \<in> {x \<in> C. (x, c) \<in> (edges G)\<^sup>*}" using assms(3) by simp
  from wfE_min [OF wf this] obtain b where b: "b \<in> C" "(b, c) \<in> (edges G)\<^sup>*"
    "\<And>y. (y, b) \<in> (edges G)\<^sup>+ \<Longrightarrow> y \<notin> {x \<in> C. (x, c) \<in> (edges G)\<^sup>*}" by blast
  have "(x, b) \<notin> (edges G)\<^sup>+" if "x \<in> C" for x
  proof
    assume xb: "(x, b) \<in> (edges G)\<^sup>+"
    then have "(x, c) \<in> (edges G)\<^sup>*" using b(2) by (meson rtrancl_trans trancl_into_rtrancl)
    with b(3) [OF xb] that show False by simp
  qed
  with b(1,2) show ?thesis by blast
qed

lemma marked_along:
  assumes p: "painted G one two {} w" and q: "\<And>i. i \<in> enqueued w \<Longrightarrow> marked w i 2"
    and s: "marked w start n" "(start, d) \<in> (edges G)\<^sup>*"
    and stop: "\<And>c x. x \<in> common G one two \<Longrightarrow> (x, c) \<in> (edges G)\<^sup>+ \<Longrightarrow> (c, d) \<in> (edges G)\<^sup>+ \<Longrightarrow> False"
  shows "marked w d n"
proof -
  have "(c, d) \<in> (edges G)\<^sup>* \<longrightarrow> marked w c n" if "(start, c) \<in> (edges G)\<^sup>*" for c
    using that
  proof (induction rule: rtrancl_induct)
    case base
    then show ?case using s(1) by simp
  next
    case (step y z)
    show ?case
    proof
      assume "(z, d) \<in> (edges G)\<^sup>*"
      then have yd: "(y, d) \<in> (edges G)\<^sup>+" using step(2) by (rule rtrancl_into_trancl2 [rotated])
      then have y: "marked w y n" using step(3) by (simp add: trancl_into_rtrancl)
      have "y \<notin> enqueued w"
      proof
        assume "y \<in> enqueued w"
        then obtain x where "x \<in> common G one two" "(x, y) \<in> (edges G)\<^sup>+"
          using paintedD(3) [OF p] q by blast
        then show False using stop yd by blast
      qed
      then show "marked w z n" using painted_flow [OF p y step(2)] by blast
    qed
  qed
  with s(2) show ?thesis by blast
qed

lemma painted_ancestor:
  assumes p: "painted G one two {} w" and q: "\<And>i. i \<in> enqueued w \<Longrightarrow> marked w i 2"
    and a: "acyclic (edges G)"
  shows "marked w one 1 \<longleftrightarrow> one \<in> reach G two"
proof
  show "marked w one 1 \<Longrightarrow> one \<in> reach G two" using paintedD(2) [OF p] by blast
  assume "one \<in> reach G two"
  then have "(two, one) \<in> (edges G)\<^sup>*" by (simp add: reach_def)
  moreover have "marked w two 1" by (rule paintedD(5) [OF p])
  moreover have False if "x \<in> common G one two" "(x, c) \<in> (edges G)\<^sup>+" "(c, one) \<in> (edges G)\<^sup>+" for c x
  proof -
    have "(one, x) \<in> (edges G)\<^sup>*" using that(1) by (simp add: common_def reach_def)
    with that(2,3) have "(one, one) \<in> (edges G)\<^sup>+" by (meson rtrancl_trancl_trancl trancl_trans)
    with a show False by (simp add: acyclic_def)
  qed
  ultimately show "marked w one 1" using marked_along [OF p q] by blast
qed

lemma painted_best:
  assumes p: "painted G one two {} w" and q: "\<And>i. i \<in> enqueued w \<Longrightarrow> marked w i 2"
    and b: "b \<in> common G one two" "\<And>x. x \<in> common G one two \<Longrightarrow> (x, b) \<notin> (edges G)\<^sup>+"
  shows "b \<in> set (results w)" "\<not> marked w b 2"
proof -
  show n: "\<not> marked w b 2" using paintedD(3) [OF p] b(2) by blast
  have stop: False if "x \<in> common G one two" "(x, c) \<in> (edges G)\<^sup>+" "(c, b) \<in> (edges G)\<^sup>+" for c x
    using b(2) that by (meson trancl_trans)
  have "marked w one 0" "marked w two 1" using paintedD(4,5) [OF p] by blast+
  moreover have "(one, b) \<in> (edges G)\<^sup>*" "(two, b) \<in> (edges G)\<^sup>*"
    using b(1) by (simp_all add: common_def reach_def)
  ultimately have "marked w b 0" "marked w b 1"
    using marked_along [OF p q, where start = one and d = b] marked_along [OF p q, where start = two and d = b]
      stop by blast+
  moreover have "b \<notin> enqueued w" using n q by blast
  ultimately show "b \<in> set (results w)" using paintedD(7) [OF p] n by blast
qed

lemma painted_only:
  assumes p: "painted G one two {} w" and q: "\<And>i. i \<in> enqueued w \<Longrightarrow> marked w i 2"
    and f: "finite (edges G)" and a: "acyclic (edges G)"
    and m: "filter (\<lambda>i. \<not> marked w i 2) (results w) = [m]"
  shows "m \<in> common G one two" "common G one two \<subseteq> reach G m"
proof -
  have only: "b = m" if "b \<in> set (results w)" "\<not> marked w b 2" for b
  proof -
    have "b \<in> set (filter (\<lambda>i. \<not> marked w i 2) (results w))" using that by simp
    then show ?thesis unfolding m by simp
  qed
  have "m \<in> set (filter (\<lambda>i. \<not> marked w i 2) (results w))" unfolding m by simp
  then have "m \<in> set (results w)" by simp
  then show "m \<in> common G one two" using paintedD(1,2,9) [OF p] unfolding common_def by blast
  show "common G one two \<subseteq> reach G m"
  proof
    fix c assume "c \<in> common G one two"
    from best_above [OF f a this] obtain b where b: "b \<in> common G one two" "(b, c) \<in> (edges G)\<^sup>*"
      "\<And>x. x \<in> common G one two \<Longrightarrow> (x, b) \<notin> (edges G)\<^sup>+" by blast
    then have "b = m" using painted_best [OF p q b(1,3)] only by blast
    with b(2) show "c \<in> reach G m" by (simp add: reach_def)
  qed
qed

context commit_reader begin

lemma paint_answers:
  assumes "sound s"
  shows "\<exists>r s'. paint read one two s = Some (r, s') \<and> sound s' \<and>
    (\<forall>w. r = Some w \<longrightarrow> painted graph one two {} w \<and> (\<forall>i \<in> enqueued w. marked w i 2))"
proof -
  have k: "walking graph sound one two (paint_start read one two s)"
    by (rule paint_start_keeps [OF assms])
  then obtain r s' where l: "paint_loop read (paint_start read one two s) = Some (r, s')"
    using paint_ends by (metis prod.exhaust)
  have e: "walking graph sound one two (r, s')" "\<not> paint_more (r, s')"
    using paint_loop_keeps [OF k l] by blast+
  have "marked w i 2" if "r = Some w" "i \<in> enqueued w" for w i
    using e that queued_done [of w s' i] unfolding walking_def by simp
  with e(1) l show ?thesis unfolding paint_def walking_def by auto
qed

lemma is_ancestor_answers:
  assumes "sound s"
  shows "\<exists>r s'. is_ancestor read a d s = Some (r, s') \<and> sound s' \<and>
    (acyclic (edges graph) \<longrightarrow> (\<forall>yes. r = Some yes \<longrightarrow> (yes \<longleftrightarrow> a \<in> reach graph d)))"
proof (cases "a = d")
  case True
  then show ?thesis using read_Some [OF assms] read_None [OF assms]
    by (cases "read d s") (auto simp: is_ancestor_def split: option.splits)
next
  case False
  obtain r s' where p: "paint read a d s = Some (r, s')" "sound s'"
    "\<And>w. r = Some w \<Longrightarrow> painted graph a d {} w \<and> (\<forall>i \<in> enqueued w. marked w i 2)"
    using paint_answers [OF assms, of a d] by auto
  show ?thesis
  proof (cases r)
    case None
    with p False show ?thesis by (simp add: is_ancestor_def)
  next
    case (Some w)
    have "flag w a AND PARENT2 \<noteq> 0 \<longleftrightarrow> marked w a 1" by (simp add: mark_set marked_def)
    with painted_ancestor [of graph a d w] p(3) [OF Some] p(1,2) Some False show ?thesis
      by (simp add: is_ancestor_def)
  qed
qed

lemma merge_base_answers:
  assumes "sound s"
  shows "\<exists>r s'. merge_base read a b s = Some (r, s') \<and> sound s' \<and>
    (acyclic (edges graph) \<longrightarrow> (\<forall>m. r = Some m \<longrightarrow>
       m \<in> common graph a b \<and> common graph a b \<subseteq> reach graph m))"
proof (cases "a = b")
  case True
  then show ?thesis using read_Some [OF assms] read_None [OF assms]
    by (cases "read b s") (auto simp: merge_base_def common_def split: option.splits)
next
  case False
  obtain r s' where p: "paint read a b s = Some (r, s')" "sound s'"
    "\<And>w. r = Some w \<Longrightarrow> painted graph a b {} w \<and> (\<forall>i \<in> enqueued w. marked w i 2)"
    using paint_answers [OF assms, of a b] by auto
  show ?thesis
  proof (cases r)
    case None
    with p False show ?thesis by (simp add: merge_base_def)
  next
    case (Some w)
    have st: "(\<lambda>i. flag w i AND STALE = 0) = (\<lambda>i. \<not> marked w i 2)"
      using mark_set(1) [of "flag w _"] by (auto simp: marked_def fun_eq_iff)
    have only: "m \<in> common graph a b \<and> common graph a b \<subseteq> reach graph m"
      if "acyclic (edges graph)" "filter (\<lambda>i. \<not> marked w i 2) (results w) = [m]" for m
      using painted_only [of graph a b w m] p(3) [OF Some] finite_edges [OF finite_graph] that by blast
    show ?thesis using p(1,2) Some False
      by (auto simp: merge_base_def st only split: list.splits)
  qed
qed

end

section \<open>What the listings say\<close>

lemma see_keeps:
  "see ps (S, q) = (S', q') \<Longrightarrow> S' = S \<union> set ps \<and> set q' = set q \<union> (set ps - S) \<and>
     (distinct q \<and> set q \<subseteq> S \<longrightarrow> distinct q') \<and> length q' + card S = length q + card S' \<or> infinite S"
proof (induction ps arbitrary: S q)
  case Nil
  then show ?case by simp
next
  case (Cons p ps)
  show ?case
  proof (cases "p \<in> S")
    case True
    with Cons show ?thesis by (auto simp: insert_absorb)
  next
    case False
    with Cons.prems have "see ps (insert p S, p # q) = (S', q')" by simp
    from Cons.IH [OF this] False show ?thesis by auto
  qed
qed

text \<open>What \<open>ancestors\<close> keeps: what is seen is reachable, and closed but for what is pending.\<close>

definition listing_kept :: "(oid \<rightharpoonup> parsed) \<Rightarrow> ('s \<Rightarrow> bool) \<Rightarrow> oid \<Rightarrow> 's listing \<Rightarrow> bool" where
  "listing_kept G sound i l \<longleftrightarrow>
     sound (reading l) \<and> i \<in> seen l \<and> seen l \<subseteq> reach G i \<and> set (pending l) \<subseteq> seen l \<and>
     (\<forall>S. listed l = Some (Some S) \<longrightarrow> S = reach G i) \<and>
     (listed l = None \<longrightarrow> (\<forall>a p. a \<in> seen l \<and> a \<notin> set (pending l) \<and> (a, p) \<in> edges G \<longrightarrow> p \<in> seen l))"

definition memo_kept :: "(oid \<rightharpoonup> parsed) \<Rightarrow> memo \<Rightarrow> bool" where
  "memo_kept G memo \<longleftrightarrow> (\<forall>i S. memo i = Some (Some S) \<longrightarrow> S = reach G i)"

definition collecting_kept ::
    "(oid \<rightharpoonup> parsed) \<Rightarrow> ('s \<Rightarrow> bool) \<Rightarrow> oid \<Rightarrow> oid set \<Rightarrow> 's collecting \<Rightarrow> bool" where
  "collecting_kept G sound i E c \<longleftrightarrow>
     sound (collector c) \<and> members c \<subseteq> reach G i - E \<and> set (todo c) \<subseteq> reach G i \<and>
     (i \<in> E \<or> i \<in> members c \<or> i \<in> set (todo c)) \<and>
     (\<not> failed c \<longrightarrow> (\<forall>a p. a \<in> members c \<and> (a, p) \<in> edges G \<longrightarrow> p \<in> members c \<union> E \<union> set (todo c)))"

lemma collectingD:
  assumes "collecting_kept G sound i E c"
  shows "sound (collector c)" "members c \<subseteq> reach G i - E" "set (todo c) \<subseteq> reach G i"
    "i \<in> E \<or> i \<in> members c \<or> i \<in> set (todo c)"
    "\<not> failed c \<Longrightarrow> a \<in> members c \<Longrightarrow> (a, p) \<in> edges G \<Longrightarrow> p \<in> members c \<union> E \<union> set (todo c)"
  using assms unfolding collecting_kept_def by (elim conjE; blast)+

context commit_reader begin

lemma finite_reach_graph: "finite (reach graph i)"
  by (rule finite_reach [OF finite_graph])

lemma list_step_keeps:
  assumes k: "listing_kept graph sound i l" and n: "listed l = None"
  shows "listing_kept graph sound i (list_step read l) \<and>
    (listed (list_step read l) = None \<longrightarrow>
       2 * card (reach graph i - seen (list_step read l)) + length (pending (list_step read l)) <
       2 * card (reach graph i - seen l) + length (pending l))"
proof (cases "pending l")
  case Nil
  then have "reach graph i \<subseteq> seen l"
    using k n by (intro reach_closed) (auto simp: listing_kept_def)
  with k n Nil show ?thesis by (auto simp: list_step_def listing_kept_def)
next
  case (Cons a rest)
  have a: "a \<in> seen l" "a \<in> reach graph i" using k Cons by (auto simp: listing_kept_def)
  have s: "sound (reading l)" using k by (simp add: listing_kept_def)
  have fin: "finite (seen l)" using k finite_reach_graph by (auto simp: listing_kept_def intro: finite_subset)
  show ?thesis
  proof (cases "read a (reading l)")
    case (Pair x s')
    show ?thesis
    proof (cases x)
      case None
      with Cons Pair k read_None [OF s] show ?thesis
        by (auto simp: list_step_def listing_kept_def)
    next
      case (Some p)
      with Pair have g: "graph a = Some p" "sound s'" using read_Some [OF s] by auto
      have e: "(a, q) \<in> edges graph \<longleftrightarrow> q \<in> set (parents p)" for q using g(1) by (auto simp: edges_def)
      obtain S' q' where see: "see (parents p) (seen l, rest) = (S', q')"
        by (cases "see (parents p) (seen l, rest)")
      from see_keeps [OF see] fin have sp: "S' = seen l \<union> set (parents p)"
        "set q' = set rest \<union> (set (parents p) - seen l)" "length q' + card (seen l) = length rest + card S'"
        by auto
      let ?l = "list_step read l"
      have l': "seen ?l = S'" "pending ?l = q'" "reading ?l = s'"
        "listed ?l = (if card S' > ANCESTRY then Some None else None)"
        using Cons Pair Some see by (simp_all add: list_step_def)
      have sub: "S' \<subseteq> reach graph i" using k a e sp(1) by (auto simp: listing_kept_def intro: reach_edge)
      have closed: "q \<in> S'" if "b \<in> S'" "b \<notin> set q'" "(b, q) \<in> edges graph" for b q
      proof (cases "b = a")
        case True
        with that(3) e sp(1) show ?thesis by blast
      next
        case False
        with that(1,2) sp have "b \<in> seen l" "b \<notin> set (pending l)" using Cons by auto
        with that(3) k n sp(1) show ?thesis unfolding listing_kept_def by blast
      qed
      have keep: "listing_kept graph sound i ?l"
        unfolding listing_kept_def l' using g(2) k sub sp(1,2) closed Cons
        by (auto simp: listing_kept_def)
      have "2 * card (reach graph i - S') + length q' < 2 * card (reach graph i - seen l) + length (pending l)"
      proof -
        have "card (reach graph i - S') = card (reach graph i) - card S'"
          "card (reach graph i - seen l) = card (reach graph i) - card (seen l)"
          using sub k fin finite_subset [OF sub finite_reach_graph]
          by (auto simp: card_Diff_subset listing_kept_def)
        moreover have "card S' \<le> card (reach graph i)" "card (seen l) \<le> card S'"
          using sub sp(1) finite_reach_graph finite_subset [OF sub finite_reach_graph]
          by (auto intro: card_mono)
        ultimately show ?thesis using sp(3) Cons by simp
      qed
      with keep show ?thesis unfolding l' by blast
    qed
  qed
qed

lemma ancestors_answers:
  assumes "sound (snd ms)" "memo_kept graph (fst ms)"
  shows "\<exists>r ms'. ancestors read i ms = Some (r, ms') \<and> sound (snd ms') \<and> memo_kept graph (fst ms') \<and>
    (\<forall>S. r = Some S \<longrightarrow> S = reach graph i)"
proof (cases "fst ms i")
  case (Some known)
  with assms show ?thesis by (auto simp: ancestors_def memo_kept_def)
next
  case None
  let ?l = "\<lparr>seen = {i}, pending = [i], listed = None, reading = snd ms\<rparr>"
  have start: "listing_kept graph sound i ?l" using assms(1) by (simp add: listing_kept_def)
  have "\<exists>l. list_loop read ?l = Some l"
    unfolding list_loop_def
    by (rule measure_while_option_Some [where P = "listing_kept graph sound i" and
        f = "\<lambda>l. if listed l = None then
          Suc (2 * card (reach graph i - seen l) + length (pending l)) else 0", OF _ start])
      (use list_step_keeps in auto)
  then obtain l where l: "list_loop read ?l = Some l" by blast
  have "listing_kept graph sound i l"
    by (rule while_option_rule [where P = "listing_kept graph sound i", OF _ l [unfolded list_loop_def] start])
      (use list_step_keeps in blast)
  moreover have "listed l \<noteq> None" using while_option_stop [OF l [unfolded list_loop_def]] by simp
  ultimately show ?thesis using None l assms(2)
    by (auto simp: ancestors_def listing_kept_def memo_kept_def)
qed

lemma all_ancestors_answers:
  "sound (snd ms) \<Longrightarrow> memo_kept graph (fst ms) \<Longrightarrow>
   \<exists>r ms'. all_ancestors read is ms = Some (r, ms') \<and> sound (snd ms') \<and> memo_kept graph (fst ms') \<and>
     (\<forall>Ss. r = Some Ss \<longrightarrow> Ss = map (reach graph) is)"
proof (induction "is" arbitrary: ms)
  case Nil
  then show ?case by simp
next
  case (Cons i "is")
  obtain r ms' where a: "ancestors read i ms = Some (r, ms')" "sound (snd ms')" "memo_kept graph (fst ms')"
    "\<And>S. r = Some S \<Longrightarrow> S = reach graph i" using ancestors_answers [OF Cons.prems] by blast
  show ?case
  proof (cases r)
    case None
    with a show ?thesis by simp
  next
    case (Some S)
    obtain q ms'' where "all_ancestors read is ms' = Some (q, ms'')" "sound (snd ms'')"
      "memo_kept graph (fst ms'')" "\<And>Ss. q = Some Ss \<Longrightarrow> Ss = map (reach graph) is"
      using Cons.IH [OF a(2,3)] by blast
    with a Some show ?thesis by (cases q) auto
  qed
qed

lemma only_step_keeps:
  assumes E: "E = \<Union>(set Es)" and k: "collecting_kept graph sound i E c" and more: "todo c \<noteq> []" "\<not> failed c"
  shows "collecting_kept graph sound i E (only_step read Es c) \<and>
    (card (reach graph i - members (only_step read Es c)) < card (reach graph i - members c) \<or>
     members (only_step read Es c) = members c \<and> length (todo (only_step read Es c)) < length (todo c))"
proof -
  obtain a rest where todo: "todo c = a # rest" using more(1) by (cases "todo c") auto
  have s: "sound (collector c)" using k by (simp add: collecting_kept_def)
  have a: "a \<in> reach graph i" using k todo by (auto simp: collecting_kept_def)
  show ?thesis
  proof (cases "list_ex (\<lambda>e. a \<in> e) Es \<or> a \<in> members c")
    case True
    then have "only_step read Es c = c\<lparr>todo := rest\<rparr>" using todo by (simp add: only_step_def)
    moreover have aE: "a \<in> E \<or> a \<in> members c" using True by (auto simp: list_ex_iff E)
    moreover have "collecting_kept graph sound i E (c\<lparr>todo := rest\<rparr>)"
    proof -
      have t: "set (todo c) = insert a (set rest)" using todo by simp
      have "q \<in> members c \<union> E \<union> set rest" if "b \<in> members c" "(b, q) \<in> edges graph" for b q
        using collectingD(5) [OF k more(2) that] aE unfolding t by blast
      moreover have "i \<in> E \<or> i \<in> members c \<or> i \<in> set rest"
        using collectingD(4) [OF k] aE unfolding t by blast
      moreover have "set rest \<subseteq> reach graph i" using collectingD(3) [OF k] unfolding t by blast
      ultimately show ?thesis using collectingD(1,2) [OF k]
        unfolding collecting_kept_def by simp blast
    qed
    ultimately show ?thesis using todo by simp
  next
    case False
    then have new: "a \<notin> E" "a \<notin> members c" by (auto simp: list_ex_iff E)
    have less: "card (reach graph i - insert a (members c)) < card (reach graph i - members c)"
      using a new(2) finite_reach_graph by (intro psubset_card_mono) auto
    show ?thesis
    proof (cases "read a (collector c)")
      case (Pair x s')
      show ?thesis
      proof (cases x)
        case None
        then have "only_step read Es c = c\<lparr>members := insert a (members c), todo := rest,
            failed := True, collector := s'\<rparr>"
          using todo False Pair by (simp add: only_step_def)
        with less k todo a new read_None [OF s] Pair None show ?thesis
          by (auto simp: collecting_kept_def)
      next
        case (Some p)
        with Pair have g: "graph a = Some p" "sound s'" using read_Some [OF s] by auto
        have e: "(a, q) \<in> edges graph \<longleftrightarrow> q \<in> set (parents p)" for q using g(1) by (auto simp: edges_def)
        have "only_step read Es c = c\<lparr>members := insert a (members c), todo := rev (parents p) @ rest,
            collector := s'\<rparr>"
          using todo False Pair Some by (simp add: only_step_def)
        moreover have "collecting_kept graph sound i E (c\<lparr>members := insert a (members c),
            todo := rev (parents p) @ rest, collector := s'\<rparr>)"
        proof -
          have par: "set (parents p) \<subseteq> reach graph i" using a e by (auto intro: reach_edge)
          have closed: "q \<in> members c \<union> E \<union> set (todo c)"
            if "b \<in> members c" "(b, q) \<in> edges graph" for b q
            using k more(2) that unfolding collecting_kept_def by blast
          have "q \<in> insert a (members c) \<union> E \<union> (set (parents p) \<union> set rest)"
            if "b \<in> insert a (members c)" "(b, q) \<in> edges graph" for b q
            using that closed [of b q] e [of q] todo by auto
          moreover have "set rest \<subseteq> reach graph i" "members c \<subseteq> reach graph i - E"
            "i \<in> E \<or> i \<in> members c \<or> i = a \<or> i \<in> set rest"
            using k todo by (auto simp: collecting_kept_def)
          ultimately show ?thesis using par a new(1) g(2) unfolding collecting_kept_def by auto
        qed
        ultimately show ?thesis using less by simp
      qed
    qed
  qed
qed

lemma only_answers:
  assumes "sound (snd ms)" "memo_kept graph (fst ms)"
  shows "\<exists>r ms'. only read to from ms = Some (r, ms') \<and> sound (snd ms') \<and> memo_kept graph (fst ms') \<and>
    (\<forall>M. r = Some M \<longrightarrow> M = reach graph to - (\<Union>h \<in> set from. reach graph h))"
proof -
  obtain q ms' where a: "all_ancestors read from ms = Some (q, ms')" "sound (snd ms')"
    "memo_kept graph (fst ms')" "\<And>Ss. q = Some Ss \<Longrightarrow> Ss = map (reach graph) from"
    using all_ancestors_answers [OF assms] by blast
  show ?thesis
  proof (cases q)
    case None
    with a show ?thesis by (simp add: only_def)
  next
    case (Some Es)
    then have Es: "Es = map (reach graph) from" using a(4) by blast
    define E where E: "E = \<Union>(set Es)"
    let ?c = "\<lparr>members = {}, todo = [to], failed = False, collector = snd ms'\<rparr>"
    let ?P = "collecting_kept graph sound to E"
    have start: "?P ?c" using a(2) by (simp add: collecting_kept_def)
    have "\<exists>c. only_loop read Es ?c = Some c"
      unfolding only_loop_def
    proof (rule wf_while_option_Some [where P = ?P, OF _ _ start])
      show "wf {(t, s). (?P s \<and> todo s \<noteq> [] \<and> \<not> failed s) \<and> t = only_step read Es s}"
      proof (rule wf_subset [OF wf_measures [of "[\<lambda>c. card (reach graph to - members c), \<lambda>c. length (todo c)]"]],
          safe)
        fix s assume "?P s" "todo s \<noteq> []" "\<not> failed s"
        from only_step_keeps [OF E this] show "(only_step read Es s, s)
            \<in> measures [\<lambda>c. card (reach graph to - members c), \<lambda>c. length (todo c)]"
          by (elim conjE disjE) simp_all
      qed
    qed (use only_step_keeps [OF E] in blast)
    then obtain c where c: "only_loop read Es ?c = Some c" by blast
    have k: "?P c"
      by (rule while_option_rule [where P = ?P, OF _ c [unfolded only_loop_def] start])
        (use only_step_keeps [OF E] in blast)
    have stop: "todo c = [] \<or> failed c" using while_option_stop [OF c [unfolded only_loop_def]] by simp
    have "members c = reach graph to - E" if nf: "\<not> failed c"
    proof
      show "members c \<subseteq> reach graph to - E" by (rule collectingD(2) [OF k])
      have down: "y \<in> E" if "x \<in> E" "(x, y) \<in> edges graph" for x y
        using that reach_edge unfolding E Es by fastforce
      have "reach graph to \<subseteq> members c \<union> E"
      proof (rule reach_closed)
        have t: "set (todo c) = {}" using stop nf by simp
        show "to \<in> members c \<union> E" using collectingD(4) [OF k] unfolding t by blast
        show "e \<in> members c \<union> E" if "d \<in> members c \<union> E" "(d, e) \<in> edges graph" for d e
          using that collectingD(5) [OF k nf, of d e] down [of d e] unfolding t by blast
      qed
      then show "reach graph to - E \<subseteq> members c" by blast
    qed
    with collectingD(1) [OF k] c a(1,3) Some show ?thesis unfolding Es E by (simp add: only_def)
  qed
qed

lemma count_answers:
  assumes "sound (snd ms)" "memo_kept graph (fst ms)"
  shows "\<exists>r ms'. count read a hidden ms = Some (r, ms') \<and> sound (snd ms') \<and> memo_kept graph (fst ms') \<and>
    (\<forall>n. r = Some n \<longrightarrow> n = card (reach graph a - (\<Union>h \<in> set hidden. reach graph h)))"
proof (cases "read a (snd ms)")
  case (Pair x s)
  show ?thesis
  proof (cases x)
    case None
    with Pair assms read_None [OF assms(1)] show ?thesis by (auto simp: count_def)
  next
    case (Some p)
    with Pair have "sound (snd (fst ms, s))" "memo_kept graph (fst (fst ms, s))"
      using read_Some [OF assms(1)] assms(2) by auto
    from only_answers [OF this, of a hidden] Pair Some show ?thesis by (auto simp: count_def)
  qed
qed

end

text \<open>A chain: each commit's only parent is the next one.\<close>

definition chained :: "(oid \<rightharpoonup> parsed) \<Rightarrow> oid list \<Rightarrow> bool" where
  "chained G chain \<longleftrightarrow>
     (\<forall>k. Suc k < length chain \<longrightarrow> (\<exists>p. G (chain ! k) = Some p \<and> parents p = [chain ! Suc k]))"

lemma chained_distinct:
  assumes "acyclic (edges G)" "chained G chain"
  shows "distinct chain"
proof -
  have edge: "(chain ! k, chain ! Suc k) \<in> edges G" if "Suc k < length chain" for k
    using assms(2) that by (fastforce simp: chained_def edges_def)
  have path: "j < length chain \<longrightarrow> (chain ! i, chain ! j) \<in> (edges G)\<^sup>+" if "i < j" for i j
    using that
  proof (induction j rule: less_Suc_induct)
    case (1 i)
    then show ?case using edge by blast
  next
    case (2 i j k)
    then show ?case by (metis less_trans trancl_trans)
  qed
  have "chain ! i \<noteq> chain ! j" if "i < j" "j < length chain" for i j
    using path [OF that(1)] that(2) assms(1) by (metis acyclic_def)
  then show ?thesis by (metis distinct_conv_nth linorder_neqE_nat)
qed

context commit_reader begin

lemma chain_from_keeps:
  assumes "sound s" "set chain \<subseteq> M" "chained graph chain"
    and "chain \<noteq> [] \<Longrightarrow> (\<exists>p. graph (last chain) = Some p \<and> length (parents p) \<le> 1 \<and>
           nxt = (case parents p of [] \<Rightarrow> None | q # _ \<Rightarrow> Some q))"
  shows "sound (snd (chain_from read M nxt chain s)) \<and>
    (\<forall>c. fst (chain_from read M nxt chain s) = Some c \<longrightarrow>
       set c \<subseteq> M \<and> chained graph c \<and> (\<exists>more. c = chain @ more \<and>
         (more = [] \<longrightarrow> (\<forall>i. nxt = Some i \<longrightarrow> i \<notin> M)) \<and> (more \<noteq> [] \<longrightarrow> nxt = Some (hd more))))"
  using assms
proof (induction "card M - length chain" arbitrary: nxt chain s rule: less_induct)
  case less
  note IH = less.hyps and s = less.prems(1)
  show ?case
  proof (cases "\<exists>i. nxt = Some i \<and> i \<in> M")
    case False
    then have "chain_from read M nxt chain s = (Some chain, s)"
      by (subst chain_from.simps) (auto split: option.splits)
    with False less.prems show ?thesis by auto
  next
    case True
    then obtain i where i: "nxt = Some i" "i \<in> M" by blast
    show ?thesis
    proof (cases "read i s")
      case (Pair x s')
      show ?thesis
      proof (cases x)
        case None
        with Pair i have "chain_from read M nxt chain s = (None, s')"
          by (subst chain_from.simps) simp
        with Pair None read_None [OF s] show ?thesis by simp
      next
        case (Some p)
        with Pair have g: "graph i = Some p" "sound s'" using read_Some [OF s] by auto
        show ?thesis
        proof (cases "length (parents p) > 1 \<or> length chain \<ge> card M")
          case True
          with Pair Some i have "chain_from read M nxt chain s = (None, s')"
            by (subst chain_from.simps) simp
          with g(2) show ?thesis by simp
        next
          case False
          let ?n = "case parents p of [] \<Rightarrow> None | q # _ \<Rightarrow> Some q"
          have step: "chain_from read M nxt chain s = chain_from read M ?n (chain @ [i]) s'"
            using Pair Some i False by (subst chain_from.simps) simp
          have c: "chained graph (chain @ [i])"
            unfolding chained_def
          proof (intro allI impI)
            fix k assume k: "Suc k < length (chain @ [i])"
            show "\<exists>q. graph ((chain @ [i]) ! k) = Some q \<and> parents q = [(chain @ [i]) ! Suc k]"
            proof (cases "Suc k < length chain")
              case True
              with less.prems(3) show ?thesis by (auto simp: chained_def nth_append)
            next
              case False
              with k have l: "length chain = Suc k" "chain \<noteq> []" by auto
              then obtain q where "graph (last chain) = Some q" "length (parents q) \<le> 1"
                "Some i = (case parents q of [] \<Rightarrow> None | r # _ \<Rightarrow> Some r)"
                using less.prems(4) i(1) by metis
              then have "graph (last chain) = Some q" "parents q = [i]"
                by (auto split: list.splits)
              with l show ?thesis by (auto simp: nth_append last_conv_nth)
            qed
          qed
          have "length chain < card M" using False by simp
          then have dec: "card M - length (chain @ [i]) < card M - length chain"
            unfolding length_append by simp
          have sub: "set (chain @ [i]) \<subseteq> M" using less.prems(2) i(2) by simp
          have last: "\<exists>q. graph (last (chain @ [i])) = Some q \<and> length (parents q) \<le> 1 \<and>
              ?n = (case parents q of [] \<Rightarrow> None | r # _ \<Rightarrow> Some r)"
            using g(1) False by auto
          from IH [OF dec g(2) sub c last] show ?thesis unfolding step
            using i(1) by (auto simp del: append_assoc) auto
        qed
      qed
    qed
  qed
qed

lemma linear_range_answers:
  assumes "sound (snd ms)" "memo_kept graph (fst ms)"
  shows "\<exists>r ms'. linear_range read from to ms = Some (r, ms') \<and> sound (snd ms') \<and> memo_kept graph (fst ms') \<and>
    (acyclic (edges graph) \<longrightarrow> (\<forall>chain. r = Some chain \<longrightarrow>
       set chain = reach graph to - reach graph from \<and> distinct chain \<and> chained graph chain \<and>
       (chain \<noteq> [] \<longrightarrow> hd chain = to)))"
proof (cases "read from (snd ms)")
  case (Pair x s)
  show ?thesis
  proof (cases x)
    case None
    with Pair assms read_None [OF assms(1)] show ?thesis by (auto simp: linear_range_def)
  next
    case (Some p)
    with Pair have "sound (snd (fst ms, s))" "memo_kept graph (fst (fst ms, s))"
      using read_Some [OF assms(1)] assms(2) by auto
    from only_answers [OF this, of to "[from]"] obtain q ms' where
      o: "only read to [from] (fst ms, s) = Some (q, ms')" "sound (snd ms')" "memo_kept graph (fst ms')"
      "\<And>M. q = Some M \<Longrightarrow> M = reach graph to - reach graph from" by auto
    show ?thesis
    proof (cases q)
      case None
      with o Pair Some show ?thesis by (auto simp: linear_range_def)
    next
      case M: (Some M)
      have fin: "finite M" using o(4) [OF M] finite_reach_graph by simp
      obtain c s' where c: "chain_from read M (Some to) [] (snd ms') = (c, s')"
        by (cases "chain_from read M (Some to) [] (snd ms')")
      from chain_from_keeps [OF o(2), of "[]" M "Some to"] c have
        k: "sound s'" "\<And>l. c = Some l \<Longrightarrow> set l \<subseteq> M \<and> chained graph l \<and> (l \<noteq> [] \<longrightarrow> to = hd l)"
        by (auto simp: chained_def)
      have whole: "set l = M" if "acyclic (edges graph)" "c = Some l" "length l = card M" for l
        using k(2) [OF that(2)] chained_distinct [OF that(1)] that(3) fin
        by (metis card_subset_eq distinct_card)
      show ?thesis
      proof (cases c)
        case None
        with o Pair Some M c k show ?thesis by (auto simp: linear_range_def)
      next
        case l: (Some l)
        with o Pair Some M c k(1) have "linear_range read from to ms =
            Some (if length l = card M then Some l else None, fst ms', s')"
          by (simp add: linear_range_def)
        with k l whole [OF _ l] chained_distinct o(3) o(4) [OF M] show ?thesis by auto
      qed
    qed
  qed
qed

end

section \<open>The view of the source\<close>

definition view_graph :: "view \<Rightarrow> oid \<rightharpoonup> parsed" where
  "view_graph v i =
     (case position (\<lambda>store. map_of store i \<noteq> None) (shared v) of
        Some k \<Rightarrow> the (map_of (shared v ! k) i)
      | None \<Rightarrow> (case map_of (repository v) i of Some p \<Rightarrow> p | None \<Rightarrow> None))"

definition view_sound :: "view \<Rightarrow> memory \<Rightarrow> bool" where
  "view_sound v m \<longleftrightarrow>
     length (shared_memory m) = length (shared v) \<and>
     (\<forall>source \<in> set (shared_memory m @ [own_memory m]). \<forall>i p. source i = Some p \<longrightarrow> view_graph v i = Some p)"

lemma view_commit_cases:
  assumes "view_sound v m"
  shows "view_sound v (snd (view_commit v i m)) \<and>
    (\<forall>p. fst (view_commit v i m) = Some p \<longrightarrow> view_graph v i = Some p) \<and>
    unspent (snd (view_commit v i m)) \<le> unspent m"
proof (cases "remembered m i")
  case (Some p)
  then obtain source where "source \<in> set (shared_memory m @ [own_memory m])" "source i = Some p"
    unfolding remembered_def using find_map_SomeD by fast
  with assms have "view_graph v i = Some p" unfolding view_sound_def by blast
  with Some assms show ?thesis by (simp add: view_commit_def)
next
  case unread: None
  show ?thesis
  proof (cases "unspent m > 0")
    case False
    with unread assms show ?thesis by (simp add: view_commit_def spend_def)
  next
    case True
    let ?m = "m\<lparr>unspent := unspent m - 1\<rparr>"
    have s: "spend m = Some ?m" "view_sound v ?m" using True assms by (simp_all add: spend_def view_sound_def)
    show ?thesis
    proof (cases "position (\<lambda>store. map_of store i \<noteq> None) (shared v)")
      case held: (Some k)
      then have k: "k < length (shared v)" by (simp add: position_Some)
      show ?thesis
      proof (cases "the (map_of (shared v ! k) i)")
        case None
        with unread s held show ?thesis by (simp add: view_commit_def)
      next
        case (Some p)
        then have g: "view_graph v i = Some p" using held by (simp add: view_graph_def)
        let ?f = "(shared_memory m ! k)(i \<mapsto> p)"
        have "shared_memory m ! k \<in> set (shared_memory m)" using k assms by (simp add: view_sound_def)
        then have f: "\<forall>j q. ?f j = Some q \<longrightarrow> view_graph v j = Some q"
          using assms g by (auto simp: view_sound_def)
        have "set ((shared_memory m)[k := ?f]) \<subseteq> insert ?f (set (shared_memory m))"
          by (rule set_update_subset_insert)
        with f s(2) have "view_sound v (?m\<lparr>shared_memory := (shared_memory m)[k := ?f]\<rparr>)"
          unfolding view_sound_def by auto
        with unread s held Some g show ?thesis by (simp add: view_commit_def)
      qed
    next
      case own: None
      show ?thesis
      proof (cases "\<exists>p. map_of (repository v) i = Some (Some p)")
        case True
        then obtain p where p: "map_of (repository v) i = Some (Some p)" by blast
        then have g: "view_graph v i = Some p" using own by (simp add: view_graph_def)
        with s(2) have "view_sound v (?m\<lparr>own_memory := (own_memory m)(i \<mapsto> p)\<rparr>)"
          by (auto simp: view_sound_def)
        with unread s own p g show ?thesis by (simp add: view_commit_def)
      next
        case False
        with unread s own show ?thesis
          by (auto simp: view_commit_def split: option.splits)
      qed
    qed
  qed
qed

lemma finite_view_graph: "finite (dom (view_graph v))"
proof -
  have "dom (view_graph v) \<subseteq> (\<Union>store \<in> set (repository v # shared v). dom (map_of store))"
  proof
    fix i assume "i \<in> dom (view_graph v)"
    then obtain p where p: "view_graph v i = Some p" by blast
    show "i \<in> (\<Union>store \<in> set (repository v # shared v). dom (map_of store))"
    proof (cases "position (\<lambda>store. map_of store i \<noteq> None) (shared v)")
      case None
      with p show ?thesis by (auto simp: view_graph_def split: option.splits)
    next
      case (Some k)
      then have "k < length (shared v)" "i \<in> dom (map_of (shared v ! k))"
        unfolding position_Some by auto
      then show ?thesis by (auto intro: bexI [of _ "shared v ! k"])
    qed
  qed
  then show ?thesis by (rule finite_subset) (simp add: finite_dom_map_of)
qed

interpretation view_reader: commit_reader "view_commit v" "view_graph v" "view_sound v" for v
  by unfold_locales (use view_commit_cases finite_view_graph in blast)+

section \<open>Properties\<close>

lemma acyclic_by_rank: "(\<And>x y. (x, y) \<in> R \<Longrightarrow> f y < (f x :: nat)) \<Longrightarrow> acyclic R"
proof -
  assume "\<And>x y. (x, y) \<in> R \<Longrightarrow> f y < f x"
  then have "R \<subseteq> (measure f)\<inverse>" by auto
  then have "R\<inverse> \<subseteq> measure f" by auto
  then have "wf (R\<inverse>)" by (rule wf_subset [OF wf_measure])
  then have "acyclic (R\<inverse>)" by (rule wf_acyclic)
  then show "acyclic R" by (simp add: acyclic_converse)
qed

text \<open>A small history for the witnesses: two commits made on one root.\<close>

definition root_commit :: parsed where "root_commit = \<lparr>parents = [], tree = ''t0'', committed = 1\<rparr>"
definition left_commit :: parsed where "left_commit = \<lparr>parents = [''r''], tree = ''t1'', committed = 3\<rparr>"
definition right_commit :: parsed where "right_commit = \<lparr>parents = [''r''], tree = ''t2'', committed = 2\<rparr>"

definition small_view :: view where
  "small_view = \<lparr>shared = [[(''r'', Some root_commit)]],
     repository = [(''a'', Some left_commit), (''b'', Some right_commit)]\<rparr>"

definition fresh :: memory where
  "fresh = \<lparr>shared_memory = [Map.empty], own_memory = Map.empty, unspent = OBJECT_LIMIT\<rparr>"

lemma small_graph: "view_graph small_view = [''r'' \<mapsto> root_commit, ''a'' \<mapsto> left_commit, ''b'' \<mapsto> right_commit]"
  by (auto simp: view_graph_def small_view_def fun_eq_iff)

lemma small_sound: "view_sound small_view fresh"
  by (simp add: view_sound_def small_view_def fresh_def)

lemma small_acyclic: "acyclic (edges (view_graph small_view))"
  by (rule acyclic_by_rank [where f = "\<lambda>i. if i = ''r'' then 0 else 1"])
    (auto simp: edges_def small_graph root_commit_def left_commit_def right_commit_def split: if_splits)

text \<open>C17 The merge base the paint answers is the best common ancestor: it is common to both sides,
  and every common ancestor lies below it.\<close>

theorem merge_base_is_best:
  assumes "view_sound v m" "acyclic (edges (view_graph v))"
    and "merge_base (view_commit v) a b m = Some (Some x, m')"
  shows "x \<in> common (view_graph v) a b \<and> common (view_graph v) a b \<subseteq> reach (view_graph v) x"
  using view_reader.merge_base_answers [OF assms(1), of a b] assms(2,3) by auto

lemma small_merge_base:
  "\<exists>m'. merge_base (view_commit small_view) ''a'' ''b'' fresh = Some (Some ''r'', m')"
proof -
  have "map_option fst (merge_base (view_commit small_view) ''a'' ''b'' fresh) = Some (Some ''r'')"
    by code_simp
  then show ?thesis by auto
qed

text \<open>C28 Ancestry read off the paint's marks is reachability: where the walk answers, it answers yes
  exactly when the descendant reaches the ancestor.\<close>

theorem is_ancestor_is_reachability:
  assumes "view_sound v m" "acyclic (edges (view_graph v))"
    and "is_ancestor (view_commit v) a d m = Some (Some yes, m')"
  shows "yes \<longleftrightarrow> a \<in> reach (view_graph v) d"
  using view_reader.is_ancestor_answers [OF assms(1), of a d] assms(2,3) by auto

lemma merge_base_is_best_witness:
  "''r'' \<in> common (view_graph small_view) ''a'' ''b'' \<and>
   common (view_graph small_view) ''a'' ''b'' \<subseteq> reach (view_graph small_view) ''r''"
  using small_merge_base merge_base_is_best [OF small_sound small_acyclic] by blast

lemma is_ancestor_is_reachability_witness:
  "''r'' \<in> reach (view_graph small_view) ''b''"
proof -
  have "map_option fst (is_ancestor (view_commit small_view) ''r'' ''b'' fresh) = Some (Some True)"
    by code_simp
  then obtain m' where "is_ancestor (view_commit small_view) ''r'' ''b'' fresh = Some (Some True, m')"
    by auto
  from is_ancestor_is_reachability [OF small_sound small_acyclic this] show ?thesis by simp
qed

text \<open>C35 Every walk of a readable history ends: the merge base, ancestry, count and range loops all
  return, whatever the shape of the history and however much of the allowance is left.\<close>

theorem walks_end:
  assumes "view_sound v m" "memo_kept (view_graph v) memo"
  shows "merge_base (view_commit v) a b m \<noteq> None \<and> is_ancestor (view_commit v) a b m \<noteq> None \<and>
    count (view_commit v) a hidden (memo, m) \<noteq> None \<and> linear_range (view_commit v) a b (memo, m) \<noteq> None"
  using view_reader.merge_base_answers [OF assms(1), of a b]
    view_reader.is_ancestor_answers [OF assms(1), of a b]
    view_reader.count_answers [of v "(memo, m)" a hidden]
    view_reader.linear_range_answers [of v "(memo, m)" a b] assms by auto

lemma walks_end_witness:
  "merge_base (view_commit small_view) ''a'' ''b'' fresh \<noteq> None \<and>
   is_ancestor (view_commit small_view) ''a'' ''b'' fresh \<noteq> None \<and>
   count (view_commit small_view) ''a'' [''b''] (Map.empty, fresh) \<noteq> None \<and>
   linear_range (view_commit small_view) ''a'' ''b'' (Map.empty, fresh) \<noteq> None"
  by (rule walks_end [OF small_sound]) (simp add: memo_kept_def)

text \<open>A count is exact: the number of commits reachable from the tip and from none of the hidden
  ones.\<close>

theorem count_is_exact:
  assumes "view_sound v m" "memo_kept (view_graph v) memo"
    and "count (view_commit v) a hidden (memo, m) = Some (Some n, ms')"
  shows "n = card (reach (view_graph v) a - (\<Union>h \<in> set hidden. reach (view_graph v) h))"
  using view_reader.count_answers [of v "(memo, m)" a hidden] assms by auto

lemma count_is_exact_witness:
  "card (reach (view_graph small_view) ''a'' - (\<Union>h \<in> set [''b'']. reach (view_graph small_view) h)) = 1"
proof -
  have "map_option fst (count (view_commit small_view) ''a'' [''b''] (Map.empty, fresh)) = Some (Some 1)"
    by code_simp
  then obtain ms' where "count (view_commit small_view) ''a'' [''b''] (Map.empty, fresh) = Some (Some 1, ms')"
    by auto
  moreover have "memo_kept (view_graph small_view) Map.empty" by (simp add: memo_kept_def)
  ultimately show ?thesis using count_is_exact [OF small_sound] by metis
qed

text \<open>A linear range is the whole range, newest first: each commit once, each followed by its
  parent, and together exactly what the tip reaches and the base does not.\<close>

theorem linear_range_is_the_range:
  assumes "view_sound v m" "memo_kept (view_graph v) memo" "acyclic (edges (view_graph v))"
    and "linear_range (view_commit v) from to (memo, m) = Some (Some chain, ms')"
  shows "set chain = reach (view_graph v) to - reach (view_graph v) from \<and> distinct chain \<and>
    chained (view_graph v) chain \<and> (chain \<noteq> [] \<longrightarrow> hd chain = to)"
  using view_reader.linear_range_answers [of v "(memo, m)" "from" to] assms by auto

lemma linear_range_is_the_range_witness:
  "set [''a''] = reach (view_graph small_view) ''a'' - reach (view_graph small_view) ''r''"
proof -
  have "map_option fst (linear_range (view_commit small_view) ''r'' ''a'' (Map.empty, fresh)) = Some (Some [''a''])"
    by code_simp
  then obtain ms' where "linear_range (view_commit small_view) ''r'' ''a'' (Map.empty, fresh) = Some (Some [''a''], ms')"
    by auto
  moreover have "memo_kept (view_graph small_view) Map.empty" by (simp add: memo_kept_def)
  ultimately show ?thesis using linear_range_is_the_range [OF small_sound _ small_acyclic] by blast
qed

end
