(* ===== verification/Provenance.thy ===== *)
theory Provenance
  imports Ids
begin

text \<open>
  What a branch records about its own work (\<open>provenance.rs\<close>): the trailers a commit message
  carries under a configurable prefix, the markers of interrupted work and the attestation that
  clears them, the parents a stack base records, and the subject a publication carries. A
  history is the list of its commits' ids and messages, oldest first, as \<open>git log --reverse\<close>
  answered; whether git accepts a branch name is a parameter.
\<close>

section \<open>Trailers\<close>

definition DEFAULT_PREFIX :: str where "DEFAULT_PREFIX = ''Onevcs-''"
definition ATTESTATION_SUBJECT :: str where
  "ATTESTATION_SUBJECT = ''chore: attest verified recovery of preserved work''"
definition INCOMPLETE_SUFFIX :: str where "INCOMPLETE_SUFFIX = ''(incomplete step)''"
definition STATUS :: str where "STATUS = ''Status''"
definition INCOMPLETE :: str where "INCOMPLETE = ''incomplete''"
definition SUBJECT_LIMIT :: nat where "SUBJECT_LIMIT = 120"

datatype prefix_error = EmptyPrefix | BadCharacter char | BadStart

definition validate_prefix :: "str \<Rightarrow> prefix_error + unit" where
  "validate_prefix p =
     (if p = [] then Err EmptyPrefix
      else case List.find (\<lambda>c. \<not> (is_alnum c \<or> c = CHR ''-'')) p of
        Some bad \<Rightarrow> Err (BadCharacter bad)
      | None \<Rightarrow> (if is_alnum (hd p) then Ok () else Err BadStart))"

text \<open>\<open>TrailerPrefix::try_from\<close>.\<close>

definition trailer_prefix :: "str \<Rightarrow> str option" where
  "trailer_prefix p = (case validate_prefix p of Inr _ \<Rightarrow> Some p | Inl _ \<Rightarrow> None)"

record trailers =
  prefix :: str
  incomplete :: str
  change_base :: str
  recovered :: str
  change_url :: str
  landed :: str
  stack_base :: str

definition trailers_of :: "str \<Rightarrow> trailers" where
  "trailers_of p = \<lparr>prefix = p,
     incomplete = p @ STATUS @ '': '' @ INCOMPLETE,
     change_base = p @ ''Change-Base:'',
     recovered = p @ ''Recovered-Incomplete:'',
     change_url = p @ ''Change-Url:'',
     landed = p @ ''Landed-Commit:'',
     stack_base = p @ ''Stack-Base:''\<rparr>"

definition from_rules :: "str option \<Rightarrow> trailers" where
  "from_rules configured = (case configured of Some p \<Rightarrow> trailers_of p | None \<Rightarrow> trailers_of DEFAULT_PREFIX)"

record commit_message =
  sha :: str
  message :: str

section \<open>Stack bases\<close>

record stack_merge =
  merged_branch :: str
  merged_head :: str

definition stack_base_trailer :: "trailers \<Rightarrow> str \<Rightarrow> str \<Rightarrow> str" where
  "stack_base_trailer t branch head = stack_base t @ '' '' @ branch @ ''@'' @ head"

definition stack_merges :: "(str \<Rightarrow> bool) \<Rightarrow> str \<Rightarrow> trailers \<Rightarrow> stack_merge list" where
  "stack_merges accepts_ref msg t =
     filter_map (\<lambda>v.
       case rsplit_once (CHR ''@'') (trim v) of
         None \<Rightarrow> None
       | Some (branch, head) \<Rightarrow>
           (case object_id head of
              None \<Rightarrow> None
            | Some h \<Rightarrow> (if accepts_ref branch
                        then Some \<lparr>merged_branch = branch, merged_head = h\<rparr> else None)))
       (filter_map (\<lambda>line. strip_prefix (stack_base t) (trim line)) (lines msg))"

text \<open>One merge noted: the newest head of a known parent, or a new parent at the end.\<close>

definition note_merge :: "str \<Rightarrow> stack_merge list \<Rightarrow> stack_merge \<Rightarrow> stack_merge list" where
  "note_merge root parents m =
     (if merged_branch m = root then parents
      else if list_ex (\<lambda>k. merged_branch k = merged_branch m) parents
      then map (\<lambda>k. if merged_branch k = merged_branch m then k\<lparr>merged_head := merged_head m\<rparr> else k) parents
      else parents @ [m])"

definition stack_parents ::
    "(str \<Rightarrow> bool) \<Rightarrow> commit_message list \<Rightarrow> str list \<Rightarrow> str \<Rightarrow> trailers \<Rightarrow> stack_merge list" where
  "stack_parents accepts_ref commits line root t =
     foldl (note_merge root) []
       (concat (map (\<lambda>c. stack_merges accepts_ref (message c) t)
                 (filter (\<lambda>c. sha c \<in> set line) commits)))"

section \<open>Markers and attestations\<close>

definition is_incomplete :: "str \<Rightarrow> trailers \<Rightarrow> bool" where
  "is_incomplete msg t \<longleftrightarrow> contains (incomplete t) msg \<or> contains INCOMPLETE_SUFFIX msg"

definition is_provenance :: "str \<Rightarrow> trailers \<Rightarrow> bool" where
  "is_provenance msg t \<longleftrightarrow>
     is_incomplete msg t \<or> contains (recovered t) msg \<or> contains (landed t) msg"

definition NL :: str where "NL = [CHR 0x0A]"

definition incomplete_message :: "str \<Rightarrow> str option \<Rightarrow> trailers \<Rightarrow> str" where
  "incomplete_message summary base t =
     ''chore: preserve '' @ summary @ '' '' @ INCOMPLETE_SUFFIX @ NL @ NL @
     ''Preserved by onevcs after the session did not complete.'' @ NL @ NL @ incomplete t @
     (case base of None \<Rightarrow> [] | Some b \<Rightarrow> NL @ change_base t @ '' '' @ b)"

definition attested_shas :: "commit_message list \<Rightarrow> trailers \<Rightarrow> str list" where
  "attested_shas commits t =
     map trim (filter_map (\<lambda>line. strip_prefix (recovered t) (trim line))
       (concat (map (\<lambda>c. lines (message c)) commits)))"

definition unattested :: "commit_message list \<Rightarrow> trailers \<Rightarrow> str list" where
  "unattested commits t =
     map sha (filter (\<lambda>c. is_incomplete (message c) t \<and> sha c \<notin> set (attested_shas commits t)) commits)"

definition marker_prefix :: "str \<Rightarrow> str option" where
  "marker_prefix line =
     (case split_once (CHR '':'') (trim line) of
        None \<Rightarrow> None
      | Some (key, v) \<Rightarrow>
          (if trim v \<noteq> INCOMPLETE then None
           else Option.bind (strip_suffix STATUS key) trailer_prefix))"

definition unrecognized :: "commit_message list \<Rightarrow> trailers \<Rightarrow> str list" where
  "unrecognized commits t =
     foldl (\<lambda>found line.
       case marker_prefix line of
         None \<Rightarrow> found
       | Some p \<Rightarrow> (if p \<noteq> prefix t \<and> p \<notin> set found then found @ [p] else found)) []
       (concat (map (\<lambda>c. lines (message c)) commits))"

definition attestation_trailers :: "commit_message list \<Rightarrow> trailers \<Rightarrow> str list" where
  "attestation_trailers commits t =
     map (\<lambda>c. recovered t @ '' '' @ sha c)
       (filter (\<lambda>c. is_incomplete (message c) t \<and> sha c \<in> set (attested_shas commits t)) commits)"

definition recorded_change_base :: "commit_message list \<Rightarrow> trailers \<Rightarrow> str option" where
  "recorded_change_base commits t =
     (case List.find (\<lambda>c. is_incomplete (message c) t) (rev commits) of
        None \<Rightarrow> None
      | Some c \<Rightarrow>
          List.find (\<lambda>v. v \<noteq> [])
            (map trim (filter_map (\<lambda>line. strip_prefix (change_base t) (trim line)) (lines (message c)))))"

text \<open>The message of the commit \<open>attest\<close> makes, where the history has anything to attest.\<close>

definition attest_message :: "commit_message list \<Rightarrow> trailers \<Rightarrow> str option" where
  "attest_message commits t =
     (let missing = unattested commits t
      in if missing = [] then None
         else Some (ATTESTATION_SUBJECT @ NL @ NL @
                    join_with NL (map (\<lambda>s. recovered t @ '' '' @ s) (sort missing))))"

datatype provenance = IncompleteStep | Complete

definition provenance_of :: "commit_message list \<Rightarrow> trailers \<Rightarrow> provenance" where
  "provenance_of commits t =
     (if list_ex (\<lambda>c. is_incomplete (message c) t) commits then IncompleteStep else Complete)"

section \<open>Subjects\<close>

datatype subject_error = BlankTitle | TitleTooLong nat | NoDescribingCommit | NoSubjectFits

definition checked_subject :: "str \<Rightarrow> subject_error + str" where
  "checked_subject title =
     (let title = trim title
      in if title = [] then Err BlankTitle
         else if length title \<le> SUBJECT_LIMIT then Ok title
         else Err (TitleTooLong (length title)))"

definition subject_rank :: "str \<Rightarrow> nat" where
  "subject_rank subject =
     (let kind = (case split_once (CHR '':'') subject of Some (k, _) \<Rightarrow> k | None \<Rightarrow> [])
      in if contains ''!'' kind then 6
         else (let name = hd (split_on (CHR ''('') kind)
               in if name = ''feat'' then 5 else if name = ''fix'' then 4
                  else if name = ''perf'' then 3 else if name = ''refactor'' then 2
                  else if name \<in> {''docs'', ''test'', ''build'', ''ci'', ''style''} then 1 else 0))"

definition ranked_subjects :: "commit_message list \<Rightarrow> trailers \<Rightarrow> (nat \<times> str) list" where
  "ranked_subjects commits t =
     map (\<lambda>s. (subject_rank s, s))
       (filter_map (\<lambda>c. case lines (message c) of [] \<Rightarrow> None | s # _ \<Rightarrow> Some s)
         (filter (\<lambda>c. \<not> is_provenance (message c) t) commits))"

text \<open>Ranks are at most 6, so a stable sort on what is missing from it is the descending one.\<close>

definition publication_subject ::
    "commit_message list \<Rightarrow> str option \<Rightarrow> trailers \<Rightarrow> subject_error + str" where
  "publication_subject commits explicit t =
     (case explicit of
        Some title \<Rightarrow> checked_subject title
      | None \<Rightarrow>
          (if filter (\<lambda>c. \<not> is_provenance (message c) t) commits = [] then Err NoDescribingCommit
           else (case List.find (\<lambda>(rank, subject). length subject \<le> SUBJECT_LIMIT)
                        (sort_key (\<lambda>(rank, subject). 6 - rank) (ranked_subjects commits t)) of
                   Some (_, subject) \<Rightarrow> Ok subject
                 | None \<Rightarrow> Err NoSubjectFits)))"

section \<open>Reading back what was written\<close>

lemma ws_front_plain:
  assumes "code c < 128" "\<not> ws1 (code c)"
  shows "ws_front (c # s) = 0"
  using assms by (cases "c # s" rule: ws_front.cases) (auto simp: ws2_def)

lemma ws_back_plain:
  assumes "code c < 128" "\<not> ws1 (code c)"
  shows "ws_back (c # s) = 0"
  using assms by (cases "c # s" rule: ws_back.cases) (auto simp: ws2_def)

definition plain_char :: "char \<Rightarrow> bool" where
  "plain_char c \<longleftrightarrow> code c < 128 \<and> \<not> ws1 (code c)"

lemma trim_start_plain: "plain_char c \<Longrightarrow> trim_start (c # s) = c # s"
  by (subst trim_start_def, subst drop_ws.simps) (simp add: ws_front_plain plain_char_def)

lemma trim_end_plain: "plain_char c \<Longrightarrow> trim_end (s @ [c]) = s @ [c]"
  by (subst trim_end_def, subst drop_ws.simps) (simp add: ws_back_plain plain_char_def)

lemma trim_start_space [simp]: "trim_start (CHR '' '' # s) = trim_start s"
  by (subst trim_start_def, subst drop_ws.simps)
    (cases "CHR '' '' # s" rule: ws_front.cases; simp add: trim_start_def ws1_def code_def)

lemma trim_plain:
  assumes "s \<noteq> []" "plain_char (hd s)" "plain_char (last s)"
  shows "trim s = s" "trim (CHR '' '' # s) = s"
proof -
  have "trim_start s = s" using trim_start_plain [OF assms(2), of "tl s"] assms(1) by simp
  moreover have "trim_end s = s" using trim_end_plain [OF assms(3), of "butlast s"] assms(1) by simp
  ultimately show "trim s = s" "trim (CHR '' '' # s) = s" by (simp_all add: trim_def)
qed

lemma alnum_plain: "is_alnum c \<Longrightarrow> plain_char c"
  by (auto simp: plain_char_def ws1_def char_classes)

lemma hex_plain: "is_hexdigit c \<Longrightarrow> plain_char c"
  by (auto simp: plain_char_def ws1_def char_classes)

lemma split_on_app: "split_on d (a @ d # b) = split_on d a @ split_on d b"
  by (induction a) (auto split: list.splits)

lemma lines_NL: "lines (a @ NL @ b) = map strip_cr (split_on (CHR 0x0A) a) @ lines b"
  by (simp add: lines_def NL_def Let_def split_on_app butlast_append)

lemma lines_single: "CHR 0x0A \<notin> set l \<Longrightarrow> lines l = (if l = [] then [] else [l])"
  by (simp add: lines_def Let_def split_on_free_id)

definition clean_line :: "str \<Rightarrow> bool" where
  "clean_line l \<longleftrightarrow> l \<noteq> [] \<and> CHR 0x0A \<notin> set l \<and> code (last l) \<noteq> 13"

lemma strip_cr_clean: "clean_line l \<Longrightarrow> strip_cr l = l"
  by (cases l rule: rev_cases) (auto simp: strip_cr_def clean_line_def)

lemma lines_line: "clean_line l \<Longrightarrow> lines (l @ NL @ b) = l # lines b"
  by (simp add: lines_NL split_on_free_id strip_cr_clean) (simp add: clean_line_def split_on_free_id strip_cr_clean)

lemma lines_join: "\<forall>l \<in> set ls. clean_line l \<Longrightarrow> lines (join_with NL ls) = ls"
proof (induction NL ls rule: join_with.induct)
  case (1)
  then show ?case by (simp add: lines_def)
next
  case (2 w)
  then show ?case by (simp add: lines_single clean_line_def)
next
  case (3 w v ws)
  then show ?case by (simp add: lines_line)
qed

lemma valid_prefix:
  "validate_prefix p = Ok () \<longleftrightarrow> p \<noteq> [] \<and> (\<forall>c \<in> set p. is_alnum c \<or> c = CHR ''-'') \<and> is_alnum (hd p)"
  by (auto simp: validate_prefix_def find_None split: option.splits dest: find_SomeD)

lemma trailer_prefix_Some: "trailer_prefix p = Some q \<longleftrightarrow> q = p \<and> validate_prefix p = Ok ()"
  by (auto simp: trailer_prefix_def split: sum.splits)

definition hex_id :: "str \<Rightarrow> bool" where
  "hex_id s \<longleftrightarrow> s \<noteq> [] \<and> list_all is_hexdigit s"

lemma hex_chars: "hex_id s \<Longrightarrow> c \<in> set s \<Longrightarrow> is_hexdigit c"
  by (simp add: hex_id_def list_all_iff)

lemma hex_not: "is_hexdigit c \<Longrightarrow> code c \<noteq> 10 \<and> code c \<noteq> 13 \<and> c \<noteq> CHR '':'' \<and> c \<noteq> CHR ''i'' \<and>
    c \<noteq> CHR ''('' \<and> c \<noteq> CHR ''@'' \<and> c \<noteq> CHR 0x0A"
  by (auto simp: char_classes)

lemma prefix_not:
  "validate_prefix p = Ok () \<Longrightarrow> c \<in> set p \<Longrightarrow> c \<noteq> CHR 0x0A \<and> c \<noteq> CHR '':'' \<and> c \<noteq> CHR ''('' \<and> code c \<noteq> 13"
  by (auto simp: valid_prefix char_classes)

lemma attestation_line:
  assumes "validate_prefix p = Ok ()" "hex_id s"
  defines "l \<equiv> recovered (trailers_of p) @ '' '' @ s"
  shows "clean_line l" "trim l = l" "strip_prefix (recovered (trailers_of p)) l = Some ('' '' @ s)"
    "trim ('' '' @ s) = s"
proof -
  have s: "s \<noteq> []" "is_hexdigit (last s)" "is_hexdigit (hd s)"
    using assms(2) hex_chars by (auto simp: hex_id_def)
  have p: "p \<noteq> []" "is_alnum (hd p)" using assms(1) by (auto simp: valid_prefix)
  have ends: "last l = last s" "hd l = hd p" "l \<noteq> []"
    using s(1) p(1) by (auto simp: l_def trailers_of_def)
  have "CHR 0x0A \<notin> set l"
    using prefix_not [OF assms(1)] hex_not hex_chars [OF assms(2)]
    by (auto simp: l_def trailers_of_def)
  then show "clean_line l" using ends s hex_not by (simp add: clean_line_def)
  show "trim l = l" using ends s p by (intro trim_plain) (simp_all add: alnum_plain hex_plain)
  show "strip_prefix (recovered (trailers_of p)) l = Some ('' '' @ s)" by (simp add: l_def)
  show "trim ('' '' @ s) = s" using trim_plain [of s] s hex_plain by simp
qed

lemma attested_line:
  assumes "validate_prefix p = Ok ()" "\<forall>s \<in> set ss. hex_id s"
  shows "map trim (filter_map (\<lambda>line. strip_prefix (recovered (trailers_of p)) (trim line))
      (map (\<lambda>s. recovered (trailers_of p) @ '' '' @ s) ss)) = ss"
  using assms(2) attestation_line [OF assms(1)] by (induction ss) (simp_all add: )

text \<open>No marker is spelled in an attestation: no colon of it comes before an \<open>i\<close>.\<close>

definition colon_free_of :: "str \<Rightarrow> bool" where
  "colon_free_of s \<longleftrightarrow> (\<forall>u w. s \<noteq> u @ '': i'' @ w)"

lemma colon_free_none: "CHR '':'' \<notin> set s \<Longrightarrow> colon_free_of s"
  by (auto simp: colon_free_of_def)

lemma colon_free_cons:
  assumes "CHR '':'' \<notin> set a" "\<not> (\<exists>w. r = '' i'' @ w)" "colon_free_of r"
  shows "colon_free_of (a @ CHR '':'' # r)"
  unfolding colon_free_of_def
proof (intro allI notI)
  fix u w assume e: "a @ CHR '':'' # r = u @ '': i'' @ w"
  show False
  proof (cases "length u = length a")
    case True
    with e have "r = '' i'' @ w" by (simp add: append_eq_append_conv2) (auto simp: append_eq_append_conv2)
    with assms(2) show False by blast
  next
    case False
    from e obtain us where "u = a @ us \<and> CHR '':'' # r = us @ '': i'' @ w \<or> a = u @ us \<and> us @ CHR '':'' # r = '': i'' @ w"
      by (auto simp: append_eq_append_conv2)
    with False assms(1,3) show False
      by (cases us) (auto simp: colon_free_of_def)
  qed
qed

lemma colon_free_append:
  assumes "CHR '':'' \<notin> set a" "colon_free_of r"
  shows "colon_free_of (a @ r)"
  unfolding colon_free_of_def
proof (intro allI notI)
  fix u w assume "a @ r = u @ '': i'' @ w"
  then obtain us where "u = a @ us \<and> r = us @ '': i'' @ w \<or> a = u @ us \<and> us @ r = '': i'' @ w"
    by (auto simp: append_eq_append_conv2)
  with assms(1) show False
    using assms(2) [unfolded colon_free_of_def, rule_format, of us w]
    by (cases us) (auto simp: append_eq_Cons_conv)
qed

lemma object_id_hex: "object_id s = Some h \<Longrightarrow> h = s \<and> hex_id s"
  by (auto simp: object_id_def hex_id_def split: if_splits)

lemma attestation_list_colon_free:
  assumes "validate_prefix p = Ok ()" "\<forall>s \<in> set ss. hex_id s" "CHR '':'' \<notin> set a"
  shows "colon_free_of (a @ join_with NL (map (\<lambda>s. recovered (trailers_of p) @ '' '' @ s) ss))"
  using assms(2,3)
proof (induction ss arbitrary: a)
  case Nil
  then show ?case by (simp add: colon_free_none)
next
  case (Cons s ss)
  have p: "CHR '':'' \<notin> set p" using prefix_not [OF assms(1)] by blast
  have s: "CHR '':'' \<notin> set s" "s \<noteq> []" "hd s \<noteq> CHR ''i''"
    using Cons.prems(1) hex_not hex_chars by (auto simp: hex_id_def)
  let ?rest = "join_with NL (map (\<lambda>s. recovered (trailers_of p) @ '' '' @ s) ss)"
  have head: "CHR '':'' \<notin> set (a @ p @ ''Recovered-Incomplete'')" using Cons.prems(2) p by simp
  show ?case
  proof (cases ss)
    case Nil
    have "\<not> (\<exists>w. '' '' @ s = '' i'' @ w)" using s by auto
    moreover have "colon_free_of ('' '' @ s)" using s by (intro colon_free_none) simp
    ultimately show ?thesis
      using colon_free_cons [OF head] by (simp add: Nil trailers_of_def)
  next
    case (Cons s' ss')
    have "\<not> (\<exists>w. ('' '' @ s @ NL) @ ?rest = '' i'' @ w)" using s by (cases s) auto
    moreover have "colon_free_of (('' '' @ s @ NL) @ ?rest)"
      using Cons.IH [of "'' '' @ s @ NL"] Cons.prems s by (simp add: NL_def)
    ultimately have "colon_free_of ((a @ p @ ''Recovered-Incomplete'') @ CHR '':'' # (('' '' @ s @ NL) @ ?rest))"
      by (rule colon_free_cons [OF head])
    then show ?thesis by (simp add: Cons trailers_of_def)
  qed
qed

lemma join_chars: "c \<in> set (join_with d ws) \<Longrightarrow> c \<in> set d \<or> (\<exists>w \<in> set ws. c \<in> set w)"
  by (induction d ws rule: join_with.induct) auto

lemma attestation_not_incomplete:
  assumes "validate_prefix p = Ok ()" "\<forall>s \<in> set ss. hex_id s"
  shows "\<not> is_incomplete (ATTESTATION_SUBJECT @ NL @ NL @
    join_with NL (map (\<lambda>s. recovered (trailers_of p) @ '' '' @ s) ss)) (trailers_of p)" (is "\<not> is_incomplete ?m _")
proof -
  let ?tail = "'' attest verified recovery of preserved work'' @ NL @ NL"
  have "colon_free_of (?tail @ join_with NL (map (\<lambda>s. recovered (trailers_of p) @ '' '' @ s) ss))"
    by (rule attestation_list_colon_free [OF assms]) (simp add: NL_def)
  then have "colon_free_of (''chore'' @ CHR '':'' # (?tail @ join_with NL (map (\<lambda>s. recovered (trailers_of p) @ '' '' @ s) ss)))"
    by (rule colon_free_cons [rotated 2]) simp_all
  then have "colon_free_of ?m" by (simp add: ATTESTATION_SUBJECT_def)
  then have "?m \<noteq> (u @ p @ ''Status'') @ '': i'' @ (''ncomplete'' @ w)" for u w
    unfolding colon_free_of_def by blast
  then have plain: "\<not> contains (incomplete (trailers_of p)) ?m"
    unfolding contains_iff by (simp add: trailers_of_def STATUS_def INCOMPLETE_def)
  have "CHR ''('' \<notin> set p" "\<forall>s \<in> set ss. CHR ''('' \<notin> set s"
    using prefix_not [OF assms(1)] hex_not hex_chars assms(2) by blast+
  then have "CHR ''('' \<notin> set ?m"
    by (auto simp: ATTESTATION_SUBJECT_def NL_def trailers_of_def dest!: join_chars)
  then have "\<not> contains INCOMPLETE_SUFFIX ?m" by (simp add: INCOMPLETE_SUFFIX_def contains_head)
  with plain show ?thesis by (simp add: is_incomplete_def)
qed

lemma lines_attestation:
  assumes "validate_prefix p = Ok ()" "\<forall>s \<in> set ss. hex_id s"
  shows "lines (ATTESTATION_SUBJECT @ NL @ NL @
      join_with NL (map (\<lambda>s. recovered (trailers_of p) @ '' '' @ s) ss)) =
    ATTESTATION_SUBJECT # [] # map (\<lambda>s. recovered (trailers_of p) @ '' '' @ s) ss"
proof -
  have "lines (NL @ b) = [] # lines b" for b using lines_NL [of "[]" b] by (simp add: strip_cr_def)
  moreover have "clean_line ATTESTATION_SUBJECT" by (simp add: clean_line_def ATTESTATION_SUBJECT_def code_def)
  moreover have "lines (join_with NL (map (\<lambda>s. recovered (trailers_of p) @ '' '' @ s) ss)) =
      map (\<lambda>s. recovered (trailers_of p) @ '' '' @ s) ss"
    using assms attestation_line(1) by (intro lines_join) auto
  ultimately show ?thesis by (simp add: lines_line)
qed

section \<open>Markers under another prefix\<close>

lemma unrecognized_fold:
  fixes found :: "str list" and own :: str
  defines "f \<equiv> \<lambda>found line. case marker_prefix line of
         None \<Rightarrow> found
       | Some p \<Rightarrow> (if p \<noteq> own \<and> p \<notin> set found then found @ [p] else found)"
  shows "distinct found \<Longrightarrow> distinct (foldl f found ls) \<and>
    set (foldl f found ls) = set found \<union> {q. q \<noteq> own \<and> (\<exists>l \<in> set ls. marker_prefix l = Some q)}"
proof (induction ls arbitrary: found)
  case Nil
  then show ?case by simp
next
  case (Cons l ls)
  have "distinct (f found l)" using Cons.prems by (auto simp: f_def split: option.splits)
  from Cons.IH [OF this] show ?case by (auto simp: f_def split: option.splits)
qed

lemma unrecognized_set:
  "set (unrecognized commits t) =
    {q. q \<noteq> prefix t \<and> (\<exists>c \<in> set commits. \<exists>l \<in> set (lines (message c)). marker_prefix l = Some q)}"
  using unrecognized_fold [of "[]" "prefix t" "concat (map (\<lambda>c. lines (message c)) commits)"]
  by (auto simp: unrecognized_def)

lemma marker_of_prefix:
  assumes "validate_prefix q = Ok ()"
  shows "clean_line (incomplete (trailers_of q))" "marker_prefix (incomplete (trailers_of q)) = Some q"
proof -
  let ?l = "incomplete (trailers_of q)"
  have q: "q \<noteq> []" "is_alnum (hd q)" "CHR 0x0A \<notin> set q" "CHR '':'' \<notin> set q"
    using assms prefix_not by (auto simp: valid_prefix)
  show "clean_line ?l" using q by (simp add: clean_line_def trailers_of_def STATUS_def INCOMPLETE_def code_def)
  have "trim ?l = ?l"
    using q by (intro trim_plain) (simp_all add: trailers_of_def alnum_plain STATUS_def INCOMPLETE_def char_classes)
  moreover have "split_once (CHR '':'') ?l = Some (q @ STATUS, '' '' @ INCOMPLETE)"
    using q by (simp add: split_once_Some trailers_of_def STATUS_def)
  moreover have "trim ('' '' @ INCOMPLETE) = INCOMPLETE"
    using trim_plain(2) [of INCOMPLETE] by (simp add: INCOMPLETE_def plain_char_def ws1_def code_def)
  ultimately show "marker_prefix ?l = Some q"
    using assms by (simp add: marker_prefix_def trailer_prefix_Some strip_suffix_def ends_with_def)
qed

lemma message_marker:
  assumes "validate_prefix q = Ok ()"
  shows "incomplete (trailers_of q) \<in> set (lines (incomplete_message summary base (trailers_of q)))"
proof -
  let ?l = "incomplete (trailers_of q)"
  have l: "clean_line ?l" by (rule marker_of_prefix [OF assms])
  then have "lines ?l = [?l]" by (simp add: lines_single clean_line_def)
  moreover have "lines (?l @ NL @ b) = ?l # lines b" for b by (rule lines_line [OF l])
  ultimately have "?l \<in> set (lines (a @ NL @ ?l @ (case base of None \<Rightarrow> [] | Some b \<Rightarrow> NL @ change_base (trailers_of q) @ '' '' @ b)))" for a
    by (simp add: lines_NL split: option.split)
  from this [of "''chore: preserve '' @ summary @ '' '' @ INCOMPLETE_SUFFIX @ NL @ NL @
     ''Preserved by onevcs after the session did not complete.'' @ NL"]
  show ?thesis by (simp add: incomplete_message_def)
qed

section \<open>The order of subjects\<close>

lemma subject_rank_le: "subject_rank s \<le> 6"
  by (simp add: subject_rank_def Let_def split: option.splits prod.splits)

text \<open>The first entry of a stable sort that fits is first among those of its key.\<close>

lemma find_sorted_least:
  assumes "List.find P (sort_key k xs) = Some x"
  shows "x \<in> set xs" "P x" "\<And>y. y \<in> set xs \<Longrightarrow> P y \<Longrightarrow> k x \<le> k y"
    "List.find P (filter (\<lambda>y. k y = k x) xs) = Some x"
proof -
  show "x \<in> set xs" "P x" using find_SomeD [OF assms] by auto
  obtain a b where ab: "sort_key k xs = a @ x # b" "\<forall>y \<in> set a. \<not> P y"
    using find_split [OF assms] by blast
  show "k x \<le> k y" if "y \<in> set xs" "P y" for y
  proof -
    have "y \<in> set (a @ x # b)" using that(1) ab(1) by (metis set_sort)
    with that(2) ab(2) have "y \<in> set (x # b)" by auto
    moreover have "sorted (map k (a @ x # b))" using sorted_sort_key [of k xs] ab(1) by simp
    ultimately show ?thesis by (auto simp: sorted_append)
  qed
  have "filter (\<lambda>y. k y = k x) xs = filter (\<lambda>y. k y = k x) (a @ x # b)"
    using sort_key_stable [of k "k x" xs] ab(1) by simp
  with ab(2) \<open>P x\<close> show "List.find P (filter (\<lambda>y. k y = k x) xs) = Some x"
    by (simp add: find_skip)
qed

section \<open>Properties\<close>

text \<open>Attesting clears the markers it names: whatever history is preserved under a valid prefix,
  once the commit whose message \<open>attest_message\<close> composes is on top of it nothing
  in it is unattested, and nothing was to attest exactly when \<open>attest_message\<close>
  composes no message.\<close>

theorem attest_clears:
  assumes "validate_prefix p = Ok ()" "\<forall>c \<in> set commits. hex_id (sha c)"
  shows "case attest_message commits (trailers_of p) of
      None \<Rightarrow> unattested commits (trailers_of p) = []
    | Some msg \<Rightarrow> unattested commits (trailers_of p) \<noteq> [] \<and>
        unattested (commits @ [\<lparr>sha = new, message = msg\<rparr>]) (trailers_of p) = []"
proof (cases "unattested commits (trailers_of p) = []")
  case True
  then show ?thesis by (simp add: attest_message_def)
next
  case False
  let ?t = "trailers_of p"
  let ?ss = "sort (unattested commits ?t)"
  let ?msg = "ATTESTATION_SUBJECT @ NL @ NL @ join_with NL (map (\<lambda>s. recovered ?t @ '' '' @ s) ?ss)"
  have ids: "\<forall>s \<in> set ?ss. hex_id s" using assms(2) by (auto simp: unattested_def)
  let ?f = "filter_map (\<lambda>line. strip_prefix (recovered ?t) (trim line))"
  have "?f (lines ?msg) = ?f [ATTESTATION_SUBJECT, []] @ ?f (map (\<lambda>s. recovered ?t @ '' '' @ s) ?ss)"
    by (subst lines_attestation [OF assms(1) ids], subst filter_map_append [symmetric]) simp
  then have "set ?ss \<subseteq> trim ` set (?f (lines ?msg))"
    using arg_cong [OF attested_line [OF assms(1) ids], of set] by (auto simp del: set_sort)
  then have new: "set ?ss \<subseteq> set (attested_shas (commits @ [\<lparr>sha = new, message = ?msg\<rparr>]) ?t)"
    by (auto simp: attested_shas_def)
  then show ?thesis
    using False attestation_not_incomplete [OF assms(1) ids]
    by (auto simp: attest_message_def Let_def unattested_def attested_shas_def filter_empty_conv)
qed

theorem attest_clears_witness:
  "case attest_message [\<lparr>sha = ''ab12'', message = ''wip (incomplete step)''\<rparr>] (trailers_of ''Onevcs-'') of
      None \<Rightarrow> False
    | Some msg \<Rightarrow>
        unattested [\<lparr>sha = ''ab12'', message = ''wip (incomplete step)''\<rparr>,
                    \<lparr>sha = ''cd34'', message = msg\<rparr>] (trailers_of ''Onevcs-'') = []"
proof -
  let ?cs = "[\<lparr>sha = ''ab12'', message = ''wip (incomplete step)''\<rparr>]"
  have "validate_prefix ''Onevcs-'' = Ok ()" by (simp add: validate_prefix_def char_classes)
  moreover have "\<forall>c \<in> set ?cs. hex_id (sha c)" by (simp add: hex_id_def char_classes)
  moreover have "unattested ?cs (trailers_of ''Onevcs-'') \<noteq> []" by code_simp
  ultimately show ?thesis
    using attest_clears [of "''Onevcs-''" ?cs "''cd34''"] by (auto split: option.splits)
qed

text \<open>A stack base written into a message reads back as it was: below whatever body the message
  has, the trailer for a branch git accepts and a full object id is read as that branch merged
  at that head, after whatever merges the body itself records.\<close>

theorem stack_base_roundtrip:
  assumes "validate_prefix p = Ok ()" "object_id head = Some h" "accepts_ref branch"
    "branch \<noteq> []" "plain_char (hd branch)" "CHR 0x0A \<notin> set branch"
  shows "stack_merges accepts_ref (body @ NL @ stack_base_trailer (trailers_of p) branch head) (trailers_of p) =
    stack_merges accepts_ref (body @ NL) (trailers_of p) @ [\<lparr>merged_branch = branch, merged_head = h\<rparr>]"
proof -
  let ?t = "trailers_of p" and ?v = "branch @ ''@'' @ head"
  let ?l = "stack_base ?t @ '' '' @ ?v"
  have h: "h = head" "hex_id head" using object_id_hex [OF assms(2)] by auto
  then have head: "head \<noteq> []" "is_hexdigit (last head)" "CHR 0x0A \<notin> set head" "CHR ''@'' \<notin> set head"
    using hex_not hex_chars by (auto simp: hex_id_def)
  have p: "p \<noteq> []" "is_alnum (hd p)" "CHR 0x0A \<notin> set p"
    using assms(1) prefix_not by (auto simp: valid_prefix)
  have "trim ?l = ?l"
    using p head by (intro trim_plain) (simp_all add: trailers_of_def alnum_plain hex_plain)
  moreover have "trim ('' '' @ ?v) = ?v"
    using trim_plain [of ?v] assms(4,5) head by (simp add: hex_plain)
  moreover have "rsplit_once (CHR ''@'') ?v = Some (branch, head)"
    using head by (simp add: rsplit_once_def)
  moreover have "lines ?l = [?l]"
    using p head assms(6) lines_single [of ?l] by (simp add: trailers_of_def)
  ultimately show ?thesis
    using lines_NL [of body "[]"] lines_NL [of body ?l] h assms(2,3)
    by (simp add: stack_merges_def stack_base_trailer_def) (simp add: lines_def)
qed

theorem stack_base_roundtrip_witness:
  "stack_merges (\<lambda>b. b = ''main'')
     (''merge'' @ NL @ stack_base_trailer (trailers_of ''Onevcs-'') ''main'' (replicate 40 (CHR ''a''))) (trailers_of ''Onevcs-'') =
   stack_merges (\<lambda>b. b = ''main'') (''merge'' @ NL) (trailers_of ''Onevcs-'') @
     [\<lparr>merged_branch = ''main'', merged_head = replicate 40 (CHR ''a'')\<rparr>]"
  by (rule stack_base_roundtrip)
    (simp_all add: validate_prefix_def object_id_def list_all_iff plain_char_def ws1_def char_classes)

text \<open>A marker written under one prefix is not lost when the prefix changes: read under another
  one, the commit still counts as interrupted work and its prefix is among the unrecognized
  ones, which name each prefix once and never the reader's own.\<close>

theorem foreign_marker_reported:
  assumes "validate_prefix q = Ok ()" "q \<noteq> p" "c \<in> set commits"
    "message c = incomplete_message summary base (trailers_of q)"
  shows "is_incomplete (message c) (trailers_of p) \<and> q \<in> set (unrecognized commits (trailers_of p)) \<and>
    p \<notin> set (unrecognized commits (trailers_of p)) \<and> distinct (unrecognized commits (trailers_of p))"
proof -
  have "contains INCOMPLETE_SUFFIX (message c)"
    unfolding contains_iff
    by (intro exI [of _ "''chore: preserve '' @ summary @ '' ''"] exI) (simp add: assms(4) incomplete_message_def)
  moreover have "q \<in> set (unrecognized commits (trailers_of p))"
    unfolding unrecognized_set
    using assms(2,3) message_marker [OF assms(1), of summary base] marker_of_prefix(2) [OF assms(1)]
    by (auto simp: assms(4) trailers_of_def intro!: bexI [of _ c])
  moreover have "p \<notin> set (unrecognized commits (trailers_of p))"
    by (simp add: unrecognized_set) (simp add: trailers_of_def)
  moreover have "distinct (unrecognized commits (trailers_of p))"
    using unrecognized_fold [of "[]"] by (simp add: unrecognized_def)
  ultimately show ?thesis by (simp add: is_incomplete_def)
qed

theorem foreign_marker_reported_witness:
  "''Old-'' \<in> set (unrecognized
      [\<lparr>sha = ''ab12'', message = incomplete_message ''work'' (Some ''main'') (trailers_of ''Old-'')\<rparr>] (trailers_of ''New-''))"
  by (rule conjunct1 [OF conjunct2 [OF foreign_marker_reported
        [where summary = "''work''" and base = "Some ''main''", OF _ _ list.set_intros(1)]]]) (simp_all add: validate_prefix_def char_classes)

text \<open>The derived subject is the most significant one that fits: it is the subject line of a
  commit that describes a change, no fitting subject ranks above it, and of those of its own
  rank it is the first in history; when there is no such subject the answer is an error that
  says whether the history described anything at all.\<close>

theorem subject_is_most_significant:
  "case publication_subject commits None t of
     Inr s \<Rightarrow>
       (subject_rank s, s) \<in> set (ranked_subjects commits t) \<and> length s \<le> SUBJECT_LIMIT \<and>
       (\<nexists>r. r \<in> set (ranked_subjects commits t) \<and> length (snd r) \<le> SUBJECT_LIMIT \<and> subject_rank s < fst r) \<and>
       List.find (\<lambda>r. length (snd r) \<le> SUBJECT_LIMIT)
         (filter (\<lambda>r. fst r = subject_rank s) (ranked_subjects commits t)) = Some (subject_rank s, s)
   | Inl e \<Rightarrow>
       (\<nexists>r. r \<in> set (ranked_subjects commits t) \<and> length (snd r) \<le> SUBJECT_LIMIT) \<and>
       e = (if filter (\<lambda>c. \<not> is_provenance (message c) t) commits = [] then NoDescribingCommit else NoSubjectFits)"
proof -
  let ?xs = "ranked_subjects commits t"
  let ?P = "\<lambda>r :: nat \<times> str. length (snd r) \<le> SUBJECT_LIMIT"
  have rank: "fst r = subject_rank (snd r)" "fst r \<le> 6" if "r \<in> set ?xs" for r
    using that subject_rank_le by (auto simp: ranked_subjects_def)
  have P: "(\<lambda>(rank, subject). length subject \<le> SUBJECT_LIMIT) = ?P"
    and k: "(\<lambda>(rank :: nat, subject :: str). 6 - rank) = (\<lambda>r. 6 - fst r)" by (auto simp: fun_eq_iff)
  have none: "?xs = []" if "filter (\<lambda>c. \<not> is_provenance (message c) t) commits = []"
    using that by (simp add: ranked_subjects_def)
  show ?thesis
  proof (cases "List.find ?P (sort_key (\<lambda>r. 6 - fst r) ?xs)")
    case None
    then have "\<forall>r \<in> set ?xs. \<not> ?P r" by (simp add: find_None)
    with None show ?thesis by (auto simp: publication_subject_def P k)
  next
    case (Some r)
    note least = find_sorted_least [OF Some]
    have r: "r = (subject_rank (snd r), snd r)" using rank(1) [OF least(1)] by (cases r) simp
    have "filter (\<lambda>y. 6 - fst y = 6 - fst r) ?xs = filter (\<lambda>y. fst y = fst r) ?xs"
      using rank(2) rank(2) [OF least(1)] by (intro filter_cong) fastforce+
    moreover have "\<not> fst r < fst y" if "y \<in> set ?xs" "?P y" for y
      using least(3) [OF that] rank(2) [OF that(1)] rank(2) [OF least(1)] by simp
    moreover have "publication_subject commits None t = Ok (snd r)"
      using Some none least(1) by (auto simp: publication_subject_def P k split: prod.split)
    moreover have "fst r = subject_rank (snd r)" using rank(1) [OF least(1)] .
    ultimately show ?thesis
      using least(1,2,4) r by (auto simp del: SUBJECT_LIMIT_def)
  qed
qed

end
