(* ===== verification/Events.thy ===== *)
theory Events
  imports Json
begin

text \<open>
  The vocabulary of the event stream (\<open>event.rs\<close>, \<open>significance.rs\<close>): the closed kinds and
  their spelling on the wire, the phase each belongs to, the table that decides how much
  attention an event asks for, and the reading of one line as far as this build's words reach.
\<close>

section \<open>Kinds and their spelling\<close>

datatype event_kind =
    SessionOpened | Fetch | LockWait | LockAcquired | CommitPreserved | BranchPreserved | Push
    | ChangeOpened | ChangeDrafted | DraftLifted | DraftLiftedEarly | DraftKeptForReview
    | ChecksSettled | ChangeDescribed | ChangeCheck | ChangeMerged | BaseArrived | MergeQueued
    | MergeCompleted | RecoveryAttested | SyncConflict | SessionClosed | ReleaseProbed
    | ReleaseAcknowledged | ReleaseObserved | BranchSuperseded | BranchRetired | GateRun
    | ReviewCommentsRead | ReviewReplyPosted | StackBaseAssembled | ChangeStandingsRead
    | ChangeRetargeted | ChangeReopened | BaseMerge | MergeArmed | PublicationResumed

definition every_kind :: "event_kind list" where
  "every_kind =
     [SessionOpened, Fetch, LockWait, LockAcquired, CommitPreserved, BranchPreserved, Push
      , ChangeOpened, ChangeDrafted, DraftLifted, DraftLiftedEarly, DraftKeptForReview
      , ChecksSettled, ChangeDescribed, ChangeCheck, ChangeMerged, BaseArrived, MergeQueued
      , MergeCompleted, RecoveryAttested, SyncConflict, SessionClosed, ReleaseProbed
      , ReleaseAcknowledged, ReleaseObserved, BranchSuperseded, BranchRetired, GateRun
      , ReviewCommentsRead, ReviewReplyPosted, StackBaseAssembled, ChangeStandingsRead
      , ChangeRetargeted, ChangeReopened, BaseMerge, MergeArmed, PublicationResumed]"

text \<open>The spelling \<open>wire\<close> answers with.\<close>

fun wire :: "event_kind \<Rightarrow> str" where
  "wire SessionOpened = ''session-opened''"
| "wire Fetch = ''fetch''"
| "wire LockWait = ''lock-wait''"
| "wire LockAcquired = ''lock-acquired''"
| "wire CommitPreserved = ''commit-preserved''"
| "wire BranchPreserved = ''branch-preserved''"
| "wire Push = ''push''"
| "wire ChangeOpened = ''change-opened''"
| "wire ChangeDrafted = ''change-drafted''"
| "wire DraftLifted = ''draft-lifted''"
| "wire DraftLiftedEarly = ''draft-lifted-early''"
| "wire DraftKeptForReview = ''draft-kept-for-review''"
| "wire ChecksSettled = ''checks-settled''"
| "wire ChangeDescribed = ''change-described''"
| "wire ChangeCheck = ''change-check''"
| "wire ChangeMerged = ''change-merged''"
| "wire BaseArrived = ''base-arrived''"
| "wire MergeQueued = ''merge-queued''"
| "wire MergeCompleted = ''merge-completed''"
| "wire RecoveryAttested = ''recovery-attested''"
| "wire SyncConflict = ''sync-conflict''"
| "wire SessionClosed = ''session-closed''"
| "wire ReleaseProbed = ''release-probed''"
| "wire ReleaseAcknowledged = ''release-acknowledged''"
| "wire ReleaseObserved = ''release-observed''"
| "wire BranchSuperseded = ''branch-superseded''"
| "wire BranchRetired = ''branch-retired''"
| "wire GateRun = ''gate-run''"
| "wire ReviewCommentsRead = ''review-comments-read''"
| "wire ReviewReplyPosted = ''review-reply-posted''"
| "wire StackBaseAssembled = ''stack-base-assembled''"
| "wire ChangeStandingsRead = ''change-standings-read''"
| "wire ChangeRetargeted = ''change-retargeted''"
| "wire ChangeReopened = ''change-reopened''"
| "wire BaseMerge = ''base-merge''"
| "wire MergeArmed = ''merge-armed''"
| "wire PublicationResumed = ''publication-resumed''"

text \<open>
  \<open>named\<close> reads through serde: a variant's identifier under \<open>rename_all = "kebab-case"\<close>, an
  underscore before each upper-case letter after the first, lower-cased, with a dash for it.
\<close>

fun variant :: "event_kind \<Rightarrow> str" where
  "variant SessionOpened = ''SessionOpened''"
| "variant Fetch = ''Fetch''"
| "variant LockWait = ''LockWait''"
| "variant LockAcquired = ''LockAcquired''"
| "variant CommitPreserved = ''CommitPreserved''"
| "variant BranchPreserved = ''BranchPreserved''"
| "variant Push = ''Push''"
| "variant ChangeOpened = ''ChangeOpened''"
| "variant ChangeDrafted = ''ChangeDrafted''"
| "variant DraftLifted = ''DraftLifted''"
| "variant DraftLiftedEarly = ''DraftLiftedEarly''"
| "variant DraftKeptForReview = ''DraftKeptForReview''"
| "variant ChecksSettled = ''ChecksSettled''"
| "variant ChangeDescribed = ''ChangeDescribed''"
| "variant ChangeCheck = ''ChangeCheck''"
| "variant ChangeMerged = ''ChangeMerged''"
| "variant BaseArrived = ''BaseArrived''"
| "variant MergeQueued = ''MergeQueued''"
| "variant MergeCompleted = ''MergeCompleted''"
| "variant RecoveryAttested = ''RecoveryAttested''"
| "variant SyncConflict = ''SyncConflict''"
| "variant SessionClosed = ''SessionClosed''"
| "variant ReleaseProbed = ''ReleaseProbed''"
| "variant ReleaseAcknowledged = ''ReleaseAcknowledged''"
| "variant ReleaseObserved = ''ReleaseObserved''"
| "variant BranchSuperseded = ''BranchSuperseded''"
| "variant BranchRetired = ''BranchRetired''"
| "variant GateRun = ''GateRun''"
| "variant ReviewCommentsRead = ''ReviewCommentsRead''"
| "variant ReviewReplyPosted = ''ReviewReplyPosted''"
| "variant StackBaseAssembled = ''StackBaseAssembled''"
| "variant ChangeStandingsRead = ''ChangeStandingsRead''"
| "variant ChangeRetargeted = ''ChangeRetargeted''"
| "variant ChangeReopened = ''ChangeReopened''"
| "variant BaseMerge = ''BaseMerge''"
| "variant MergeArmed = ''MergeArmed''"
| "variant PublicationResumed = ''PublicationResumed''"

fun kebab_rest :: "str \<Rightarrow> str" where
  "kebab_rest [] = []"
| "kebab_rest (c # s) =
     (if is_upper c then CHR ''-'' # to_ascii_lowercase [c] @ kebab_rest s else c # kebab_rest s)"

definition kebab :: "str \<Rightarrow> str" where
  "kebab s = (case s of [] \<Rightarrow> [] | c # s \<Rightarrow> to_ascii_lowercase [c] @ kebab_rest s)"

definition named :: "str \<Rightarrow> event_kind option" where
  "named s = List.find (\<lambda>k. kebab (variant k) = s) every_kind"

section \<open>Phases\<close>

datatype phase = Development | Integrate | Review | Release

definition of_kind :: "event_kind \<Rightarrow> phase option" where
  "of_kind k =
     (case k of
        SessionOpened \<Rightarrow> Some Development | Fetch \<Rightarrow> Some Development
      | LockWait \<Rightarrow> Some Development | LockAcquired \<Rightarrow> Some Development
      | CommitPreserved \<Rightarrow> Some Development | BranchPreserved \<Rightarrow> Some Development
      | RecoveryAttested \<Rightarrow> Some Development | SessionClosed \<Rightarrow> Some Development
      | MergeQueued \<Rightarrow> Some Integrate | MergeCompleted \<Rightarrow> Some Integrate
      | SyncConflict \<Rightarrow> Some Integrate | BaseArrived \<Rightarrow> Some Integrate
      | BaseMerge \<Rightarrow> Some Integrate
      | BranchSuperseded \<Rightarrow> Some Integrate | BranchRetired \<Rightarrow> Some Integrate
      | StackBaseAssembled \<Rightarrow> Some Integrate
      | ReleaseProbed \<Rightarrow> Some Release | ReleaseAcknowledged \<Rightarrow> Some Release
      | ReleaseObserved \<Rightarrow> Some Release
      | Push \<Rightarrow> None | GateRun \<Rightarrow> None
      | _ \<Rightarrow> Some Review)"

definition phase_of :: "event_kind \<Rightarrow> phase" where
  "phase_of k = (case of_kind k of Some p \<Rightarrow> p | None \<Rightarrow> Development)"

section \<open>Significance\<close>

datatype check_state = CheckPassed | CheckFailed | CheckSkipped | CheckPending | CheckNoVerdict

datatype significance = Milestone | Blocker | Progress | Attention

datatype emission_result =
    Success
  | Failed
  | Check bool check_state      \<comment> \<open>whether it is required, and what it reported\<close>
  | Passed
  | PassedWithSkipped
  | NoVerdict

definition blocked :: "emission_result \<Rightarrow> bool" where
  "blocked result =
     (case result of
        Failed \<Rightarrow> True
      | Check required state \<Rightarrow> required \<and> (state = CheckFailed \<or> state = CheckNoVerdict)
      | NoVerdict \<Rightarrow> True
      | _ \<Rightarrow> False)"

definition significance_of :: "event_kind \<Rightarrow> emission_result \<Rightarrow> significance" where
  "significance_of kind result =
     (if kind = ChangeCheck \<and> (result = Check False CheckFailed \<or> result = Check False CheckNoVerdict)
      then Attention
      else if blocked result then Blocker
      else if kind \<in> {ChangeOpened, ChangeDrafted, ChangeMerged, BaseArrived} then Milestone
      else if kind = ChecksSettled
      then (if result = Passed \<or> result = PassedWithSkipped then Milestone else Blocker)
      else if kind = SyncConflict \<or> kind = DraftKeptForReview then Blocker
      else Progress)"

section \<open>One line of a stream\<close>

record envelope =
  env_version :: nat
  env_ts :: str
  env_stream :: str
  env_kind :: str
  phase_stamp :: "phase option"

datatype line =
    Known event_kind envelope
  | Unknown nat str str str      \<comment> \<open>the version, the stamp, the stream and the kind\<close>

definition line_of :: "envelope \<Rightarrow> line" where
  "line_of e =
     (case named (env_kind e) of
        None \<Rightarrow> Unknown (env_version e) (env_ts e) (env_stream e) (env_kind e)
      | Some k \<Rightarrow>
          Known k (e\<lparr>phase_stamp :=
            (case phase_stamp e of Some p \<Rightarrow> Some p | None \<Rightarrow> Some (phase_of k))\<rparr>))"

fun line_stream :: "line \<Rightarrow> str" where
  "line_stream (Known k e) = env_stream e"
| "line_stream (Unknown _ _ s _) = s"

section \<open>Properties\<close>

lemma every_kind_all: "k \<in> set every_kind"
  by (cases k) (simp_all add: every_kind_def)

lemma kebab_wire: "kebab (variant k) = wire k"
proof -
  have "list_all (\<lambda>k. kebab (variant k) = wire k) every_kind" by code_simp
  then show ?thesis using every_kind_all by (simp add: list_all_iff)
qed

lemma wire_injective: "wire k = wire k' \<longleftrightarrow> k = k'"
proof -
  have "distinct (map wire every_kind)" by code_simp
  then show ?thesis using every_kind_all by (meson distinct_map inj_onD)
qed

lemma named_Some: "named s = Some k \<longleftrightarrow> s = wire k"
proof
  assume "named s = Some k"
  then show "s = wire k" using find_SomeD [of _ every_kind] by (fastforce simp: named_def kebab_wire)
next
  assume "s = wire k"
  with every_kind_all [of k] show "named s = Some k"
    by (cases "named s") (auto simp: named_def kebab_wire wire_injective find_None dest!: find_SomeD)
qed

text \<open>The wire spelling of every kind is the one the reader takes it back from, and no other
  spelling is read as it: the two tables cannot come apart.\<close>

theorem kinds_roundtrip:
  "(named s = Some k \<longleftrightarrow> s = wire k) \<and> (wire k = wire k' \<longleftrightarrow> k = k')"
  by (simp add: named_Some wire_injective)

text \<open>A failure is never quiet and blocks exactly when it decides something: a failed attempt or a
  ruling without a verdict is a blocker whatever kind it is, a check that failed or ended with
  no verdict is a blocker where the merge path requires it and asks for attention where it does
  not, and a check that passed, was skipped or is still pending is ordinary progress.\<close>

theorem failures_are_not_quiet:
  "significance_of k Failed = Blocker \<and> significance_of k NoVerdict = Blocker \<and>
   significance_of ChangeCheck (Check required state) =
     (if state \<in> {CheckFailed, CheckNoVerdict} then (if required then Blocker else Attention)
      else Progress)"
  by (cases state) (auto simp: significance_of_def blocked_def)

text \<open>Reading a line keeps what its writer stamped: the line is known exactly when its kind is one
  this build writes, the stream it names is kept either way, and a known line has a phase, the
  producer's own where there is one and the kind's otherwise.\<close>

theorem line_keeps_what_was_stamped:
  "line_stream (line_of e) = env_stream e \<and>
   (case line_of e of
      Known k e' \<Rightarrow> env_kind e = wire k \<and> env_version e' = env_version e \<and> env_ts e' = env_ts e \<and> env_kind e' = env_kind e \<and>
        phase_stamp e' = (if phase_stamp e = None then Some (phase_of k) else phase_stamp e)
    | Unknown v' ts' s' k' \<Rightarrow> (\<nexists>k. env_kind e = wire k) \<and> v' = env_version e \<and> ts' = env_ts e \<and> k' = env_kind e)"
proof (cases "named (env_kind e)")
  case None
  then have unnamed: "\<nexists>k. env_kind e = wire k" by (metis named_Some option.distinct(1))
  have line: "line_of e = Unknown (env_version e) (env_ts e) (env_stream e) (env_kind e)" using None by (simp add: line_of_def)
  from unnamed show ?thesis unfolding line by simp
next
  case (Some k)
  then have k: "env_kind e = wire k" by (simp add: named_Some)
  let ?e = "e\<lparr>phase_stamp := (case phase_stamp e of Some p \<Rightarrow> Some p | None \<Rightarrow> Some (phase_of k))\<rparr>"
  have line: "line_of e = Known k ?e" using Some by (simp add: line_of_def)
  have "phase_stamp ?e = (if phase_stamp e = None then Some (phase_of k) else phase_stamp e)"
    by (cases "phase_stamp e") simp_all
  then show ?thesis unfolding line by (simp add: k)
qed

end
