(* ===== verification/Leases.thy ===== *)
theory Leases
  imports Policy
begin

text \<open>
  The advisory locks of \<open>lock.rs\<close>: one file per identity, held by any number of shared
  holders or by a single exclusive one, and released when its holder drops it or dies. The
  kernel's rule for granting a lock is the one \<open>flock\<close> documents. The lock file of an
  identity is named by its SHA-256 digest; the table here is keyed by the identity itself.
  How long a blocking taker waits is not modelled; the bound on the wait is.
\<close>

section \<open>The bound on a wait\<close>

definition DEFAULT_TIMEOUT_SECONDS :: f64 where "DEFAULT_TIMEOUT_SECONDS = Finite 900"

datatype lock_error = NotANumber str | UnusableBound str

definition timeout_seconds :: "(str \<Rightarrow> f64 option) \<Rightarrow> str option \<Rightarrow> lock_error + f64" where
  "timeout_seconds parse_f64 env =
     (case env of
        None \<Rightarrow> Ok DEFAULT_TIMEOUT_SECONDS
      | Some raw \<Rightarrow>
          and_then (ok_or (parse_f64 (trim raw)) (NotANumber raw)) (\<lambda>value.
            case value of
              Finite x \<Rightarrow> (if x \<le> 0 then Err (UnusableBound raw) else Ok value)
            | _ \<Rightarrow> Err (UnusableBound raw)))"

section \<open>Lock files\<close>

datatype mode = Shared | Exclusive

type_synonym handle = nat

record lock_file =
  holders :: "(handle \<times> mode) list"
  stamp_text :: str

type_synonym locks = "str \<Rightarrow> lock_file"

definition unheld :: locks where
  "unheld = (\<lambda>_. \<lparr>holders = [], stamp_text = []\<rparr>)"

definition git_identity :: "str \<Rightarrow> str" where
  "git_identity common_dir = ''git:'' @ common_dir"

text \<open>What the kernel grants an open file description that holds nothing yet.\<close>

definition granted :: "mode \<Rightarrow> (handle \<times> mode) list \<Rightarrow> bool" where
  "granted mode hs =
     (case mode of Shared \<Rightarrow> list_all (\<lambda>(_, m). m = Shared) hs | Exclusive \<Rightarrow> hs = [])"

definition record_owner :: "nat \<Rightarrow> lock_file \<Rightarrow> lock_file" where
  "record_owner pid f = f\<lparr>stamp_text := ''pid='' @ show_nat pid\<rparr>"

definition try_acquire :: "nat \<Rightarrow> handle \<Rightarrow> mode \<Rightarrow> str \<Rightarrow> locks \<Rightarrow> bool \<times> locks" where
  "try_acquire pid h mode identity l =
     (let f = l identity
      in if granted mode (holders f)
         then (True, l(identity :=
                 (if mode = Exclusive then record_owner pid f else f)\<lparr>holders := (h, mode) # holders f\<rparr>))
         else (False, l))"

definition try_shared :: "nat \<Rightarrow> handle \<Rightarrow> str \<Rightarrow> locks \<Rightarrow> bool \<times> locks" where
  "try_shared pid h identity l = try_acquire pid h Shared identity l"

definition try_exclusive :: "nat \<Rightarrow> handle \<Rightarrow> str \<Rightarrow> locks \<Rightarrow> bool \<times> locks" where
  "try_exclusive pid h identity l = try_acquire pid h Exclusive identity l"

text \<open>A guard dropped, and everything a process held when it died.\<close>

definition drop_guard :: "handle \<Rightarrow> str \<Rightarrow> locks \<Rightarrow> locks" where
  "drop_guard h identity l =
     l(identity := (l identity)\<lparr>holders := filter (\<lambda>(g, _). g \<noteq> h) (holders (l identity))\<rparr>)"

definition drop_all :: "handle \<Rightarrow> locks \<Rightarrow> locks" where
  "drop_all h l = (\<lambda>identity. (l identity)\<lparr>holders := filter (\<lambda>(g, _). g \<noteq> h) (holders (l identity))\<rparr>)"

text \<open>\<open>Guard::share\<close>, where the platform converts a lock in place.\<close>

definition share :: "handle \<Rightarrow> str \<Rightarrow> locks \<Rightarrow> bool \<times> locks" where
  "share h identity l =
     (let f = l identity; others = filter (\<lambda>(g, _). g \<noteq> h) (holders f)
      in if granted Shared others
         then (True, l(identity := f\<lparr>holders := (h, Shared) # others\<rparr>)) else (False, l))"

definition is_occupied :: "str \<Rightarrow> locks \<Rightarrow> bool" where
  "is_occupied identity l \<longleftrightarrow> \<not> granted Exclusive (holders (l identity))"

text \<open>\<open>try_exclusive(\<dots>)?.is_none()\<close>: the guard of a granted probe is dropped at once.\<close>

definition probe :: "nat \<Rightarrow> handle \<Rightarrow> str \<Rightarrow> locks \<Rightarrow> bool \<times> locks" where
  "probe pid h identity l =
     (let (taken, l) = try_exclusive pid h identity l
      in if taken then (False, drop_guard h identity l) else (True, l))"

definition recorded_owner :: "str option \<Rightarrow> str" where
  "recorded_owner stored =
     (case stored of None \<Rightarrow> ''unknown owner''
      | Some value \<Rightarrow> (if trim value = [] then ''unknown owner'' else trim value))"

definition stamped_owner :: "str option \<Rightarrow> nat option" where
  "stamped_owner stored =
     Option.bind (Option.bind stored (\<lambda>value. strip_prefix ''pid='' (trim value)))
       (parse_uint (2 ^ 32 - 1))"

section \<open>The contract of a lease\<close>

definition held :: "handle \<Rightarrow> str \<Rightarrow> locks \<Rightarrow> bool" where
  "held h identity l \<longleftrightarrow> h \<in> fst ` set (holders (l identity))"

text \<open>
  What a queue of leases relies on: a probe says whether anybody holds a name, moves nobody's
  hold, and a lease is held from when it is taken until it is dropped.
\<close>

locale leases =
  fixes holds :: "'h \<Rightarrow> str \<Rightarrow> 'l \<Rightarrow> bool"
    and asks :: "str \<Rightarrow> 'l \<Rightarrow> bool \<times> 'l"
    and drops :: "'h \<Rightarrow> str \<Rightarrow> 'l \<Rightarrow> 'l"
  assumes asks_holds: "holds h n (snd (asks m l)) = holds h n l"
    and asks_answer: "fst (asks m l) \<longleftrightarrow> (\<exists>h. holds h m l)"
    and drops_holds: "holds h n (drops g m l) \<longleftrightarrow> holds h n l \<and> \<not> (h = g \<and> n = m)"

text \<open>What is left of a list of names when each is asked about in turn: the ones still held.\<close>

fun reap_with :: "(str \<Rightarrow> 'l \<Rightarrow> bool \<times> 'l) \<Rightarrow> (str \<Rightarrow> str) \<Rightarrow> str list \<Rightarrow> 'l \<Rightarrow> str list \<times> 'l" where
  "reap_with asks named [] l = ([], l)"
| "reap_with asks named (t # ts) l =
     (let (live, l) = asks (named t) l;
          (rest, l) = reap_with asks named ts l
      in (if live then t # rest else rest, l))"

context leases
begin

lemma reap_holds: "holds h n (snd (reap_with asks named ts l)) = holds h n l"
proof (induction ts arbitrary: l)
  case (Cons t ts)
  obtain b l' where a: "asks (named t) l = (b, l')" by fastforce
  then have "holds h n l' = holds h n l" using asks_holds [of h n "named t" l] by simp
  with Cons.IH [of l'] show ?case by (simp add: a Let_def split_beta)
qed simp

lemma reap_live: "fst (reap_with asks named ts l) = filter (\<lambda>t. \<exists>h. holds h (named t) l) ts"
proof (induction ts arbitrary: l)
  case (Cons t ts)
  obtain b l' where a: "asks (named t) l = (b, l')" by fastforce
  have "holds h n l' = holds h n l" for h n using asks_holds [of h n "named t" l] a by simp
  moreover have "b \<longleftrightarrow> (\<exists>h. holds h (named t) l)" using asks_answer [of "named t" l] a by simp
  ultimately show ?case using Cons.IH [of l'] by (simp add: a Let_def split_beta)
qed simp

text \<open>The names left behind by holders that dropped them are the ones a reaping takes.\<close>

lemma reap_after_drop:
  assumes "\<And>h. holds h (named t) l \<Longrightarrow> h = g"
  shows "t \<notin> set (fst (reap_with asks named ts (drops g (named t) l)))"
  using assms by (auto simp: reap_live drops_holds)

end

lemma held_simps [simp]:
  "held h n (drop_guard g m l) \<longleftrightarrow> held h n l \<and> \<not> (h = g \<and> n = m)"
  "held h n (drop_all g l) \<longleftrightarrow> held h n l \<and> h \<noteq> g"
  by (auto simp: held_def drop_guard_def drop_all_def image_iff Bex_def)

lemma held_try_shared:
  "held h n (snd (try_shared pid g m l)) \<longleftrightarrow>
     held h n l \<or> (fst (try_shared pid g m l) \<and> h = g \<and> n = m)"
  by (auto simp: held_def try_shared_def try_acquire_def Let_def)

lemma probe_held: "held h n (snd (probe pid g m l)) = held h n l"
  by (auto simp: held_def probe_def try_exclusive_def try_acquire_def granted_def drop_guard_def
      Let_def record_owner_def image_iff)

lemma probe_answer: "fst (probe pid g m l) \<longleftrightarrow> (\<exists>h. held h m l)"
  by (cases "holders (l m)")
    (auto simp: held_def probe_def try_exclusive_def try_acquire_def granted_def Let_def)

interpretation lock_files: leases held "probe pid g" drop_guard for pid g
  by unfold_locales (simp_all add: probe_held probe_answer)

text \<open>A probe is definite and disturbs nobody: it answers that an identity is occupied exactly
  when somebody holds it, which is what \<open>is_occupied\<close> answers, and every hold of
  every identity stands as it did; an exclusive hold is granted to one holder only, and never
  beside a shared one.\<close>

theorem occupancy_is_definite:
  "(fst (probe pid g m l) \<longleftrightarrow> is_occupied m l) \<and> (is_occupied m l \<longleftrightarrow> (\<exists>h. held h m l)) \<and>
   (held h n (snd (probe pid g m l)) \<longleftrightarrow> held h n l) \<and>
   (fst (try_exclusive pid g m l) \<longleftrightarrow> (\<nexists>h. held h m l)) \<and>
   (fst (try_shared pid g m l) \<longleftrightarrow> (\<nexists>h. (h, Exclusive) \<in> set (holders (l m))))"
proof -
  have "is_occupied m l \<longleftrightarrow> (\<exists>h. held h m l)"
    by (cases "holders (l m)") (auto simp: is_occupied_def granted_def held_def)
  moreover have "fst (try_exclusive pid g m l) \<longleftrightarrow> (\<nexists>h. held h m l)"
    by (cases "holders (l m)") (auto simp: try_exclusive_def try_acquire_def granted_def held_def Let_def)
  moreover have "fst (try_shared pid g m l) \<longleftrightarrow> (\<nexists>h. (h, Exclusive) \<in> set (holders (l m)))"
    by (auto simp: try_shared_def try_acquire_def granted_def Let_def list_all_iff) (metis mode.exhaust)
  ultimately show ?thesis by (simp add: probe_answer probe_held)
qed

end
