(* ===== verification/MergeQueue.thy ===== *)
theory MergeQueue
  imports Leases
begin

text \<open>
  The first-in first-out merge queue of an identity (\<open>queue.rs\<close>): the document of tickets,
  the reaping of those whose holder is gone, and the turn a publication takes. A look at the
  queue runs under the queue's own lock, so it is one step; the steps of different processes
  interleave freely, and any of them may die between two of its own. One handle stands for one
  call of \<open>turn\<close>. How long a waiter waits is not modelled: it may give up at every look.
\<close>

section \<open>The stored queue\<close>

datatype queue_file = Absent | Garbled | Queue nat "str list"

datatype queue_error = UnreadableState | UnreadVersion nat

definition read_state :: "queue_file \<Rightarrow> queue_error + str list" where
  "read_state f =
     (case f of
        Absent \<Rightarrow> Ok []
      | Garbled \<Rightarrow> Err UnreadableState
      | Queue n ts \<Rightarrow> (if n \<noteq> 1 then Err (UnreadVersion n) else Ok ts))"

definition ticket_identity :: "str \<Rightarrow> str \<Rightarrow> str" where
  "ticket_identity idn ticket = ''merge-queue-ticket:'' @ idn @ '':'' @ ticket"

definition state_identity :: "str \<Rightarrow> str" where
  "state_identity idn = ''merge-queue-state:'' @ idn"

definition state_name :: "(str \<Rightarrow> str) \<Rightarrow> str \<Rightarrow> str" where
  "state_name short_digest idn =
     ''queue-'' @ map (\<lambda>c. if is_alnum c then c else CHR ''-'') (rev (take 48 (rev idn))) @
     ''-'' @ short_digest idn @ ''.json''"

datatype phase =
    Outside
  | Claimed str
  | Waiting str nat     \<comment> \<open>the ticket and the position it was taken at\<close>
  | Turning str nat
  | Ending str
  | Gone

record world =
  stored :: queue_file
  held_locks :: locks
  procs :: "handle \<Rightarrow> phase"
  issued :: "str set"

definition reap :: "nat \<Rightarrow> str \<Rightarrow> str list \<Rightarrow> locks \<Rightarrow> str list \<times> locks" where
  "reap p idn = reap_with (probe p p) (ticket_identity idn)"

definition mutate ::
    "nat \<Rightarrow> str \<Rightarrow> (str list \<Rightarrow> str list \<times> 't) \<Rightarrow> world \<Rightarrow> (queue_error + 't) \<times> world" where
  "mutate p idn change w =
     (case read_state (stored w) of
        Inl e \<Rightarrow> (Err e, w)
      | Inr ts \<Rightarrow>
          (let (live, l) = reap p idn ts (held_locks w);
               (ts', outcome) = change live
           in (Ok outcome, w\<lparr>stored := Queue 1 ts', held_locks := l\<rparr>)))"

text \<open>The changes a turn makes: its ticket queued, looked for at the head, and taken back.\<close>

definition push_ticket :: "str \<Rightarrow> str list \<Rightarrow> str list \<times> nat" where
  "push_ticket t ts = (ts @ [t], length (ts @ [t]))"

definition at_head :: "str \<Rightarrow> str list \<Rightarrow> str list \<times> bool" where
  "at_head t ts = (ts, case ts of [] \<Rightarrow> False | u # _ \<Rightarrow> u = t)"

definition take_back :: "str \<Rightarrow> str list \<Rightarrow> str list \<times> unit" where
  "take_back t ts = (filter (\<lambda>u. u \<noteq> t) ts, ())"

section \<open>Turns\<close>

definition moved :: "handle \<Rightarrow> phase \<Rightarrow> world \<Rightarrow> world" where
  "moved p ph w = w\<lparr>procs := (procs w)(p := ph)\<rparr>"

definition released :: "str \<Rightarrow> handle \<Rightarrow> str \<Rightarrow> world \<Rightarrow> world" where
  "released idn p t w =
     moved p Gone (w\<lparr>held_locks := drop_guard p (ticket_identity idn t) (held_locks w)\<rparr>)"

inductive step :: "str \<Rightarrow> world \<Rightarrow> world \<Rightarrow> bool" for idn where
  claim: "procs w p = Outside \<Longrightarrow> t \<notin> issued w \<Longrightarrow>
    try_shared p p (ticket_identity idn t) (held_locks w) = (True, l) \<Longrightarrow>
    step idn w (moved p (Claimed t) (w\<lparr>held_locks := l, issued := insert t (issued w)\<rparr>))"
| refused: "procs w p = Outside \<Longrightarrow> t \<notin> issued w \<Longrightarrow>
    try_shared p p (ticket_identity idn t) (held_locks w) = (False, l) \<Longrightarrow>
    step idn w (moved p Gone (w\<lparr>issued := insert t (issued w)\<rparr>))"
| enqueue: "procs w p = Claimed t \<Longrightarrow> mutate p idn (push_ticket t) w = (Ok n, w') \<Longrightarrow>
    step idn w (moved p (Waiting t n) w')"
| served: "procs w p = Waiting t n \<Longrightarrow> mutate p idn (at_head t) w = (Ok True, w') \<Longrightarrow>
    step idn w (moved p (Turning t n) w')"
| waits: "procs w p = Waiting t n \<Longrightarrow> mutate p idn (at_head t) w = (Ok False, w') \<Longrightarrow>
    step idn w w'"
| leave: "procs w p = Waiting t n \<Longrightarrow> snd (mutate p idn (take_back t) w) = w' \<Longrightarrow>
    step idn w (released idn p t w')"
| fail: "procs w p = Claimed t \<or> procs w p = Waiting t n \<Longrightarrow> step idn w (released idn p t w)"
| finish: "procs w p = Turning t n \<Longrightarrow> snd (mutate p idn (take_back t) w) = w' \<Longrightarrow>
    step idn w (moved p (Ending t) w')"
| finish_blocked: "procs w p = Turning t n \<Longrightarrow> step idn w (moved p (Ending t) w)"
| release: "procs w p = Ending t \<Longrightarrow> step idn w (released idn p t w)"
| crash: "step idn w (moved p Gone (w\<lparr>held_locks := drop_all p (held_locks w)\<rparr>))"

inductive_cases step_cases: "step idn w w'"

text \<open>
  A queue starts from whatever dead processes left: a document, or none, with no lease held.
\<close>

definition tickets :: "world \<Rightarrow> str list" where
  "tickets w = (case stored w of Queue _ ts \<Rightarrow> ts | _ \<Rightarrow> [])"

definition starts :: "world \<Rightarrow> bool" where
  "starts w \<longleftrightarrow>
     (stored w = Absent \<or> (\<exists>ts. stored w = Queue 1 ts)) \<and>
     distinct (tickets w) \<and> set (tickets w) \<subseteq> issued w \<and>
     held_locks w = unheld \<and> procs w = (\<lambda>_. Outside)"

inductive reachable :: "str \<Rightarrow> world \<Rightarrow> world \<Rightarrow> bool" for idn where
  here: "reachable idn w w"
| next_step: "reachable idn w w' \<Longrightarrow> step idn w' w'' \<Longrightarrow> reachable idn w w''"

section \<open>What stands between any two steps\<close>

definition owns :: "world \<Rightarrow> handle \<Rightarrow> str \<Rightarrow> bool" where
  "owns w p t \<longleftrightarrow>
     (case procs w p of Claimed u \<Rightarrow> u = t | Waiting u _ \<Rightarrow> u = t | Turning u _ \<Rightarrow> u = t
        | Ending u \<Rightarrow> u = t | _ \<Rightarrow> False)"

definition leased :: "str \<Rightarrow> world \<Rightarrow> bool" where
  "leased idn w \<longleftrightarrow>
     (\<forall>p t. owns w p t \<longleftrightarrow> held p (ticket_identity idn t) (held_locks w)) \<and>
     (\<forall>p t. owns w p t \<longrightarrow> t \<in> issued w) \<and>
     (\<forall>p q t. owns w p t \<longrightarrow> owns w q t \<longrightarrow> p = q)"

definition queued_right :: "world \<Rightarrow> bool" where
  "queued_right w \<longleftrightarrow>
     (stored w = Absent \<or> (\<exists>ts. stored w = Queue 1 ts)) \<and>
     distinct (tickets w) \<and> set (tickets w) \<subseteq> issued w \<and>
     (\<forall>p t. procs w p = Claimed t \<longrightarrow> t \<notin> set (tickets w)) \<and>
     (\<forall>p t n. procs w p = Waiting t n \<longrightarrow> t \<in> set (tickets w)) \<and>
     (\<forall>p t n. procs w p = Turning t n \<longrightarrow> (\<exists>ts. tickets w = t # ts))"

lemma ticket_identity_inj [simp]: "ticket_identity idn t = ticket_identity idn u \<longleftrightarrow> t = u"
  by (simp add: ticket_identity_def)

lemma mutate_Ok:
  assumes "leased idn w" "queued_right w"
  shows "\<exists>l. mutate p idn change w =
      (let (ts, outcome) = change (filter (\<lambda>t. \<exists>h. owns w h t) (tickets w))
       in (Ok outcome, w\<lparr>stored := Queue 1 ts, held_locks := l\<rparr>)) \<and>
    (\<forall>h n. held h n l = held h n (held_locks w))"
proof -
  have "read_state (stored w) = Ok (tickets w)"
    using assms(2) by (auto simp: read_state_def tickets_def queued_right_def)
  moreover obtain live l where r: "reap p idn (tickets w) (held_locks w) = (live, l)" by fastforce
  moreover have "live = filter (\<lambda>t. \<exists>h. owns w h t) (tickets w)"
    using lock_files.reap_live [of p p "ticket_identity idn" "tickets w" "held_locks w"] r assms(1)
    by (simp add: reap_def leased_def)
  moreover have "held h n l = held h n (held_locks w)" for h n
    using lock_files.reap_holds [of h n p p "ticket_identity idn" "tickets w" "held_locks w"] r
    by (simp add: reap_def)
  ultimately show ?thesis by (auto simp: mutate_def Let_def split_beta)
qed

definition of_phase :: "phase \<Rightarrow> str \<Rightarrow> bool" where
  "of_phase ph t \<longleftrightarrow>
     (case ph of Claimed u \<Rightarrow> u = t | Waiting u _ \<Rightarrow> u = t | Turning u _ \<Rightarrow> u = t
        | Ending u \<Rightarrow> u = t | _ \<Rightarrow> False)"

lemma of_phase_simps [simp]:
  "of_phase (Claimed u) t \<longleftrightarrow> u = t" "of_phase (Waiting u n) t \<longleftrightarrow> u = t" "of_phase (Turning u n) t \<longleftrightarrow> u = t"
  "of_phase (Ending u) t \<longleftrightarrow> u = t" "\<not> of_phase Outside t" "\<not> of_phase Gone t"
  by (simp_all add: of_phase_def)

lemma owns_phase: "owns w p t \<longleftrightarrow> of_phase (procs w p) t"
  by (simp add: owns_def of_phase_def)

lemma owns_moved [simp]: "owns (moved p ph w) q t \<longleftrightarrow> (if q = p then of_phase ph t else owns w q t)"
  by (simp add: owns_phase moved_def)

lemma moved_simps [simp]:
  "stored (moved p ph w) = stored w" "held_locks (moved p ph w) = held_locks w"
  "issued (moved p ph w) = issued w" "procs (moved p ph w) = (procs w)(p := ph)"
  "tickets (moved p ph w) = tickets w"
  by (simp_all add: moved_def tickets_def)

lemma owns_simps [simp]:
  "owns (w\<lparr>stored := f\<rparr>) p t = owns w p t" "owns (w\<lparr>held_locks := l\<rparr>) p t = owns w p t"
  "owns (w\<lparr>issued := I\<rparr>) p t = owns w p t"
  by (simp_all add: owns_phase)

lemma tickets_simps [simp]:
  "tickets (w\<lparr>stored := Queue n ts\<rparr>) = ts" "tickets (w\<lparr>held_locks := l\<rparr>) = tickets w"
  "tickets (w\<lparr>issued := I\<rparr>) = tickets w"
  by (simp_all add: tickets_def)

lemma released_simps [simp]:
  "stored (released idn p t w) = stored w" "issued (released idn p t w) = issued w"
  "procs (released idn p t w) = (procs w)(p := Gone)" "tickets (released idn p t w) = tickets w"
  "held_locks (released idn p t w) = drop_guard p (ticket_identity idn t) (held_locks w)"
  by (simp_all add: released_def)

text \<open>Leases follow the phases: the same ticket in another phase, a ticket given up, a new one.\<close>

lemma leased_same:
  assumes "leased idn w" "\<And>h n. held h n (held_locks w') = held h n (held_locks w)"
    "issued w' = issued w" "\<And>q u. owns w' q u = owns w q u"
  shows "leased idn w'"
  using assms by (simp add: leased_def)

lemma leased_given_up:
  assumes "leased idn w" "issued w' = issued w" "\<And>q u. owns w' q u \<longleftrightarrow> owns w q u \<and> q \<noteq> p"
    "\<And>h u. held h (ticket_identity idn u) (held_locks w') \<longleftrightarrow>
       held h (ticket_identity idn u) (held_locks w) \<and> h \<noteq> p"
  shows "leased idn w'"
  using assms by (auto simp: leased_def)

lemma owns_unique: "owns w p t \<Longrightarrow> owns w p u \<Longrightarrow> u = t"
  by (auto simp: owns_phase of_phase_def split: phase.splits)

lemma leasedD:
  assumes "leased idn w"
  shows "held p (ticket_identity idn t) (held_locks w) \<longleftrightarrow> owns w p t" "owns w p t \<Longrightarrow> t \<in> issued w"
    "owns w p t \<Longrightarrow> owns w q t \<Longrightarrow> p = q"
  using assms by (simp_all add: leased_def)

lemma queuedD:
  assumes "queued_right w"
  shows "stored w = Absent \<or> (\<exists>ts. stored w = Queue 1 ts)" "distinct (tickets w)" "set (tickets w) \<subseteq> issued w"
    "procs w p = Claimed t \<Longrightarrow> t \<notin> set (tickets w)" "procs w p = Waiting t n \<Longrightarrow> t \<in> set (tickets w)"
    "procs w p = Turning t n \<Longrightarrow> \<exists>ts. tickets w = t # ts"
  using assms unfolding queued_right_def by blast+

lemma leased_released:
  assumes "leased idn w" "owns w p t"
  shows "leased idn (released idn p t w)"
proof (rule leased_given_up [OF assms(1), where p = p])
  show "issued (released idn p t w) = issued w" by simp
  show "owns (released idn p t w) q u \<longleftrightarrow> owns w q u \<and> q \<noteq> p" for q u
    by (simp add: released_def)
  have "held p (ticket_identity idn u) (held_locks w) \<Longrightarrow> u = t" for u
    using owns_unique [OF assms(2)] by (simp add: leasedD(1) [OF assms(1)])
  then show "held h (ticket_identity idn u) (held_locks (released idn p t w)) \<longleftrightarrow>
      held h (ticket_identity idn u) (held_locks w) \<and> h \<noteq> p" for h u
    by (auto simp: released_def)
qed

lemma leased_claim:
  assumes "leased idn w" "procs w p = Outside" "t \<notin> issued w"
    "try_shared p p (ticket_identity idn t) (held_locks w) = (True, l)"
  shows "leased idn (moved p (Claimed t) (w\<lparr>held_locks := l, issued := insert t (issued w)\<rparr>))"
proof -
  have "held h n l \<longleftrightarrow> held h n (held_locks w) \<or> (h = p \<and> n = ticket_identity idn t)" for h n
    using held_try_shared [of h n p p "ticket_identity idn t" "held_locks w"] assms(4) by simp
  moreover have "\<not> owns w p u" for u using assms(2) by (simp add: owns_phase)
  ultimately show ?thesis using assms(1,3) by (auto simp: leased_def)
qed

lemma waits_in_queue:
  assumes "leased idn w" "queued_right w"
  shows "procs w p = Waiting t n \<Longrightarrow> t \<in> set (filter (\<lambda>t. \<exists>h. owns w h t) (tickets w))"
    "procs w p = Turning t n \<Longrightarrow> \<exists>ts. filter (\<lambda>t. \<exists>h. owns w h t) (tickets w) = t # ts"
proof -
  have owner: "\<exists>h. owns w h t" if "procs w p = Waiting t n \<or> procs w p = Turning t n" for p t n
    using that by (intro exI [of _ p]) (auto simp: owns_phase)
  show "t \<in> set (filter (\<lambda>t. \<exists>h. owns w h t) (tickets w))" if "procs w p = Waiting t n"
    using queuedD(5) [OF assms(2) that] owner that by auto
  assume "procs w p = Turning t n"
  with queuedD(6) [OF assms(2)] obtain ts where "tickets w = t # ts" by blast
  moreover have "\<exists>h. owns w h t" using owner [of p t n] \<open>procs w p = Turning t n\<close> by blast
  ultimately show "\<exists>ts. filter (\<lambda>t. \<exists>h. owns w h t) (tickets w) = t # ts" by auto
qed

text \<open>The phases, the order and the leases after each step.\<close>

lemma phase_step:
  assumes "queued_right w" "stored w' = stored w" "issued w' = issued w"
    "\<And>q t. procs w' q = Claimed t \<Longrightarrow> procs w q = Claimed t"
    "\<And>q t n. procs w' q = Waiting t n \<Longrightarrow> procs w q = Waiting t n"
    "\<And>q t n. procs w' q = Turning t n \<Longrightarrow> procs w q = Turning t n"
  shows "queued_right w'"
proof -
  have "tickets w' = tickets w" using assms(2) by (simp add: tickets_def)
  with assms(2-) queuedD [OF assms(1)] show ?thesis unfolding queued_right_def by (metis)
qed

lemma released_queued: "queued_right w \<Longrightarrow> queued_right (released idn p t w)"
  by (rule phase_step) (auto split: if_splits)

text \<open>A look that leaves of the queue a part of the live tickets, and queues perhaps one.\<close>

lemma look_queued:
  assumes w: "leased idn w" "queued_right w"
    and ts: "ts = filter keep (filter (\<lambda>t. \<exists>h. owns w h t) (tickets w)) @ new"
    and new: "distinct new" "set new \<inter> set (tickets w) = {}" "set new \<subseteq> issued w"
    and w': "stored w' = Queue 1 ts" "issued w' = issued w"
    and others: "\<And>q t. procs w' q = Claimed t \<Longrightarrow> procs w q = Claimed t \<and> t \<notin> set new"
      "\<And>q t n. procs w' q = Waiting t n \<Longrightarrow> t \<in> set new \<or> (procs w q = Waiting t n \<and> keep t)"
      "\<And>q t n. procs w' q = Turning t n \<Longrightarrow> (procs w q = Turning t n \<and> keep t) \<or> (\<exists>rest. ts = t # rest)"
  shows "queued_right w'"
proof -
  have tickets: "tickets w' = ts" using w'(1) by (simp add: tickets_def)
  have "distinct ts" using queuedD(2) [OF w(2)] new(1,2) by (auto simp: ts)
  moreover have "set ts \<subseteq> issued w" using queuedD(3) [OF w(2)] new(3) by (auto simp: ts)
  moreover have "t \<notin> set ts" if "procs w' q = Claimed t" for q t
    using others(1) [OF that] queuedD(4) [OF w(2)] by (auto simp: ts)
  moreover have "t \<in> set ts" if "procs w' q = Waiting t n" for q t n
    using others(2) [OF that] waits_in_queue(1) [OF w] by (auto simp: ts)
  moreover have "\<exists>rest. ts = t # rest" if "procs w' q = Turning t n" for q t n
    using others(3) [OF that]
  proof
    assume q: "procs w q = Turning t n \<and> keep t"
    then obtain rest where "filter (\<lambda>t. \<exists>h. owns w h t) (tickets w) = t # rest"
      using waits_in_queue(2) [OF w] by blast
    then show ?thesis using ts q by (simp del: filter_filter)
  qed
  ultimately show ?thesis using w' by (auto simp: queued_right_def tickets)
qed

lemma mutate_cases:
  assumes "leased idn w" "queued_right w" "mutate p idn change w = (r, w')"
  obtains ts outcome where "r = Ok outcome"
    "change (filter (\<lambda>t. \<exists>h. owns w h t) (tickets w)) = (ts, outcome)"
    "stored w' = Queue 1 ts" "issued w' = issued w" "procs w' = procs w"
    "\<And>h n. held h n (held_locks w') = held h n (held_locks w)"
    "\<And>q u. owns w' q u = owns w q u" "leased idn w'"
proof -
  obtain l where l: "mutate p idn change w =
      (let (ts, outcome) = change (filter (\<lambda>t. \<exists>h. owns w h t) (tickets w))
       in (Ok outcome, w\<lparr>stored := Queue 1 ts, held_locks := l\<rparr>))"
    "\<And>h n. held h n l = held h n (held_locks w)"
    using mutate_Ok [OF assms(1,2)] by blast
  obtain ts outcome where c: "change (filter (\<lambda>t. \<exists>h. owns w h t) (tickets w)) = (ts, outcome)"
    by fastforce
  have w': "r = Ok outcome" "w' = w\<lparr>stored := Queue 1 ts, held_locks := l\<rparr>"
    using assms(3) l(1) c by auto
  have "leased idn w'" by (rule leased_same [OF assms(1)]) (simp_all add: w' l(2))
  with that w' c l(2) show ?thesis by simp
qed

lemma leased_phase:
  assumes "leased idn w" "procs w p = ph" "\<And>u. of_phase ph' u = of_phase ph u"
  shows "leased idn (moved p ph' w)"
  by (rule leased_same [OF assms(1)]) (auto simp: owns_phase assms(2,3))

lemma enqueue_keeps:
  assumes w: "leased idn w" "queued_right w" and p: "procs w p = Claimed t"
    and look: "mutate p idn (push_ticket t) w = (r, w')"
  shows "leased idn (moved p (Waiting t n) w') \<and> queued_right (moved p (Waiting t n) w')"
proof (rule mutate_cases [OF w look])
  fix ts outcome
  assume c: "push_ticket t (filter (\<lambda>t. \<exists>h. owns w h t) (tickets w)) = (ts, outcome)"
    and w': "stored w' = Queue 1 ts" "issued w' = issued w" "procs w' = procs w" "leased idn w'"
  have "queued_right (moved p (Waiting t n) w')"
  proof (rule look_queued [OF w, where keep = "\<lambda>_. True" and new = "[t]"])
    show "ts = filter (\<lambda>_. True) (filter (\<lambda>t. \<exists>h. owns w h t) (tickets w)) @ [t]"
      using c by (simp add: push_ticket_def)
    have "owns w p t" using p by (simp add: owns_phase)
    then show "set [t] \<subseteq> issued w" using leasedD(2) [OF w(1)] by auto
    show "set [t] \<inter> set (tickets w) = {}" using queuedD(4) [OF w(2) p] by auto
    show "procs w q = Claimed u \<and> u \<notin> set [t]" if "procs (moved p (Waiting t n) w') q = Claimed u" for q u
    proof -
      have q: "procs w q = Claimed u" "q \<noteq> p" using that w' by (auto split: if_splits)
      then have "owns w q u" by (simp add: owns_phase)
      with q leasedD(3) [OF w(1), of q u p] \<open>owns w p t\<close> show ?thesis by auto
    qed
  qed (use w' in \<open>auto split: if_splits\<close>)
  moreover have "leased idn (moved p (Waiting t n) w')"
    by (rule leased_phase [OF w'(4)]) (use p w'(3) in auto)
  ultimately show ?thesis by blast
qed

lemma look_keeps:
  assumes w: "leased idn w" "queued_right w" and p: "procs w p = Waiting t n"
    and look: "mutate p idn (at_head t) w = (Ok b, w')"
  shows "leased idn w' \<and> queued_right w' \<and>
    (b \<longrightarrow> leased idn (moved p (Turning t n) w') \<and> queued_right (moved p (Turning t n) w'))"
proof (rule mutate_cases [OF w look])
  fix ts outcome
  assume c: "at_head t (filter (\<lambda>t. \<exists>h. owns w h t) (tickets w)) = (ts, outcome)" "Ok b = Ok outcome"
    and w': "stored w' = Queue 1 ts" "issued w' = issued w" "procs w' = procs w" "leased idn w'"
  have ts: "ts = filter (\<lambda>_. True) (filter (\<lambda>t. \<exists>h. owns w h t) (tickets w)) @ []"
    using c by (simp add: at_head_def)
  have head: "\<exists>rest. ts = t # rest" if b
    using c that by (auto simp: at_head_def split: list.splits)
  have "queued_right w'"
    by (rule look_queued [OF w ts]) (use w' in auto)
  moreover have "queued_right (moved p (Turning t n) w')" if b
    by (rule look_queued [OF w ts]) (use w' head [OF that] in \<open>auto split: if_splits\<close>)
  moreover have "leased idn (moved p (Turning t n) w')"
    by (rule leased_phase [OF w'(4)]) (use p w'(3) in auto)
  ultimately show ?thesis using w'(4) by blast
qed

lemma take_back_keeps:
  assumes w: "leased idn w" "queued_right w" and p: "procs w p = Waiting t n \<or> procs w p = Turning t n"
    and look: "snd (mutate p idn (take_back t) w) = w'" and ph: "ph = Gone \<or> ph = Ending t"
  shows "leased idn w' \<and> owns w' p t \<and> queued_right (moved p ph w')"
proof -
  obtain r where look: "mutate p idn (take_back t) w = (r, w')" using look by (metis prod.collapse)
  have owner: "owns w p t" using p by (auto simp: owns_phase)
  show ?thesis
  proof (rule mutate_cases [OF w look])
    fix ts outcome
    assume c: "take_back t (filter (\<lambda>t. \<exists>h. owns w h t) (tickets w)) = (ts, outcome)"
      and w': "stored w' = Queue 1 ts" "issued w' = issued w" "procs w' = procs w" "leased idn w'"
      "\<And>q u. owns w' q u = owns w q u"
    have "queued_right (moved p ph w')"
    proof (rule look_queued [OF w, where keep = "\<lambda>u. u \<noteq> t" and new = "[]"])
      show "ts = filter (\<lambda>u. u \<noteq> t) (filter (\<lambda>t. \<exists>h. owns w h t) (tickets w)) @ []"
        using c by (simp add: take_back_def)
      have other: "u \<noteq> t" if "q \<noteq> p" "procs w q = Waiting u m \<or> procs w q = Turning u m" for q u m
        using that leasedD(3) [OF w(1) owner, of q] by (auto simp: owns_phase)
      show "u \<in> set [] \<or> (procs w q = Waiting u m \<and> u \<noteq> t)" if "procs (moved p ph w') q = Waiting u m" for q u m
        using that ph w'(3) other [of q u m] by (auto split: if_splits)
      show "(procs w q = Turning u m \<and> u \<noteq> t) \<or> (\<exists>rest. ts = u # rest)"
        if "procs (moved p ph w') q = Turning u m" for q u m
        using that ph w'(3) other [of q u m] by (auto split: if_splits)
    qed (use w' ph in \<open>auto split: if_splits\<close>)
    with w' owner show ?thesis by simp
  qed
qed

lemma crash_keeps:
  assumes w: "leased idn w" "queued_right w"
  shows "leased idn (moved p Gone (w\<lparr>held_locks := drop_all p (held_locks w)\<rparr>)) \<and>
    queued_right (moved p Gone (w\<lparr>held_locks := drop_all p (held_locks w)\<rparr>))"
proof
  show "leased idn (moved p Gone (w\<lparr>held_locks := drop_all p (held_locks w)\<rparr>))"
    by (rule leased_given_up [OF w(1), where p = p]) auto
  show "queued_right (moved p Gone (w\<lparr>held_locks := drop_all p (held_locks w)\<rparr>))"
    by (rule phase_step [OF w(2)]) (auto split: if_splits)
qed

lemma step_keeps:
  assumes "step idn w w'" "leased idn w" "queued_right w"
  shows "leased idn w' \<and> queued_right w'"
  using assms
proof (induction rule: step.induct)
  case (claim w p t l)
  let ?w = "moved p (Claimed t) (w\<lparr>held_locks := l, issued := insert t (issued w)\<rparr>)"
  have "leased idn ?w" by (rule leased_claim [OF claim(4,1,2,3)])
  moreover have "queued_right ?w"
    using queuedD [OF claim(5)] claim(2) by (auto simp: queued_right_def)
  ultimately show ?case by blast
next
  case (refused w p t l)
  have "leased idn (moved p Gone (w\<lparr>issued := insert t (issued w)\<rparr>))"
    using refused(1) leasedD [OF refused(4)] by (auto simp: leased_def owns_phase)
  moreover have "queued_right (moved p Gone (w\<lparr>issued := insert t (issued w)\<rparr>))"
    using queuedD [OF refused(5)] by (auto simp: queued_right_def)
  ultimately show ?case by blast
next
  case (enqueue w p t n w')
  from enqueue_keeps [OF enqueue(3,4,1,2)] show ?case .
next
  case (served w p t n w')
  from look_keeps [OF served(3,4,1,2)] show ?case by blast
next
  case (waits w p t n w')
  from look_keeps [OF waits(3,4,1,2)] show ?case by blast
next
  case (leave w p t n w')
  have "leased idn w' \<and> owns w' p t \<and> queued_right (moved p Gone w')"
    using take_back_keeps [OF leave(3,4) disjI1 [OF leave(1)] leave(2)] by blast
  then have "leased idn w'" "owns w' p t" "queued_right (moved p Gone w')" by blast+
  moreover have "queued_right (released idn p t w')"
    by (rule phase_step [OF \<open>queued_right (moved p Gone w')\<close>]) (auto split: if_splits)
  ultimately show ?case using leased_released by blast
next
  case (fail w p t n)
  then have "owns w p t" by (auto simp: owns_phase)
  with fail show ?case using leased_released released_queued by blast
next
  case (finish w p t n w')
  have "leased idn w' \<and> owns w' p t \<and> queued_right (moved p (Ending t) w')"
    using take_back_keeps [OF finish(3,4) disjI2 [OF finish(1)] finish(2)] by blast
  then have "leased idn w'" "owns w' p t" "queued_right (moved p (Ending t) w')" by blast+
  moreover have "leased idn (moved p (Ending t) w')"
    by (rule leased_same [OF \<open>leased idn w'\<close>]) (use \<open>owns w' p t\<close> owns_unique in auto)
  ultimately show ?case by blast
next
  case (finish_blocked w p t n)
  have "leased idn (moved p (Ending t) w)" by (rule leased_phase [OF finish_blocked(2,1)]) simp
  moreover have "queued_right (moved p (Ending t) w)"
    by (rule phase_step [OF finish_blocked(3)]) (auto split: if_splits)
  ultimately show ?case by blast
next
  case (release w p t)
  then have "owns w p t" by (auto simp: owns_phase)
  with release show ?case using leased_released released_queued by blast
next
  case (crash w p)
  from crash_keeps [OF crash] show ?case .
qed

lemma starts_right: "starts w \<Longrightarrow> leased idn w \<and> queued_right w"
  by (auto simp: starts_def leased_def queued_right_def owns_def held_def unheld_def)

lemma reachable_keeps:
  assumes "reachable idn w w'" "leased idn w" "queued_right w"
  shows "leased idn w' \<and> queued_right w'"
  using assms by (induction rule: reachable.induct) (use step_keeps in blast)+

section \<open>The order tickets are served in\<close>

text \<open>A ticket that was taken and is not waiting to be queued never enters the queue again.\<close>

definition spent :: "world \<Rightarrow> str \<Rightarrow> bool" where
  "spent w t \<longleftrightarrow> t \<in> issued w \<and> (\<forall>p. procs w p \<noteq> Claimed t)"

definition follows :: "world \<Rightarrow> world \<Rightarrow> bool" where
  "follows w w' \<longleftrightarrow>
     (\<forall>t. spent w t \<longrightarrow> spent w' t) \<and>
     (\<exists>keep new. tickets w' = filter keep (tickets w) @ new \<and> (\<forall>t \<in> set new. \<not> spent w t))"

lemma follows_same:
  assumes "tickets w' = tickets w" "issued w \<subseteq> issued w'"
    "\<And>q t. procs w' q = Claimed t \<Longrightarrow> procs w q = Claimed t \<or> t \<notin> issued w"
  shows "follows w w'"
  using assms unfolding follows_def spent_def
  by (intro conjI exI [of _ "\<lambda>_. True"] exI [of _ "[]"]) auto

lemma follows_look:
  assumes "stored w' = Queue 1 (filter keep (filter live (tickets w)) @ new)" "issued w' = issued w"
    "\<And>q t. procs w' q = Claimed t \<Longrightarrow> procs w q = Claimed t" "\<And>t. t \<in> set new \<Longrightarrow> \<not> spent w t"
  shows "follows w w'"
  unfolding follows_def
proof
  show "\<forall>t. spent w t \<longrightarrow> spent w' t" using assms(2,3) by (auto simp: spent_def)
  have "tickets w' = filter (\<lambda>t. keep t \<and> live t) (tickets w) @ new"
    using assms(1) by (simp add: tickets_def conj_commute)
  with assms(4) show "\<exists>keep new. tickets w' = filter keep (tickets w) @ new \<and> (\<forall>t \<in> set new. \<not> spent w t)"
    by blast
qed

lemma follows_trans:
  assumes "follows w w'" "follows w' w''"
  shows "follows w w''"
proof -
  obtain k n where 1: "tickets w' = filter k (tickets w) @ n" "\<forall>t \<in> set n. \<not> spent w t"
    and m: "\<forall>t. spent w t \<longrightarrow> spent w' t" using assms(1) unfolding follows_def by blast
  obtain k' n' where 2: "tickets w'' = filter k' (tickets w') @ n'" "\<forall>t \<in> set n'. \<not> spent w' t"
    and m': "\<forall>t. spent w' t \<longrightarrow> spent w'' t" using assms(2) unfolding follows_def by blast
  have "tickets w'' = filter (\<lambda>t. k t \<and> k' t) (tickets w) @ (filter k' n @ n')"
    by (simp add: 1(1) 2(1) conj_commute)
  moreover have "\<forall>t \<in> set (filter k' n @ n'). \<not> spent w t" using 1(2) 2(2) m by auto
  ultimately show ?thesis using m m' unfolding follows_def by blast
qed

lemma step_follows:
  assumes "step idn w w'" "leased idn w" "queued_right w"
  shows "follows w w'"
  using assms
proof (induction rule: step.induct)
  case (enqueue w p t n w')
  show ?case
  proof (rule mutate_cases [OF enqueue(3,4,2)])
    fix ts outcome
    assume "push_ticket t (filter (\<lambda>t. \<exists>h. owns w h t) (tickets w)) = (ts, outcome)"
      and w': "stored w' = Queue 1 ts" "issued w' = issued w" "procs w' = procs w"
    then show "follows w (moved p (Waiting t n) w')"
      using enqueue(1)
      by (intro follows_look [where keep = "\<lambda>_. True" and new = "[t]" and live = "\<lambda>t. \<exists>h. owns w h t"])
        (auto simp: push_ticket_def spent_def split: if_splits)
  qed
next
  case (served w p t n w')
  show ?case
  proof (rule mutate_cases [OF served(3,4,2)])
    fix ts outcome
    assume "at_head t (filter (\<lambda>t. \<exists>h. owns w h t) (tickets w)) = (ts, outcome)"
      and "stored w' = Queue 1 ts" "issued w' = issued w" "procs w' = procs w"
    then show "follows w (moved p (Turning t n) w')"
      by (intro follows_look [where keep = "\<lambda>_. True" and new = "[]" and live = "\<lambda>t. \<exists>h. owns w h t"])
        (auto simp: at_head_def split: if_splits)
  qed
next
  case (waits w p t n w')
  show ?case
  proof (rule mutate_cases [OF waits(3,4,2)])
    fix ts outcome
    assume "at_head t (filter (\<lambda>t. \<exists>h. owns w h t) (tickets w)) = (ts, outcome)"
      and "stored w' = Queue 1 ts" "issued w' = issued w" "procs w' = procs w"
    then show "follows w w'"
      by (intro follows_look [where keep = "\<lambda>_. True" and new = "[]" and live = "\<lambda>t. \<exists>h. owns w h t"])
        (auto simp: at_head_def)
  qed
next
  case (leave w p t n w')
  obtain r where l: "mutate p idn (take_back t) w = (r, w')" using leave(2) by (metis prod.collapse)
  show ?case
  proof (rule mutate_cases [OF leave(3,4) l])
    fix ts outcome
    assume "take_back t (filter (\<lambda>t. \<exists>h. owns w h t) (tickets w)) = (ts, outcome)"
      and "stored w' = Queue 1 ts" "issued w' = issued w" "procs w' = procs w"
    then show "follows w (released idn p t w')"
      by (intro follows_look [where keep = "\<lambda>u. u \<noteq> t" and new = "[]" and live = "\<lambda>t. \<exists>h. owns w h t"])
        (auto simp: take_back_def split: if_splits)
  qed
next
  case (finish w p t n w')
  obtain r where l: "mutate p idn (take_back t) w = (r, w')" using finish(2) by (metis prod.collapse)
  show ?case
  proof (rule mutate_cases [OF finish(3,4) l])
    fix ts outcome
    assume "take_back t (filter (\<lambda>t. \<exists>h. owns w h t) (tickets w)) = (ts, outcome)"
      and "stored w' = Queue 1 ts" "issued w' = issued w" "procs w' = procs w"
    then show "follows w (moved p (Ending t) w')"
      by (intro follows_look [where keep = "\<lambda>u. u \<noteq> t" and new = "[]" and live = "\<lambda>t. \<exists>h. owns w h t"])
        (auto simp: take_back_def split: if_splits)
  qed
qed (rule follows_same; auto split: if_splits)+

lemma reachable_follows:
  assumes "reachable idn w w'" "leased idn w" "queued_right w"
  shows "follows w w'"
  using assms
proof (induction rule: reachable.induct)
  case here
  show ?case by (rule follows_same) auto
next
  case (next_step w w' w'')
  then show ?case using follows_trans step_follows reachable_keeps by blast
qed

lemma reachable_trans: "reachable idn w' w'' \<Longrightarrow> reachable idn w w' \<Longrightarrow> reachable idn w w''"
  by (induction rule: reachable.induct) (auto intro: reachable.next_step)

text \<open>Which ticket stands in front of which.\<close>

definition ahead :: "str \<Rightarrow> str \<Rightarrow> world \<Rightarrow> bool" where
  "ahead t u w \<longleftrightarrow> (\<exists>a b. tickets w = a @ u # b \<and> t \<in> set a)"

lemma filter_head_before:
  assumes "distinct (a @ u # b)" "t \<in> set a" "keep t" "filter keep (a @ u # b) = u # rest"
  shows False
proof -
  have "filter keep a \<noteq> []" using assms(2,3) by (auto simp: filter_empty_conv)
  then obtain x xs where "filter keep a = x # xs" by (cases "filter keep a") auto
  moreover from this have "x \<in> set a" by (metis filter_is_subset list.set_intros(1) subsetD)
  ultimately show False using assms(1,4) by auto
qed

lemma head_is_served:
  assumes "leased idn w" "queued_right w" "procs w p = Waiting t n"
    "filter (\<lambda>t. \<exists>h. owns w h t) (tickets w) = t # rest"
  shows "\<exists>w'. mutate p idn (at_head t) w = (Ok True, w') \<and> step idn w (moved p (Turning t n) w')"
proof -
  obtain l where "mutate p idn (at_head t) w = (Ok True, w\<lparr>stored := Queue 1 (t # rest), held_locks := l\<rparr>)"
    using mutate_Ok [OF assms(1,2), of p "at_head t"] by (auto simp: at_head_def assms(4))
  with step.served [OF assms(3)] show ?thesis by blast
qed

text \<open>A small run for the witnesses: one holder takes a ticket, a second one queues behind it.\<close>

definition quiet :: world where
  "quiet = \<lparr>stored = Absent, held_locks = unheld, procs = (\<lambda>_. Outside), issued = {}\<rparr>"

lemma quiet_starts: "starts quiet"
  by (simp add: quiet_def starts_def tickets_def)

lemmas look_simps = mutate_def reap_def read_state_def push_ticket_def at_head_def take_back_def
  probe_def try_exclusive_def try_shared_def try_acquire_def granted_def drop_guard_def record_owner_def
  ticket_identity_def unheld_def

lemma two_waiting:
  "\<exists>w. reachable ''r'' quiet w \<and> procs w = (\<lambda>_. Outside)(0 := Waiting ''a'' 1, 1 := Waiting ''b'' 2) \<and>
     tickets w = [''a'', ''b'']"
proof -
  obtain l1 where 1: "try_shared 0 0 (ticket_identity ''r'' ''a'') (held_locks quiet) = (True, l1)"
    by (simp add: look_simps quiet_def)
  let ?w1 = "moved 0 (Claimed ''a'') (quiet\<lparr>held_locks := l1, issued := insert ''a'' (issued quiet)\<rparr>)"
  have s1: "step ''r'' quiet ?w1" by (rule step.claim [OF _ _ 1]) (simp_all add: quiet_def)
  then have k1: "leased ''r'' ?w1 \<and> queued_right ?w1" using step_keeps starts_right quiet_starts by blast
  obtain l2 where m2: "mutate 0 ''r'' (push_ticket ''a'') ?w1 = (Ok 1, ?w1\<lparr>stored := Queue 1 [''a''], held_locks := l2\<rparr>)"
    using mutate_Ok [of "''r''" ?w1 0 "push_ticket ''a''"] k1
    by (auto simp: push_ticket_def tickets_def quiet_def moved_def)
  let ?w2 = "moved 0 (Waiting ''a'' 1) (?w1\<lparr>stored := Queue 1 [''a''], held_locks := l2\<rparr>)"
  have s2: "step ''r'' ?w1 ?w2" by (rule step.enqueue [OF _ m2]) simp
  then have k2: "leased ''r'' ?w2 \<and> queued_right ?w2" using step_keeps k1 by blast
  have free: "holders (held_locks ?w2 (ticket_identity ''r'' ''b'')) = []"
    using k2 leasedD(1) [of "''r''" ?w2 _ "''b''"] leasedD(2) [of "''r''" ?w2 _ "''b''"]
    by (cases "holders (held_locks ?w2 (ticket_identity ''r'' ''b''))") (force simp: held_def quiet_def)+
  obtain l3 where 3: "try_shared 1 1 (ticket_identity ''r'' ''b'') (held_locks ?w2) = (True, l3)"
    using free by (simp add: try_shared_def try_acquire_def granted_def Let_def)
  let ?w3 = "moved 1 (Claimed ''b'') (?w2\<lparr>held_locks := l3, issued := insert ''b'' (issued ?w2)\<rparr>)"
  have s3: "step ''r'' ?w2 ?w3" by (rule step.claim [OF _ _ 3]) (simp_all add: quiet_def)
  then have k3: "leased ''r'' ?w3 \<and> queued_right ?w3" using step_keeps k2 by blast
  have "owns ?w3 0 ''a''" by (simp add: owns_phase)
  then have live: "\<exists>h. owns ?w3 h ''a''" by blast
  obtain l4 where m4: "mutate 1 ''r'' (push_ticket ''b'') ?w3 = (Ok 2, ?w3\<lparr>stored := Queue 1 [''a'', ''b''], held_locks := l4\<rparr>)"
    using mutate_Ok [of "''r''" ?w3 1 "push_ticket ''b''"] k3 live
    by (auto simp: push_ticket_def)
  let ?w4 = "moved 1 (Waiting ''b'' 2) (?w3\<lparr>stored := Queue 1 [''a'', ''b''], held_locks := l4\<rparr>)"
  have s4: "step ''r'' ?w3 ?w4" by (rule step.enqueue [OF _ m4]) simp
  have "reachable ''r'' quiet ?w4"
    by (rule reachable.next_step [OF reachable.next_step [OF reachable.next_step [OF
          reachable.next_step [OF reachable.here s1] s2] s3] s4])
  then show ?thesis by (intro exI [of _ ?w4]) (auto simp: quiet_def tickets_def fun_eq_iff)
qed

section \<open>Properties\<close>

text \<open>C1 At most one publication of an identity has the turn: however the steps of any number of
  processes interleave, and whichever of them die, two turns held at once are one turn, and its
  holder has its lease and its ticket at the head of the stored queue.\<close>

theorem one_turn_at_a_time:
  assumes "starts w0" "reachable idn w0 w" "procs w p = Turning t n" "procs w q = Turning u m"
  shows "p = q \<and> held p (ticket_identity idn t) (held_locks w) \<and> (\<exists>rest. tickets w = t # rest)"
proof -
  have w: "leased idn w" "queued_right w" using reachable_keeps assms(1,2) starts_right by blast+
  have "t = u" using queuedD(6) [OF w(2) assms(3)] queuedD(6) [OF w(2) assms(4)] by auto
  moreover have "owns w p t" "owns w q u" using assms(3,4) by (simp_all add: owns_phase)
  ultimately show ?thesis
    using leasedD(1,3) [OF w(1)] queuedD(6) [OF w(2) assms(3)] by blast
qed

theorem one_turn_at_a_time_witness:
  "\<exists>w. reachable ''r'' quiet w \<and> procs w 0 = Turning ''a'' 1 \<and> (\<exists>rest. tickets w = ''a'' # rest)"
proof -
  obtain w where w: "reachable ''r'' quiet w" "procs w = (\<lambda>_. Outside)(0 := Waiting ''a'' 1, 1 := Waiting ''b'' 2)"
    "tickets w = [''a'', ''b'']" using two_waiting by blast
  have k: "leased ''r'' w" "queued_right w" using reachable_keeps w(1) starts_right quiet_starts by blast+
  have "owns w 0 ''a''" "owns w 1 ''b''" by (simp_all add: owns_phase w(2))
  then have "filter (\<lambda>t. \<exists>h. owns w h t) (tickets w) = ''a'' # [''b'']" using w(3) by auto
  then obtain w' where "step ''r'' w (moved 0 (Turning ''a'' 1) w')"
    using head_is_served [OF k, of 0 "''a''" 1] w(2) by auto
  then have r: "reachable ''r'' quiet (moved 0 (Turning ''a'' 1) w')" using reachable.next_step w(1) by blast
  then show ?thesis using one_turn_at_a_time [OF quiet_starts r, of 0 "''a''" 1 0 "''a''" 1] by auto
qed

text \<open>C18 Turns are served in the order tickets were queued: while a waiter whose ticket stands in
  front of another's still waits, however long and whatever else happens meanwhile, the ticket
  behind it never has the turn.\<close>

theorem served_in_order:
  assumes "starts w0" "reachable idn w0 w" "ahead t u w" "procs w p = Waiting t n"
    "reachable idn w w'" "procs w' p = Waiting t n"
  shows "procs w' q \<noteq> Turning u m"
proof
  assume turn: "procs w' q = Turning u m"
  have w: "leased idn w" "queued_right w" using reachable_keeps assms(1,2) starts_right by blast+
  have w': "leased idn w'" "queued_right w'" using reachable_keeps assms(5) w by blast+
  obtain a b where ab: "tickets w = a @ u # b" "t \<in> set a" using assms(3) unfolding ahead_def by blast
  obtain keep new where f: "tickets w' = filter keep (tickets w) @ new" "\<forall>t \<in> set new. \<not> spent w t"
    using reachable_follows [OF assms(5) w] unfolding follows_def by blast
  have spent: "spent w s" if "s \<in> set (tickets w)" for s
    using that queuedD(3,4) [OF w(2)] unfolding spent_def by blast
  have t: "t \<in> set (filter keep (tickets w))"
    using queuedD(5) [OF w'(2) assms(6)] f spent [of t] ab by auto
  obtain rest where rest: "tickets w' = u # rest" using queuedD(6) [OF w'(2) turn] by blast
  have "filter keep (tickets w) \<noteq> []" using t by (metis empty_iff list.set(1))
  then obtain x xs where "filter keep (tickets w) = x # xs" by (cases "filter keep (tickets w)") auto
  moreover from this f(1) rest have "x = u" by simp
  ultimately have "filter keep (a @ u # b) = u # xs" by (simp only: ab(1))
  moreover have "keep t" using t by simp
  ultimately show False using filter_head_before [of a u b t keep xs] queuedD(2) [OF w(2)] ab by metis
qed

theorem served_in_order_witness:
  "\<exists>w. reachable ''r'' quiet w \<and> procs w 1 = Waiting ''b'' 2 \<and> procs w 1 \<noteq> Turning ''b'' 2"
proof -
  obtain w where w: "reachable ''r'' quiet w" "procs w = (\<lambda>_. Outside)(0 := Waiting ''a'' 1, 1 := Waiting ''b'' 2)"
    "tickets w = [''a'', ''b'']" using two_waiting by blast
  have "ahead ''a'' ''b'' w" unfolding ahead_def by (intro exI [of _ "[''a'']"] exI [of _ "[]"]) (simp add: w(3))
  from served_in_order [OF quiet_starts w(1) this _ reachable.here, of 0 1 1 2] w show ?thesis by auto
qed

text \<open>C23 A process killed during its turn, or while it waited, strands nobody: as soon as no live
  process holds a ticket in front of a waiter's, that waiter's next look at the queue gives it
  the turn, whatever tickets the dead ones left behind.\<close>

theorem dead_holders_never_strand:
  assumes "starts w0" "reachable idn w0 w" "procs w p = Waiting t n"
    "\<forall>u h. ahead u t w \<longrightarrow> \<not> owns w h u"
  shows "\<exists>w'. mutate p idn (at_head t) w = (Ok True, w') \<and> step idn w (moved p (Turning t n) w')"
proof -
  have w: "leased idn w" "queued_right w" using reachable_keeps assms(1,2) starts_right by blast+
  have owner: "owns w p t" using assms(3) by (simp add: owns_phase)
  obtain a b where ab: "tickets w = a @ t # b"
    using queuedD(5) [OF w(2) assms(3)] by (meson split_list)
  then have "\<forall>u \<in> set a. \<nexists>h. owns w h u" using assms(4) unfolding ahead_def by blast
  then have "filter (\<lambda>t. \<exists>h. owns w h t) a = []" by (simp add: filter_empty_conv)
  then have "filter (\<lambda>t. \<exists>h. owns w h t) (tickets w) = t # filter (\<lambda>t. \<exists>h. owns w h t) b"
    using owner by (auto simp: ab)
  then show ?thesis by (rule head_is_served [OF w assms(3)])
qed

theorem dead_holders_never_strand_witness:
  "\<exists>w w'. reachable ''r'' quiet w \<and> procs w 0 = Gone \<and> tickets w = [''a'', ''b''] \<and>
     mutate 1 ''r'' (at_head ''b'') w = (Ok True, w')"
proof -
  obtain w where w: "reachable ''r'' quiet w" "procs w = (\<lambda>_. Outside)(0 := Waiting ''a'' 1, 1 := Waiting ''b'' 2)"
    "tickets w = [''a'', ''b'']" using two_waiting by blast
  let ?w = "moved 0 Gone (w\<lparr>held_locks := drop_all 0 (held_locks w)\<rparr>)"
  have r: "reachable ''r'' quiet ?w" by (rule reachable.next_step [OF w(1) step.crash])
  have "\<not> owns ?w h u" if "ahead u ''b'' ?w" for u h
  proof -
    from that obtain a b where "[''a'', ''b''] = a @ ''b'' # b" "u \<in> set a" by (auto simp: ahead_def w(3))
    then have "u = ''a''" by (cases a; cases "tl a") auto
    then show ?thesis by (auto simp: owns_phase w(2))
  qed
  then obtain w' where "mutate 1 ''r'' (at_head ''b'') ?w = (Ok True, w')"
    using dead_holders_never_strand [OF quiet_starts r, of 1 "''b''" 2] w(2) by auto
  with r w(3) show ?thesis by (intro exI [of _ ?w] exI [of _ w']) auto
qed

text \<open>The queue never deadlocks: whenever anybody waits, somebody has the turn or is ending it, or
  some waiter is served by its next look.\<close>

theorem queue_never_deadlocks:
  assumes "starts w0" "reachable idn w0 w" "procs w p = Waiting t n"
  shows "\<exists>q u m. procs w q = Turning u m \<or> procs w q = Ending u \<or>
    (procs w q = Waiting u m \<and> (\<exists>w'. step idn w w' \<and> procs w' q = Turning u m))"
proof -
  have w: "leased idn w" "queued_right w" using reachable_keeps assms(1,2) starts_right by blast+
  have "filter (\<lambda>t. \<exists>h. owns w h t) (tickets w) \<noteq> []"
    using waits_in_queue(1) [OF w assms(3)] by (metis list.set(1) empty_iff)
  then obtain u rest where l: "filter (\<lambda>t. \<exists>h. owns w h t) (tickets w) = u # rest"
    by (cases "filter (\<lambda>t. \<exists>h. owns w h t) (tickets w)") auto
  then have "u \<in> set (filter (\<lambda>t. \<exists>h. owns w h t) (tickets w))" by simp
  then obtain q where q: "owns w q u" "u \<in> set (tickets w)" by auto
  then consider "procs w q = Claimed u" | m where "procs w q = Waiting u m" | m where "procs w q = Turning u m"
    | "procs w q = Ending u" by (auto simp: owns_def split: phase.splits)
  then show ?thesis
  proof cases
    case 1
    with queuedD(4) [OF w(2) 1] q(2) show ?thesis by blast
  next
    case (2 m)
    from head_is_served [OF w 2 l] obtain w' where "step idn w (moved q (Turning u m) w')" by blast
    with 2 show ?thesis by (intro exI [of _ q] exI [of _ u] exI [of _ m]) auto
  qed blast+
qed

theorem queue_never_deadlocks_witness:
  "\<exists>w. reachable ''r'' quiet w \<and> procs w 1 = Waiting ''b'' 2 \<and>
     (\<exists>q u m. procs w q = Turning u m \<or> procs w q = Ending u \<or>
       (procs w q = Waiting u m \<and> (\<exists>w'. step ''r'' w w' \<and> procs w' q = Turning u m)))"
proof -
  obtain w where w: "reachable ''r'' quiet w" "procs w = (\<lambda>_. Outside)(0 := Waiting ''a'' 1, 1 := Waiting ''b'' 2)"
    using two_waiting by blast
  from queue_never_deadlocks [OF quiet_starts w(1), of 1 "''b''" 2] w show ?thesis
    by (intro exI [of _ w]) simp
qed

end
