(* ===== verification/Checks.thy ===== *)
theory Checks
  imports Events
begin

text \<open>
  How a host's report about a change request's checks is read (\<open>host.rs\<close>, \<open>publish.rs\<close>): the
  state of one check, the checks that are about one commit, what the host declares a merge
  requires, where each required check stands, and the verdict a reading gives. A set of names
  (\<open>BTreeSet\<close>) is its sorted list without repetition.
\<close>

section \<open>One check\<close>

record check =
  check_name :: str
  status :: str
  conclusion :: "str option"
  required :: bool
  head :: "str option"
  started_at :: "str option"

definition settled :: "check \<Rightarrow> bool" where
  "settled c \<longleftrightarrow> to_ascii_lowercase (status c) = ''completed''"

definition state :: "check \<Rightarrow> check_state" where
  "state c =
     (if \<not> settled c then CheckPending
      else case map_option to_ascii_lowercase (conclusion c) of
        None \<Rightarrow> CheckFailed
      | Some w \<Rightarrow>
          (if w = ''success'' \<or> w = ''neutral'' then CheckPassed
           else if w = ''skipped'' then CheckSkipped
           else if w = ''cancelled'' \<or> w = ''stale'' then CheckNoVerdict
           else CheckFailed))"

datatype check_source = StatusChecks | Actions | BranchRules

record change_checks =
  answer_checks :: "check list"
  answer_sources :: "check_source list"

definition complete_checks :: "change_checks \<Rightarrow> bool" where
  "complete_checks a \<longleftrightarrow> StatusChecks \<in> set (answer_sources a)"

section \<open>What is about one commit\<close>

datatype reported = About "check list" | NotYet

definition is_about :: "str \<Rightarrow> check \<Rightarrow> bool" where
  "is_about commit c = (case head c of None \<Rightarrow> True | Some h \<Rightarrow> h = commit)"

definition reported_of :: "check list \<Rightarrow> str \<Rightarrow> reported" where
  "reported_of answered commit =
     (let about = filter (is_about commit) answered
      in if about = [] \<and> answered \<noteq> [] then NotYet else About about)"

fun reported_checks :: "reported \<Rightarrow> check list" where
  "reported_checks (About cs) = cs"
| "reported_checks NotYet = []"

section \<open>What a merge requires\<close>

record required_checks =
  required_names :: "str list"
  unconsulted :: "(str \<times> str) list"      \<comment> \<open>each source that could not be read, and why\<close>

datatype declared = Nothing | Names "str list" | Undeclared str

definition declared_required :: "('e \<Rightarrow> str) \<Rightarrow> str \<Rightarrow> 'e + required_checks \<Rightarrow> declared" where
  "declared_required text_of base answer =
     (case answer of
        Inr a \<Rightarrow>
          (if required_names a = [] \<and> unconsulted a = [] then Nothing
           else if required_names a \<noteq> [] then Names (required_names a)
           else Undeclared (''the host could not read '' @ join_with '' or '' (map fst (unconsulted a)) @
                  '' for which checks a merge into '' @ base @ '' requires''))
      | Inl refused \<Rightarrow>
          Undeclared (''the host would not say which checks a merge into '' @ base @ '' requires: '' @
                   text_of refused))"

definition sharpened :: "declared \<Rightarrow> check list \<Rightarrow> bool \<Rightarrow> declared" where
  "sharpened d cs complete =
     (case d of
        Undeclared _ \<Rightarrow> (if complete \<and> cs \<noteq> [] \<and> list_all (\<lambda>c. \<not> required c) cs then Nothing else d)
      | _ \<Rightarrow> d)"

record reading =
  reported :: reported
  from_rollup :: bool

definition given :: "declared \<Rightarrow> reading \<Rightarrow> declared" where
  "given d r = (case reported r of About cs \<Rightarrow> sharpened d cs (from_rollup r) | NotYet \<Rightarrow> d)"

definition requires :: "declared \<Rightarrow> check \<Rightarrow> bool" where
  "requires d c =
     (case d of Names ns \<Rightarrow> check_name c \<in> set ns | Nothing \<Rightarrow> False | Undeclared _ \<Rightarrow> required c)"

definition unread :: "declared \<Rightarrow> str option" where
  "unread d = (case d of Undeclared because \<Rightarrow> Some because | _ \<Rightarrow> None)"

section \<open>Where each required check stands\<close>

record standing =
  standing_name :: str
  standing_state :: "check_state option"
  standing_check :: "check option"

fun rank :: "check_state \<Rightarrow> nat" where
  "rank CheckFailed = 0"
| "rank CheckPending = 1"
| "rank CheckPassed = 2"
| "rank CheckNoVerdict = 3"
| "rank CheckSkipped = 4"

text \<open>\<open>min_by_key\<close>: the first of those with the least key.\<close>

fun min_by_key :: "('a \<Rightarrow> nat) \<Rightarrow> 'a list \<Rightarrow> 'a option" where
  "min_by_key k [] = None"
| "min_by_key k (x # xs) =
     (case min_by_key k xs of None \<Rightarrow> Some x | Some y \<Rightarrow> if k x \<le> k y then Some x else Some y)"

definition decided_check :: "check list \<Rightarrow> str \<Rightarrow> check option" where
  "decided_check cs n = min_by_key (\<lambda>c. rank (state c)) (filter (\<lambda>c. check_name c = n) cs)"

definition required_set :: "check list \<Rightarrow> declared \<Rightarrow> str list" where
  "required_set cs d =
     (case d of
        Names ns \<Rightarrow> ns
      | Nothing \<Rightarrow> []
      | Undeclared _ \<Rightarrow> sorted_list_of_set (set (map check_name (filter required cs))))"

definition standings :: "check list \<Rightarrow> declared \<Rightarrow> standing list" where
  "standings cs d =
     map (\<lambda>n. \<lparr>standing_name = n, standing_state = map_option state (decided_check cs n),
               standing_check = decided_check cs n\<rparr>)
       (required_set cs d)"

definition red :: "standing list \<Rightarrow> check option" where
  "red ss = Option.bind (List.find (\<lambda>s. standing_state s = Some CheckFailed) ss) standing_check"

definition skipped_in :: "standing list \<Rightarrow> str list" where
  "skipped_in ss = map standing_name (filter (\<lambda>s. standing_state s = Some CheckSkipped) ss)"

definition lets_through :: "standing list \<Rightarrow> declared \<Rightarrow> bool" where
  "lets_through ss d \<longleftrightarrow>
     (d = Nothing \<or> ss \<noteq> []) \<and>
     list_all (\<lambda>s. standing_state s = Some CheckPassed \<or> standing_state s = Some CheckSkipped) ss"

section \<open>The verdict\<close>

datatype change_verdict =
    VerdictPending "str list"
  | VerdictPassed
  | VerdictPassedWithSkipped "str list"
  | VerdictFailed "str list"
  | VerdictNoneRequired

definition named_where :: "(check_state option \<Rightarrow> bool) \<Rightarrow> standing list \<Rightarrow> str list" where
  "named_where wanted ss = map standing_name (filter (\<lambda>s. wanted (standing_state s)) ss)"

definition verdict_of :: "standing list \<Rightarrow> declared \<Rightarrow> change_verdict" where
  "verdict_of ss d =
     (let failed = named_where (\<lambda>x. x = Some CheckFailed) ss
      in if failed \<noteq> [] then VerdictFailed failed
         else if d = Nothing \<and> ss = [] then VerdictNoneRequired
         else if lets_through ss d then
           (let skipped = skipped_in ss
            in if skipped = [] then VerdictPassed else VerdictPassedWithSkipped skipped)
         else VerdictPending
           (named_where (\<lambda>x. x = None \<or> x = Some CheckPending \<or> x = Some CheckNoVerdict) ss))"

definition checks_verdict :: "check list \<Rightarrow> declared \<Rightarrow> bool \<Rightarrow> change_verdict" where
  "checks_verdict cs d complete =
     (let d = sharpened d cs complete in verdict_of (standings cs d) d)"

section \<open>Runs attached after a lift\<close>

definition ran_after_the_lift :: "check \<Rightarrow> check list \<Rightarrow> bool" where
  "ran_after_the_lift c snapshot =
     (let earlier = filter (\<lambda>seen. check_name seen = check_name c) snapshot
      in if earlier = [] then True
         else case started_at c of
           None \<Rightarrow> False
         | Some started \<Rightarrow> list_all (\<lambda>seen. started_at seen \<noteq> Some started) earlier)"

section \<open>Facts about standings\<close>

lemma min_by_key_None [simp]: "min_by_key k xs = None \<longleftrightarrow> xs = []"
  by (cases xs) (auto split: option.splits)

lemma min_by_key_SomeD:
  "min_by_key k xs = Some x \<Longrightarrow> x \<in> set xs \<and> (\<forall>y \<in> set xs. k x \<le> k y)"
  by (induction xs arbitrary: x) (fastforce split: option.splits if_splits)+

lemma decided_check_None: "decided_check cs n = None \<longleftrightarrow> (\<forall>c \<in> set cs. check_name c \<noteq> n)"
  by (auto simp: decided_check_def filter_empty_conv)

lemma decided_check_SomeD:
  assumes "decided_check cs n = Some c"
  shows "c \<in> set cs" "check_name c = n" "x \<in> set cs \<Longrightarrow> check_name x = n \<Longrightarrow> rank (state c) \<le> rank (state x)"
  using min_by_key_SomeD [OF assms [unfolded decided_check_def]] by auto

lemma rank_least: "rank s = 0 \<longleftrightarrow> s = CheckFailed" "rank s \<le> Suc 0 \<longleftrightarrow> s = CheckFailed \<or> s = CheckPending"
  by (cases s; simp)+

lemma decided_failed:
  "(\<exists>c. decided_check cs n = Some c \<and> state c = CheckFailed) \<longleftrightarrow>
   (\<exists>c \<in> set cs. check_name c = n \<and> state c = CheckFailed)"
proof
  assume "\<exists>c \<in> set cs. check_name c = n \<and> state c = CheckFailed"
  then obtain x where x: "x \<in> set cs" "check_name x = n" "state x = CheckFailed" by blast
  then obtain c where c: "decided_check cs n = Some c" using decided_check_None [of cs n] by fastforce
  from decided_check_SomeD(3) [OF this x(1,2)] x(3) rank_least(1) [of "state c"] c
  show "\<exists>c. decided_check cs n = Some c \<and> state c = CheckFailed" by simp
qed (use decided_check_SomeD in blast)

lemma standings_mem:
  "s \<in> set (standings cs d) \<longleftrightarrow>
     standing_name s \<in> set (required_set cs d) \<and>
     standing_state s = map_option state (decided_check cs (standing_name s)) \<and>
     standing_check s = decided_check cs (standing_name s)"
  by (cases s) (auto simp: standings_def)

lemma red_Some:
  assumes "red (standings cs d) = Some c"
  shows "c \<in> set cs \<and> state c = CheckFailed \<and> check_name c \<in> set (required_set cs d)"
proof -
  obtain s where "s \<in> set (standings cs d)" "standing_state s = Some CheckFailed" "standing_check s = Some c"
    using assms by (auto simp: red_def bind_eq_Some_conv dest!: find_SomeD)
  then have "decided_check cs (standing_name s) = Some c" "map_option state (Some c) = Some CheckFailed"
    "standing_name s \<in> set (required_set cs d)" by (simp_all add: standings_mem)
  with decided_check_SomeD show ?thesis by simp
qed

lemma red_None:
  "red (standings cs d) = None \<longleftrightarrow>
     (\<nexists>c. c \<in> set cs \<and> check_name c \<in> set (required_set cs d) \<and> state c = CheckFailed)"
proof
  assume none: "red (standings cs d) = None"
  show "\<nexists>c. c \<in> set cs \<and> check_name c \<in> set (required_set cs d) \<and> state c = CheckFailed"
  proof
    assume "\<exists>c. c \<in> set cs \<and> check_name c \<in> set (required_set cs d) \<and> state c = CheckFailed"
    then obtain n where n: "n \<in> set (required_set cs d)" "\<exists>c \<in> set cs. check_name c = n \<and> state c = CheckFailed"
      by blast
    from n(2) obtain c where c: "decided_check cs n = Some c" "state c = CheckFailed" using decided_failed by blast
    let ?s = "\<lparr>standing_name = n, standing_state = Some CheckFailed, standing_check = Some c\<rparr>"
    have s: "?s \<in> set (standings cs d)" using n(1) c by (simp add: standings_mem)
    show False
    proof (cases "List.find (\<lambda>s. standing_state s = Some CheckFailed) (standings cs d)")
      case None
      with s show False using find_NoneD by fastforce
    next
      case (Some x)
      with none have "standing_check x = None" by (simp add: red_def)
      with find_SomeD [OF Some] show False by (auto simp: standings_mem)
    qed
  qed
next
  assume "\<nexists>c. c \<in> set cs \<and> check_name c \<in> set (required_set cs d) \<and> state c = CheckFailed"
  then show "red (standings cs d) = None" using red_Some by (metis not_None_eq)
qed

lemma lets_through_iff:
  "lets_through (standings cs d) d \<longleftrightarrow>
     (d = Nothing \<or> required_set cs d \<noteq> []) \<and>
     (\<forall>n \<in> set (required_set cs d). \<exists>c. decided_check cs n = Some c \<and> state c \<in> {CheckPassed, CheckSkipped})"
  by (auto simp: lets_through_def standings_def list_all_iff)

lemma verdict_speaks:
  fixes cs d complete
  defines "d' \<equiv> sharpened d cs complete"
  shows "case checks_verdict cs d complete of
      VerdictFailed ns \<Rightarrow> ns \<noteq> [] \<and>
        set ns = {n. n \<in> set (required_set cs d') \<and> (\<exists>c. c \<in> set cs \<and> check_name c = n \<and> state c = CheckFailed)}
    | VerdictPending ns \<Rightarrow>
        \<not> (\<exists>c. c \<in> set cs \<and> check_name c \<in> set (required_set cs d') \<and> state c = CheckFailed) \<and>
        \<not> lets_through (standings cs d') d'
    | verdict \<Rightarrow>
        (required_set cs d' = [] \<longrightarrow> d' = Nothing) \<and>
        (\<forall>c. c \<in> set cs \<and> check_name c \<in> set (required_set cs d') \<longrightarrow> state c \<notin> {CheckFailed, CheckPending}) \<and>
        (\<forall>n \<in> set (required_set cs d'). \<exists>c. c \<in> set cs \<and> check_name c = n \<and>
           (state c = CheckPassed \<or> state c = CheckSkipped \<and> verdict \<notin> {VerdictPassed, VerdictNoneRequired}))"
proof -
  let ?ss = "standings cs d'"
  let ?failed = "named_where (\<lambda>x. x = Some CheckFailed) ?ss"
  have failed: "set ?failed = {n. n \<in> set (required_set cs d') \<and> (\<exists>c. c \<in> set cs \<and> check_name c = n \<and> state c = CheckFailed)}"
    using decided_failed [of cs] by (fastforce simp: named_where_def standings_def image_iff)
  have through: "(\<forall>c. c \<in> set cs \<and> check_name c \<in> set (required_set cs d') \<longrightarrow> state c \<notin> {CheckFailed, CheckPending}) \<and>
      (\<forall>n \<in> set (required_set cs d'). \<exists>c. c \<in> set cs \<and> check_name c = n \<and>
         (state c = CheckPassed \<or> state c = CheckSkipped \<and> skipped_in ?ss \<noteq> []))"
    if "lets_through ?ss d'"
  proof (rule conjI; intro allI impI ballI)
    fix c assume c: "c \<in> set cs \<and> check_name c \<in> set (required_set cs d')"
    with that obtain x where x: "decided_check cs (check_name c) = Some x" "state x \<in> {CheckPassed, CheckSkipped}"
      unfolding lets_through_iff by blast
    have "rank (state x) \<le> rank (state c)" using decided_check_SomeD(3) [OF x(1), of c] c by simp
    with x(2) show "state c \<notin> {CheckFailed, CheckPending}" by (cases "state c"; cases "state x") simp_all
  next
    fix n assume n: "n \<in> set (required_set cs d')"
    with that obtain x where x: "decided_check cs n = Some x" "state x \<in> {CheckPassed, CheckSkipped}"
      unfolding lets_through_iff by blast
    have "skipped_in ?ss \<noteq> []" if "state x = CheckSkipped"
      using that x n by (auto simp: skipped_in_def standings_def filter_empty_conv)
    with x decided_check_SomeD [OF x(1)]
    show "\<exists>c. c \<in> set cs \<and> check_name c = n \<and> (state c = CheckPassed \<or> state c = CheckSkipped \<and> skipped_in ?ss \<noteq> [])"
      by blast
  qed
  have empty: "?ss = [] \<longleftrightarrow> required_set cs d' = []" by (simp add: standings_def)
  consider "?failed \<noteq> []" | "?failed = []" "d' = Nothing" "?ss = []"
    | "?failed = []" "\<not> (d' = Nothing \<and> ?ss = [])" "lets_through ?ss d'" "skipped_in ?ss = []"
    | "?failed = []" "\<not> (d' = Nothing \<and> ?ss = [])" "lets_through ?ss d'" "skipped_in ?ss \<noteq> []"
    | "?failed = []" "\<not> (d' = Nothing \<and> ?ss = [])" "\<not> lets_through ?ss d'" by blast
  then show ?thesis
  proof cases
    case 1
    then have "checks_verdict cs d complete = VerdictFailed ?failed"
      by (simp add: checks_verdict_def verdict_of_def Let_def d'_def)
    with 1 failed show ?thesis by simp
  next
    case 2
    then have "checks_verdict cs d complete = VerdictNoneRequired"
      by (simp add: checks_verdict_def verdict_of_def Let_def d'_def)
    with 2 empty show ?thesis by simp
  next
    case 3
    then have "checks_verdict cs d complete = VerdictPassed"
      by (simp add: checks_verdict_def verdict_of_def Let_def d'_def)
    moreover have "required_set cs d' = [] \<longrightarrow> d' = Nothing" using 3(3) unfolding lets_through_iff by blast
    ultimately show ?thesis using 3 through by simp
  next
    case 4
    then have "checks_verdict cs d complete = VerdictPassedWithSkipped (skipped_in ?ss)"
      by (simp add: checks_verdict_def verdict_of_def Let_def d'_def)
    moreover have "required_set cs d' = [] \<longrightarrow> d' = Nothing" using 4(3) unfolding lets_through_iff by blast
    ultimately show ?thesis using 4 through by simp
  next
    case 5
    then have "checks_verdict cs d complete =
        VerdictPending (named_where (\<lambda>x. x = None \<or> x = Some CheckPending \<or> x = Some CheckNoVerdict) ?ss)"
      by (simp add: checks_verdict_def verdict_of_def Let_def d'_def)
    with 5 failed show ?thesis by auto
  qed
qed

section \<open>Properties\<close>

text \<open>C26 A verdict that lets a change through speaks for every required check: passed, passed with
  skipped and nothing-required are answered only when no entry of a required check is red or
  still running, each required check has a run that passed or was skipped, and an empty required
  set is the host's own complete answer; and a verdict of failed names exactly the required
  checks with a red entry.\<close>

theorem verdict_speaks_for_every_required_check:
  "let d' = sharpened d cs complete
   in case checks_verdict cs d complete of
        VerdictFailed ns \<Rightarrow> ns \<noteq> [] \<and>
          set ns = {n. n \<in> set (required_set cs d') \<and> (\<exists>c. c \<in> set cs \<and> check_name c = n \<and> state c = CheckFailed)}
      | VerdictPending ns \<Rightarrow>
          \<not> (\<exists>c. c \<in> set cs \<and> check_name c \<in> set (required_set cs d') \<and> state c = CheckFailed) \<and>
          \<not> lets_through (standings cs d') d'
      | verdict \<Rightarrow>
          (required_set cs d' = [] \<longrightarrow> d' = Nothing) \<and>
          (\<forall>c. c \<in> set cs \<and> check_name c \<in> set (required_set cs d') \<longrightarrow> state c \<notin> {CheckFailed, CheckPending}) \<and>
          (\<forall>n \<in> set (required_set cs d'). \<exists>c. c \<in> set cs \<and> check_name c = n \<and>
             (state c = CheckPassed \<or> state c = CheckSkipped \<and> verdict \<notin> {VerdictPassed, VerdictNoneRequired}))"
  unfolding Let_def by (rule verdict_speaks)

definition lint_run :: "str \<Rightarrow> check" where
  "lint_run ended = \<lparr>check_name = ''lint'', status = ''completed'', conclusion = Some ended, required = False,
     head = None, started_at = None\<rparr>"

theorem verdict_speaks_for_every_required_check_witness:
  "checks_verdict [lint_run ''skipped'', lint_run ''Success''] (Names [''lint'']) True = VerdictPassed \<and>
   (\<exists>c. c \<in> set [lint_run ''skipped'', lint_run ''Success''] \<and> check_name c = ''lint'' \<and> state c = CheckPassed)"
proof -
  let ?cs = "[lint_run ''skipped'', lint_run ''Success'']"
  have v: "checks_verdict ?cs (Names [''lint'']) True = VerdictPassed" by code_simp
  have "required_set ?cs (sharpened (Names [''lint'']) ?cs True) = [''lint'']"
    by (simp add: required_set_def sharpened_def)
  with verdict_speaks_for_every_required_check [of "Names [''lint'']" ?cs True] v show ?thesis
    by (simp add: Let_def)
qed

end
