(* ===== verification/Watch.thy ===== *)
theory Watch
  imports Checks "HOL-Library.While_Combinator"
begin

text \<open>
  A publication watching one change request at the commit it pushed (\<open>publish.rs\<close>, \<open>Watcher\<close>):
  reading the host, reporting what moved, settling a ready change, settling a draft or lifting it
  early, and waiting for the host's own merge. The host, the clock and the caller's cancellation
  are parameters over a world \<open>'w\<close> that every call may change; time passes in the calls. A
  watch is a loop whose \<open>None\<close> is one that never ends. What is printed on stderr, the wording of
  a refusal and the text of a log are left out; what decides them is kept.
\<close>

section \<open>What a watch talks to\<close>

datatype merge_outcome = Merged str | Queued | OpenForReview

datatype mergeability = Mergeable | Conflicting str | MergeUnknown

datatype asked_policy = AskAuto | AskDirect

record ('w, 'e) remote_host =
  change_checks_of :: "'w \<Rightarrow> ('e + change_checks) \<times> 'w"
  check_log_of :: "check \<Rightarrow> 'w \<Rightarrow> ('e + str) \<times> 'w"
  head_activity_of :: "'w \<Rightarrow> ('e + (str \<times> str list)) \<times> 'w"  \<comment> \<open>the head, and what is in progress on it\<close>
  required_on :: "'w \<Rightarrow> ('e + required_checks) \<times> 'w"
  ready_for_review :: "'w \<Rightarrow> ('e + unit) \<times> 'w"
  is_draft_of :: "'w \<Rightarrow> ('e + bool) \<times> 'w"
  merge_asked :: "asked_policy \<Rightarrow> 'w \<Rightarrow> ('e + merge_outcome) \<times> 'w"
  merged_at_of :: "'w \<Rightarrow> ('e + str option) \<times> 'w"
  mergeability_of :: "'w \<Rightarrow> ('e + mergeability) \<times> 'w"
  allows_auto_merge_of :: "'w \<Rightarrow> ('e + bool) \<times> 'w"
  not_implemented :: "'e \<Rightarrow> bool"
  refusal_text :: "'e \<Rightarrow> str"
  now_at :: "'w \<Rightarrow> nat"
  pause_for :: "'w \<Rightarrow> bool \<times> 'w"       \<comment> \<open>wait out one interval: whether the caller cancelled\<close>

record watch =
  pushed :: str
  base_branch :: str
  bound :: nat
  grace :: nat
  reuse :: nat
  warn_on_early_lift :: bool

section \<open>What a watch records\<close>

datatype ruling = RulingPassed | RulingPassedWithSkipped | RulingFailed | RulingNoVerdict

definition ruling_passed :: "bool \<Rightarrow> ruling" where
  "ruling_passed with_skipped = (if with_skipped then RulingPassedWithSkipped else RulingPassed)"

datatype emission =
    CheckMoved check "str option" "str list" bool     \<comment> \<open>the status before, the artifacts, whether required\<close>
  | SettledChecks "str list" "str option"             \<comment> \<open>the skipped ones, and why unread\<close>
  | RanGate ruling "(str \<times> check option) list"
  | LiftedDraft
  | LiftedDraftEarly "str list" bool
  | ArmedMerge str
  | QueuedMerge
  | TookTurn
  | DraftedAwaitingChecks
  | DraftHeld
  | DraftKeptForReview
  | ChangeMergedAt str

type_synonym transition = "str \<times> str option \<times> str option"

record 'w watcher =
  world :: 'w
  started :: nat
  last_reported :: "(str \<times> transition) list"
  logs :: "(str \<times> str) list"
  settled_once :: bool
  gate_recorded :: bool
  declares :: "declared option"
  elapsed :: bool
  armed :: bool
  skipped_at_elapse :: "str list"
  busy_since :: "nat option"
  emitted :: "emission list"

datatype unsettled_because =
    NothingAboutThePush
  | StillUnsettled "(str \<times> bool) list" "(str \<times> str) list"  \<comment> \<open>pending, with no run yet or not; no verdict\<close>
  | OnlyNoVerdicts "(str \<times> str) list"
  | SkippedOnDraft "str list"
  | NoneDeclared
  | NoneMarked
  | EverySettled
  | DidNotRerun

datatype 'e watch_error =
    HostRefused 'e
  | ChecksFailed check
  | ChecksUnsettled unsettled_because "str option"
  | SyncConflict str
  | CancelledWatch

definition unsettled_reason :: "reported \<Rightarrow> standing list \<Rightarrow> declared \<Rightarrow> unsettled_because \<times> str option" where
  "unsettled_reason r ss d =
     (case r of
        NotYet \<Rightarrow> (NothingAboutThePush, None)
      | About _ \<Rightarrow>
          (let pending = filter_map (\<lambda>s. case standing_state s of
                 Some CheckPending \<Rightarrow> Some (standing_name s, False)
               | None \<Rightarrow> Some (standing_name s, True)
               | _ \<Rightarrow> None) ss;
               no_verdict = map (\<lambda>s. (standing_name s,
                   case Option.bind (standing_check s) conclusion of Some c \<Rightarrow> c | None \<Rightarrow> ''unknown''))
                 (filter (\<lambda>s. standing_state s = Some CheckNoVerdict) ss);
               skipped = skipped_in ss
           in (if pending \<noteq> [] then StillUnsettled pending no_verdict
               else if no_verdict \<noteq> [] then OnlyNoVerdicts no_verdict
               else if skipped \<noteq> [] then SkippedOnDraft skipped
               else if ss = [] then (if d = Nothing then NoneDeclared else NoneMarked)
               else EverySettled, unread d)))"

section \<open>One reading\<close>

definition emit :: "emission \<Rightarrow> 'w watcher \<Rightarrow> 'w watcher" where
  "emit e s = s\<lparr>emitted := emitted s @ [e]\<rparr>"

definition declared_once :: "('w, 'e) remote_host \<Rightarrow> watch \<Rightarrow> 'w watcher \<Rightarrow> declared \<times> 'w watcher" where
  "declared_once h cfg s =
     (case declares s of
        Some d \<Rightarrow> (d, s)
      | None \<Rightarrow>
          (let (answer, w) = required_on h (world s);
               d = declared_required (refusal_text h) (base_branch cfg) answer
           in (d, s\<lparr>world := w, declares := Some d\<rparr>)))"

definition replaced :: "str \<Rightarrow> 'v \<Rightarrow> (str \<times> 'v) list \<Rightarrow> (str \<times> 'v) list" where
  "replaced n x xs = filter (\<lambda>(m, _). m \<noteq> n) xs @ [(n, x)]"

definition transition_of :: "check \<Rightarrow> transition" where
  "transition_of c = (status c, conclusion c, started_at c)"

definition previous_of :: "check \<Rightarrow> 'w watcher \<Rightarrow> transition option" where
  "previous_of c s = map_option snd (List.find (\<lambda>(n, _). n = check_name c) (last_reported s))"

definition note_check :: "('w, 'e) remote_host \<Rightarrow> check \<Rightarrow> 'w watcher \<Rightarrow> 'w watcher" where
  "note_check h c s =
     (if previous_of c s = Some (transition_of c) then s
      else (let previous = previous_of c s;
                (artifacts, s) =
                  (if settled c then
                     (case check_log_of h c (world s) of
                        (Inr i, w) \<Rightarrow> ([i], s\<lparr>world := w, logs := replaced (check_name c) i (logs s)\<rparr>)
                      | (Inl _, w) \<Rightarrow> ([], s\<lparr>world := w\<rparr>))
                   else ([], s));
                needed = (case declares s of None \<Rightarrow> required c | Some d \<Rightarrow> requires d c)
            in (emit (CheckMoved c (map_option fst previous) artifacts needed) s)
                 \<lparr>last_reported := replaced (check_name c) (transition_of c) (last_reported s)\<rparr>))"

definition read_host ::
    "('w, 'e) remote_host \<Rightarrow> watch \<Rightarrow> 'w watcher \<Rightarrow> ('e watch_error + reading) \<times> 'w watcher" where
  "read_host h cfg s =
     (case change_checks_of h (world s) of
        (Inl e, w) \<Rightarrow> (Err (HostRefused e), s\<lparr>world := w\<rparr>)
      | (Inr answered, w) \<Rightarrow>
          (let r = reported_of (answer_checks answered) (pushed cfg)
           in (Ok \<lparr>reported = r, from_rollup = complete_checks answered\<rparr>,
               fold (note_check h) (reported_checks r) (s\<lparr>world := w\<rparr>))))"

definition still_running :: "('w, 'e) remote_host \<Rightarrow> watch \<Rightarrow> reading \<Rightarrow> 'w watcher \<Rightarrow> bool \<times> 'w watcher" where
  "still_running h cfg r s =
     (if list_ex (\<lambda>c. \<not> settled c) (reported_checks (reported r)) then (True, s)
      else if (case busy_since s of None \<Rightarrow> False | Some t \<Rightarrow> now_at h (world s) - t < reuse cfg) then (True, s)
      else (let (answer, w) = head_activity_of h (world s);
                busy = (case answer of Inl _ \<Rightarrow> False | Inr (hd', progress) \<Rightarrow> hd' = pushed cfg \<and> progress \<noteq> [])
            in (busy, s\<lparr>world := w, busy_since := (if busy then Some (now_at h w) else None)\<rparr>)))"

definition record_gate :: "ruling \<Rightarrow> standing list \<Rightarrow> 'w watcher \<Rightarrow> 'w watcher" where
  "record_gate v ss s =
     (if gate_recorded s then s
      else emit (RanGate v (map (\<lambda>x. (standing_name x, standing_check x)) ss)) (s\<lparr>gate_recorded := True\<rparr>))"

definition failed :: "standing list \<Rightarrow> check \<Rightarrow> 'w watcher \<Rightarrow> 'e watch_error \<times> 'w watcher" where
  "failed ss c s = (ChecksFailed c, record_gate RulingFailed ss s)"

definition out_of_time :: "('w, 'e) remote_host \<Rightarrow> watch \<Rightarrow> 'w watcher \<Rightarrow> bool" where
  "out_of_time h cfg s \<longleftrightarrow> now_at h (world s) - started s \<ge> bound cfg"

definition unsettled ::
    "reading \<Rightarrow> standing list \<Rightarrow> declared \<Rightarrow> 'w watcher \<Rightarrow> 'e watch_error \<times> 'w watcher" where
  "unsettled r ss d s =
     (let s = record_gate RulingNoVerdict ss (s\<lparr>elapsed := True, skipped_at_elapse := skipped_in ss\<rparr>);
          (because, marking) = unsettled_reason (reported r) ss d
      in (ChecksUnsettled because marking, s))"

definition record_settled :: "standing list \<Rightarrow> str option \<Rightarrow> 'w watcher \<Rightarrow> 'w watcher" where
  "record_settled ss marking s =
     (if settled_once s then s
      else (let skipped = skipped_in ss
            in record_gate (ruling_passed (skipped \<noteq> [])) ss
                 (emit (SettledChecks skipped marking) (s\<lparr>settled_once := True\<rparr>))))"

text \<open>One interval waited out, or the watch ended by the caller.\<close>

definition pausing :: "('w, 'e) remote_host \<Rightarrow> 'w watcher \<Rightarrow> bool \<times> 'w watcher" where
  "pausing h s = (let (cancelled, w) = pause_for h (world s) in (cancelled, s\<lparr>world := w\<rparr>))"

section \<open>Loops\<close>

text \<open>A round of a loop says how the watch ended, or nothing, and the loop goes on.\<close>

definition watch_loop ::
    "('w watcher \<Rightarrow> 'r option \<times> 'w watcher) \<Rightarrow> 'w watcher \<Rightarrow> ('r \<times> 'w watcher) option" where
  "watch_loop round s =
     map_option (\<lambda>(r, s). (the r, s))
       (while_option (\<lambda>(r, _). r = None) (\<lambda>(_, s). round s) (None, s))"

definition pause_round :: "('w, 'e) remote_host \<Rightarrow> 'w watcher \<Rightarrow> ('e watch_error + 't) option \<times> 'w watcher" where
  "pause_round h s =
     (let (cancelled, s) = pausing h s in (if cancelled then Some (Err CancelledWatch) else None, s))"

definition wait_round ::
    "('w, 'e) remote_host \<Rightarrow> watch \<Rightarrow> reading \<Rightarrow> declared \<Rightarrow> 'w watcher \<Rightarrow>
     ('e watch_error + 't) option \<times> 'w watcher" where
  "wait_round h cfg r d s =
     (if out_of_time h cfg s
      then (let (e, s) = unsettled r (standings (reported_checks (reported r)) d) d s in (Some (Err e), s))
      else pause_round h s)"

definition settle_ready_round ::
    "('w, 'e) remote_host \<Rightarrow> watch \<Rightarrow> declared \<Rightarrow> 'w watcher \<Rightarrow> ('e watch_error + unit) option \<times> 'w watcher" where
  "settle_ready_round h cfg declared s =
     (case read_host h cfg s of
        (Inl e, s) \<Rightarrow> (Some (Err e), s)
      | (Inr r, s) \<Rightarrow>
          (let d = given declared r
           in case reported r of
                NotYet \<Rightarrow> wait_round h cfg r d s
              | About cs \<Rightarrow>
                  (let ss = standings cs d
                   in case verdict_of ss d of
                        VerdictPending _ \<Rightarrow> wait_round h cfg r d s
                      | VerdictFailed _ \<Rightarrow>
                          (case red ss of
                             Some c \<Rightarrow> (let (e, s) = failed ss c s in (Some (Err e), s))
                           | None \<Rightarrow> wait_round h cfg r d s)
                      | _ \<Rightarrow> (Some (Ok ()), record_settled ss (unread d) s))))"

definition settle_ready ::
    "('w, 'e) remote_host \<Rightarrow> watch \<Rightarrow> 'w watcher \<Rightarrow> (('e watch_error + unit) \<times> 'w watcher) option" where
  "settle_ready h cfg s =
     (let (declared, s) = declared_once h cfg s
      in watch_loop (settle_ready_round h cfg declared) s)"

section \<open>Drafts\<close>

definition lift_draft :: "('w, 'e) remote_host \<Rightarrow> 'w watcher \<Rightarrow> ('e watch_error + unit) \<times> 'w watcher" where
  "lift_draft h s =
     (case ready_for_review h (world s) of
        (Inl e, w) \<Rightarrow> (Err (HostRefused e), s\<lparr>world := w\<rparr>)
      | (Inr _, w) \<Rightarrow> (Ok (), emit LiftedDraft (s\<lparr>world := w\<rparr>)))"

definition lift_any_draft :: "('w, 'e) remote_host \<Rightarrow> 'w watcher \<Rightarrow> ('e watch_error + unit) \<times> 'w watcher" where
  "lift_any_draft h s =
     (case is_draft_of h (world s) of
        (Inr True, w) \<Rightarrow> lift_draft h (s\<lparr>world := w\<rparr>)
      | (Inr False, w) \<Rightarrow> (Ok (), s\<lparr>world := w\<rparr>)
      | (Inl e, w) \<Rightarrow> (if not_implemented h e then Ok () else Err (HostRefused e), s\<lparr>world := w\<rparr>))"

definition lift_early ::
    "('w, 'e) remote_host \<Rightarrow> watch \<Rightarrow> str list \<Rightarrow> 'w watcher \<Rightarrow> ('e watch_error + unit) \<times> 'w watcher" where
  "lift_early h cfg awaited s =
     (case lift_draft h s of
        (Inl e, s) \<Rightarrow> (Err e, s)
      | (Inr _, s) \<Rightarrow> (Ok (), emit (LiftedDraftEarly awaited (warn_on_early_lift cfg)) s))"

definition counted_after :: "check list \<Rightarrow> check list \<Rightarrow> check list" where
  "counted_after snapshot cs =
     filter (\<lambda>c. \<not> (\<not> ran_after_the_lift c snapshot \<and> state c = CheckSkipped)) cs"

definition rerun_in :: "check list \<Rightarrow> standing list \<Rightarrow> check list \<Rightarrow> bool" where
  "rerun_in snapshot ss cs \<longleftrightarrow>
     list_ex (\<lambda>c. ran_after_the_lift c snapshot \<and>
       (ss = [] \<or> list_ex (\<lambda>s. standing_name s = check_name c) ss)) cs"

definition all_through :: "standing list \<Rightarrow> bool" where
  "all_through ss \<longleftrightarrow>
     list_all (\<lambda>s. standing_state s = Some CheckPassed \<or> standing_state s = Some CheckSkipped) ss"

definition after_lift_round ::
    "('w, 'e) remote_host \<Rightarrow> watch \<Rightarrow> declared \<Rightarrow> check list \<Rightarrow> nat \<Rightarrow> 'w watcher \<Rightarrow>
     ('e watch_error + unit) option \<times> 'w watcher" where
  "after_lift_round h cfg d snapshot lifted s =
     (case read_host h cfg s of
        (Inl e, s) \<Rightarrow> (Some (Err e), s)
      | (Inr r, s) \<Rightarrow>
          (let cs = reported_checks (reported r);
               ss = standings (counted_after snapshot cs) d;
               rerun = rerun_in snapshot ss cs
           in case red ss of
                Some c \<Rightarrow> (let (e, s) = failed ss c s in (Some (Err e), s))
              | None \<Rightarrow>
                  (if rerun \<and> all_through ss then (Some (Ok ()), record_settled ss (unread d) s)
                   else
                     (let (busy, s) = (if \<not> rerun \<and> now_at h (world s) - lifted \<ge> grace cfg
                                       then still_running h cfg r s else (True, s))
                      in if \<not> busy
                         then (Some (Err (ChecksUnsettled DidNotRerun None)), record_gate RulingNoVerdict ss s)
                         else if out_of_time h cfg s
                         then (let (e, s) = unsettled r ss d s;
                                   also_skipped = filter (\<lambda>n. n \<notin> set (skipped_at_elapse s))
                                                    (skipped_in (standings cs d))
                               in (Some (Err e), s\<lparr>skipped_at_elapse := skipped_at_elapse s @ also_skipped\<rparr>))
                         else pause_round h s))))"

definition settle_after_early_lift ::
    "('w, 'e) remote_host \<Rightarrow> watch \<Rightarrow> declared \<Rightarrow> check list \<Rightarrow> 'w watcher \<Rightarrow>
     (('e watch_error + unit) \<times> 'w watcher) option" where
  "settle_after_early_lift h cfg d snapshot s =
     watch_loop (after_lift_round h cfg d snapshot (now_at h (world s))) s"

text \<open>How a draft's own loop ends: green as a draft, or lifted early with what was reported on it.\<close>

datatype draft_end = GreenOnTheDraft | LiftedEarly declared "check list"

definition settle_draft_round ::
    "('w, 'e) remote_host \<Rightarrow> watch \<Rightarrow> declared \<Rightarrow> 'w watcher \<Rightarrow>
     ('e watch_error + draft_end) option \<times> 'w watcher" where
  "settle_draft_round h cfg declared s =
     (case read_host h cfg s of
        (Inl e, s) \<Rightarrow> (Some (Err e), s)
      | (Inr r, s) \<Rightarrow>
          (let d = given declared r; cs = reported_checks (reported r); ss = standings cs d
           in if d = Nothing then (Some (Ok GreenOnTheDraft), record_settled [] None s)
              else case red ss of
                Some c \<Rightarrow> (let (e, s) = failed ss c s in (Some (Err e), s))
              | None \<Rightarrow>
                  (if ss \<noteq> [] \<and> list_all (\<lambda>x. standing_state x = Some CheckPassed) ss
                   then (Some (Ok GreenOnTheDraft), record_settled ss (unread d) s)
                   else
                     (let not_run = map standing_name (filter (\<lambda>x. standing_state x = None \<or>
                                        standing_state x = Some CheckSkipped) ss);
                          running = list_ex (\<lambda>x. standing_state x = Some CheckPending \<or>
                                        standing_state x = Some CheckNoVerdict) ss;
                          unseen = (unread d \<noteq> None \<and> ss = []);
                          over = (now_at h (world s) - started s \<ge> grace cfg)
                      in if unseen \<and> over \<and> cs \<noteq> [] \<and> list_all (\<lambda>c. state c \<noteq> CheckSkipped) cs
                         then (Some (Ok GreenOnTheDraft), record_settled ss (unread d) s)
                         else
                           (let (busy, s) = (if over \<and> \<not> running \<and> (not_run \<noteq> [] \<or> unseen)
                                             then still_running h cfg r s else (True, s))
                            in if \<not> busy
                               then (case lift_early h cfg not_run s of
                                       (Inl e, s) \<Rightarrow> (Some (Err e), s)
                                     | (Inr _, s) \<Rightarrow> (Some (Ok (LiftedEarly d cs)), s))
                               else wait_round h cfg r d s)))))"

definition settle_draft ::
    "('w, 'e) remote_host \<Rightarrow> watch \<Rightarrow> 'w watcher \<Rightarrow> (('e watch_error + bool) \<times> 'w watcher) option" where
  "settle_draft h cfg s =
     (let (declared, s) = declared_once h cfg s
      in case watch_loop (settle_draft_round h cfg declared) s of
           None \<Rightarrow> None
         | Some (Inl e, s) \<Rightarrow> Some (Err e, s)
         | Some (Inr GreenOnTheDraft, s) \<Rightarrow> Some (Ok True, s)
         | Some (Inr (LiftedEarly d snapshot), s) \<Rightarrow>
             map_option (\<lambda>(r, s). (and_then r (\<lambda>_. Ok False), s))
               (settle_after_early_lift h cfg d snapshot s))"

definition settle ::
    "('w, 'e) remote_host \<Rightarrow> watch \<Rightarrow> bool \<Rightarrow> 'w watcher \<Rightarrow> (('e watch_error + bool) \<times> 'w watcher) option" where
  "settle h cfg drafted s =
     (if drafted then settle_draft h cfg s
      else map_option (\<lambda>(r, s). (and_then r (\<lambda>_. Ok False), s)) (settle_ready h cfg s))"

section \<open>The host's own merge\<close>

datatype 'o watch_ended = LandedAt str | EndedWith 'o | Resettle

definition merge_or_find_merged ::
    "('w, 'e) remote_host \<Rightarrow> asked_policy \<Rightarrow> 'w watcher \<Rightarrow> ('e watch_error + merge_outcome) \<times> 'w watcher" where
  "merge_or_find_merged h policy s =
     (case merge_asked h policy (world s) of
        (Inr outcome, w) \<Rightarrow> (Ok outcome, s\<lparr>world := w\<rparr>)
      | (Inl refused, w) \<Rightarrow>
          (case merged_at_of h w of
             (Inr (Some sha), w) \<Rightarrow> (Ok (Merged sha), s\<lparr>world := w\<rparr>)
           | (_, w) \<Rightarrow> (Err (HostRefused refused), s\<lparr>world := w\<rparr>)))"

text \<open>The part of a round before it pauses: the arming, the host's record and its mergeability.\<close>

definition arm_round ::
    "('w, 'e) remote_host \<Rightarrow> 'w watcher \<Rightarrow> ('e watch_error + 'o watch_ended) option \<times> 'w watcher" where
  "arm_round h s =
     (if armed s then (None, s)
      else case merge_or_find_merged h AskAuto s of
        (Inl e, s) \<Rightarrow> (Some (Err e), s)
      | (Inr (Merged sha), s) \<Rightarrow> (Some (Ok (LandedAt sha)), s\<lparr>armed := True\<rparr>)
      | (Inr _, s) \<Rightarrow> (None, s\<lparr>armed := True\<rparr>))"

definition landed_round ::
    "('w, 'e) remote_host \<Rightarrow> 'w watcher \<Rightarrow> ('e watch_error + 'o watch_ended) option \<times> 'w watcher" where
  "landed_round h s =
     (case merged_at_of h (world s) of
        (Inl e, w) \<Rightarrow> (Some (Err (HostRefused e)), s\<lparr>world := w\<rparr>)
      | (Inr (Some sha), w) \<Rightarrow> (Some (Ok (LandedAt sha)), s\<lparr>world := w\<rparr>)
      | (Inr None, w) \<Rightarrow>
          (case mergeability_of h w of
             (Inr (Conflicting said), w) \<Rightarrow> (Some (Err (SyncConflict said)), s\<lparr>world := w\<rparr>)
           | (Inr _, w) \<Rightarrow> (None, s\<lparr>world := w\<rparr>)
           | (Inl e, w) \<Rightarrow> (if not_implemented h e then None else Some (Err (HostRefused e)), s\<lparr>world := w\<rparr>)))"

definition recheck_round ::
    "('w, 'e) remote_host \<Rightarrow> watch \<Rightarrow> declared \<Rightarrow> 'w watcher \<Rightarrow>
     ('e watch_error + 'o watch_ended) option \<times> 'w watcher" where
  "recheck_round h cfg declared s =
     (case read_host h cfg s of
        (Inl e, s) \<Rightarrow> (Some (Err e), s)
      | (Inr r, s) \<Rightarrow>
          (let d = given declared r
           in case reported r of
                NotYet \<Rightarrow> (Some (Ok Resettle), s)
              | About cs \<Rightarrow>
                  (let ss = standings cs d
                   in case red ss of
                        Some c \<Rightarrow> (let (e, s) = failed ss c s in (Some (Err e), s))
                      | None \<Rightarrow>
                          (if \<not> lets_through ss d then (Some (Ok Resettle), s)
                           else if out_of_time h cfg s
                           then (let (e, s) = unsettled r ss d s in (Some (Err e), s))
                           else (None, s)))))"

definition then_round :: "'r option \<times> 'w watcher \<Rightarrow> ('w watcher \<Rightarrow> 'r option \<times> 'w watcher) \<Rightarrow> 'r option \<times> 'w watcher" where
  "then_round p f = (case p of (Some r, s) \<Rightarrow> (Some r, s) | (None, s) \<Rightarrow> f s)"

definition merge_round ::
    "('w, 'e) remote_host \<Rightarrow> watch \<Rightarrow> declared \<Rightarrow> 'w watcher \<Rightarrow>
     ('e watch_error + 'o watch_ended) option \<times> 'w watcher" where
  "merge_round h cfg declared s =
     then_round (then_round (then_round (arm_round h s) (landed_round h)) (pause_round h))
       (recheck_round h cfg declared)"

definition await_the_merge ::
    "('w, 'e) remote_host \<Rightarrow> watch \<Rightarrow> 'w watcher \<Rightarrow> (('e watch_error + 'o watch_ended) \<times> 'w watcher) option" where
  "await_the_merge h cfg s =
     (let (declared, s) = declared_once h cfg s in watch_loop (merge_round h cfg declared) s)"

section \<open>What every part of a watch keeps\<close>

fun is_settlement :: "emission \<Rightarrow> bool" where
  "is_settlement (SettledChecks _ _) = True"
| "is_settlement _ = False"

fun is_gate_run :: "emission \<Rightarrow> bool" where
  "is_gate_run (RanGate _ _) = True"
| "is_gate_run _ = False"

text \<open>One settlement and one gate run are recorded exactly when they are marked as recorded.\<close>

definition once :: "'w watcher \<Rightarrow> bool" where
  "once s \<longleftrightarrow>
     length (filter is_settlement (emitted s)) = (if settled_once s then 1 else 0) \<and>
     length (filter is_gate_run (emitted s)) = (if gate_recorded s then 1 else 0)"

text \<open>The clock never goes back in a call, and an interval that is waited out takes time.\<close>

definition steady :: "('w, 'e) remote_host \<Rightarrow> bool" where
  "steady h \<longleftrightarrow>
     (\<forall>w. now_at h w \<le> now_at h (snd (change_checks_of h w)) \<and>
          now_at h w \<le> now_at h (snd (head_activity_of h w)) \<and>
          now_at h w \<le> now_at h (snd (required_on h w)) \<and>
          now_at h w \<le> now_at h (snd (ready_for_review h w)) \<and>
          now_at h w \<le> now_at h (snd (merged_at_of h w)) \<and>
          now_at h w \<le> now_at h (snd (mergeability_of h w)) \<and>
          now_at h w \<le> now_at h (snd (pause_for h w)) \<and>
          (\<not> fst (pause_for h w) \<longrightarrow> now_at h w < now_at h (snd (pause_for h w)))) \<and>
     (\<forall>w c. now_at h w \<le> now_at h (snd (check_log_of h c w))) \<and>
     (\<forall>w p. now_at h w \<le> now_at h (snd (merge_asked h p w)))"

lemma steadyD:
  assumes "steady h"
  shows "change_checks_of h w = (r1, w') \<Longrightarrow> now_at h w \<le> now_at h w'"
    "head_activity_of h w = (r2, w') \<Longrightarrow> now_at h w \<le> now_at h w'"
    "required_on h w = (r3, w') \<Longrightarrow> now_at h w \<le> now_at h w'"
    "ready_for_review h w = (r4, w') \<Longrightarrow> now_at h w \<le> now_at h w'"
    "merged_at_of h w = (r5, w') \<Longrightarrow> now_at h w \<le> now_at h w'"
    "mergeability_of h w = (r6, w') \<Longrightarrow> now_at h w \<le> now_at h w'"
    "pause_for h w = (r7, w') \<Longrightarrow> now_at h w \<le> now_at h w'"
    "pause_for h w = (False, w') \<Longrightarrow> now_at h w < now_at h w'"
    "check_log_of h c w = (r8, w') \<Longrightarrow> now_at h w \<le> now_at h w'"
    "merge_asked h p w = (r9, w') \<Longrightarrow> now_at h w \<le> now_at h w'"
  using assms unfolding steady_def by (metis fst_conv snd_conv)+

definition moves :: "('w, 'e) remote_host \<Rightarrow> 'w watcher \<Rightarrow> 'w watcher \<Rightarrow> bool" where
  "moves h s t \<longleftrightarrow>
     (once s \<longrightarrow> once t) \<and> started t = started s \<and>
     (steady h \<longrightarrow> now_at h (world s) \<le> now_at h (world t))"

named_theorems moving

lemma moves_refl [moving, simp]: "moves h s s"
  by (simp add: moves_def)

lemma moves_trans: "moves h s t \<Longrightarrow> moves h t u \<Longrightarrow> moves h s u"
  by (auto simp: moves_def)

text \<open>A change of the world, or of what neither the records nor the clock depend on.\<close>

lemma moves_world:
  assumes "steady h \<Longrightarrow> now_at h (world s) \<le> now_at h w"
  shows "moves h s (s\<lparr>world := w\<rparr>)"
  using assms by (simp add: moves_def once_def)

lemma moves_same:
  assumes "emitted t = emitted s" "settled_once t = settled_once s" "gate_recorded t = gate_recorded s"
    "started t = started s" "world t = world s"
  shows "moves h s t"
  using assms by (simp add: moves_def once_def)

lemma moves_emit: "\<not> is_settlement e \<Longrightarrow> \<not> is_gate_run e \<Longrightarrow> moves h s (emit e s)"
  by (simp add: moves_def once_def emit_def)

lemma moves_note: "moves h s (note_check h c s)"
proof (cases "previous_of c s = Some (transition_of c)")
  case True
  then show ?thesis by (simp add: note_check_def)
next
  case False
  obtain r w where l: "check_log_of h c (world s) = (r, w)" by fastforce
  have t: "steady h \<Longrightarrow> now_at h (world s) \<le> now_at h w" using steadyD(9) l by metis
  show ?thesis
    using False t
    by (auto simp: note_check_def l moves_def once_def emit_def Let_def split: sum.splits)
qed

lemma moves_notes: "moves h s (fold (note_check h) cs s)"
  by (induction cs arbitrary: s) (auto intro: moves_trans moves_note)

lemma moves_read: "read_host h cfg s = (r, t) \<Longrightarrow> moves h s t"
proof -
  assume r: "read_host h cfg s = (r, t)"
  obtain a w where a: "change_checks_of h (world s) = (a, w)" by fastforce
  then have "moves h s (s\<lparr>world := w\<rparr>)" by (intro moves_world) (metis steadyD(1))
  with r a show ?thesis by (auto simp: read_host_def Let_def split: sum.splits intro: moves_trans moves_notes)
qed

lemma moves_still_running: "still_running h cfg r s = (b, t) \<Longrightarrow> moves h s t"
  using steadyD(2) [of h "world s"]
  by (auto simp: still_running_def moves_def once_def Let_def split: if_splits prod.splits)

lemma moves_gate: "moves h s (record_gate v ss s)"
  by (simp add: record_gate_def moves_def once_def emit_def)

lemma moves_settled: "moves h s (record_settled ss m s)"
  by (simp add: record_settled_def record_gate_def moves_def once_def emit_def Let_def)

lemma moves_failed: "failed ss c s = (e, t) \<Longrightarrow> moves h s t"
  using moves_gate by (auto simp: failed_def)

lemma moves_unsettled: "unsettled r ss d s = (e, t) \<Longrightarrow> moves h s t"
  by (auto simp: unsettled_def Let_def record_gate_def moves_def once_def emit_def split: prod.splits if_splits)

lemma moves_declared: "declared_once h cfg s = (d, t) \<Longrightarrow> moves h s t"
  using steadyD(3) [of h "world s"]
  by (auto simp: declared_once_def moves_def once_def Let_def split: option.splits prod.splits)

lemma moves_pause_round:
  assumes "pause_round h s = (r, t)"
  shows "moves h s t"
proof -
  obtain b w where b: "pause_for h (world s) = (b, w)" by fastforce
  with assms have "t = s\<lparr>world := w\<rparr>" by (simp add: pause_round_def pausing_def)
  with b steadyD(7) show ?thesis by (metis moves_world)
qed

lemma moves_lift: "lift_draft h s = (r, t) \<Longrightarrow> moves h s t"
  using steadyD(4) [of h "world s"]
  by (auto simp: lift_draft_def moves_def once_def emit_def split: prod.splits sum.splits)

lemma moves_lift_early:
  assumes "lift_early h cfg ns s = (r, t)"
  shows "moves h s t"
proof -
  obtain r1 s1 where l: "lift_draft h s = (r1, s1)" by fastforce
  then have m: "moves h s s1" by (rule moves_lift)
  from m have "moves h s (emit (LiftedDraftEarly ns (warn_on_early_lift cfg)) s1)"
    by (rule moves_trans) (simp add: moves_emit)
  with m l assms show ?thesis by (cases r1) (auto simp: lift_early_def)
qed

text \<open>A round that goes on waited out an interval, before the bound was over.\<close>

definition waited :: "('w, 'e) remote_host \<Rightarrow> watch \<Rightarrow> 'w watcher \<Rightarrow> 'w watcher \<Rightarrow> bool" where
  "waited h cfg s t \<longleftrightarrow>
     (\<exists>u w. moves h s u \<and> \<not> out_of_time h cfg u \<and> pause_for h (world u) = (False, w) \<and> t = u\<lparr>world := w\<rparr>)"

definition round_ok :: "('w, 'e) remote_host \<Rightarrow> watch \<Rightarrow> ('w watcher \<Rightarrow> 'r option \<times> 'w watcher) \<Rightarrow> bool" where
  "round_ok h cfg round \<longleftrightarrow>
     (\<forall>s q t. round s = (q, t) \<longrightarrow> moves h s t \<and> (q = None \<longrightarrow> waited h cfg s t))"

lemma pause_round_None:
  "pause_round h u = (None, t) \<Longrightarrow> \<exists>w. pause_for h (world u) = (False, w) \<and> t = u\<lparr>world := w\<rparr>"
  by (auto simp: pause_round_def pausing_def Let_def split: prod.splits if_splits)

lemma waited_pause:
  "moves h s u \<Longrightarrow> \<not> out_of_time h cfg u \<Longrightarrow> pause_round h u = (None, t) \<Longrightarrow> waited h cfg s t"
  using pause_round_None unfolding waited_def by blast

lemma wait_round_ok:
  assumes "moves h s u" "wait_round h cfg r d u = (q, t)"
  shows "moves h s t \<and> (q = None \<longrightarrow> waited h cfg s t)"
proof (cases "out_of_time h cfg u")
  case True
  with assms(2) obtain e where "unsettled r (standings (reported_checks (reported r)) d) d u = (e, t)"
    "q = Some (Err e)" by (auto simp: wait_round_def split: prod.splits)
  with moves_trans [OF assms(1) moves_unsettled] show ?thesis by blast
next
  case False
  then have "pause_round h u = (q, t)" using assms(2) by (simp add: wait_round_def)
  with False assms(1) show ?thesis using moves_trans moves_pause_round waited_pause by blast
qed

lemma moves_failed_end:
  assumes "moves h s u" "(case failed ss c u of (e, x) \<Rightarrow> (Some (Err e), x)) = (q, t)"
  shows "moves h s t \<and> (q = None \<longrightarrow> waited h cfg s t)"
  using assms moves_gate moves_trans by (fastforce simp: failed_def)

lemma moves_settled_end:
  assumes "moves h s u" "(Some r, record_settled ss m u) = (q, t)"
  shows "moves h s t \<and> (q = None \<longrightarrow> waited h cfg s t)"
  using assms moves_trans [OF assms(1) moves_settled] by auto

lemma settle_ready_round_ok: "round_ok h cfg (settle_ready_round h cfg d0)"
  unfolding round_ok_def
proof (intro allI impI)
  fix s q t assume step: "settle_ready_round h cfg d0 s = (q, t)"
  obtain a u where r: "read_host h cfg s = (a, u)" by fastforce
  then have m: "moves h s u" by (rule moves_read)
  show "moves h s t \<and> (q = None \<longrightarrow> waited h cfg s t)"
  proof (cases a)
    case (Inl e)
    with step r m show ?thesis by (auto simp: settle_ready_round_def)
  next
    case (Inr rd)
    let ?d = "given d0 rd"
    show ?thesis
    proof (cases "reported rd")
      case NotYet
      with step r Inr wait_round_ok [OF m] show ?thesis by (simp add: settle_ready_round_def)
    next
      case (About cs)
      let ?ss = "standings cs ?d"
      note step = step [unfolded settle_ready_round_def r Inr, simplified, unfolded Let_def About, simplified]
      show ?thesis
      proof (cases "verdict_of ?ss ?d")
        case (VerdictFailed ns)
        show ?thesis
        proof (cases "red ?ss")
          case None
          with step VerdictFailed wait_round_ok [OF m] show ?thesis by simp
        next
          case (Some c)
          with step VerdictFailed moves_failed_end [OF m] show ?thesis by simp
        qed
      next
        case (VerdictPending ns)
        with step wait_round_ok [OF m] show ?thesis by simp
      qed (use step moves_settled_end [OF m] in simp_all)
    qed
  qed
qed

lemma moves_asking:
  assumes "moves h s u" "(if b then still_running h cfg r u else (True, u)) = (busy, x)"
  shows "moves h s x"
proof (cases b)
  case True
  then have "still_running h cfg r u = (busy, x)" using assms(2) by simp
  then show ?thesis by (rule moves_trans [OF assms(1) moves_still_running])
qed (use assms in auto)

lemma after_lift_round_ok: "round_ok h cfg (after_lift_round h cfg d snapshot lifted)"
  unfolding round_ok_def
proof (intro allI impI)
  fix s q t assume step: "after_lift_round h cfg d snapshot lifted s = (q, t)"
  obtain a u where r: "read_host h cfg s = (a, u)" by fastforce
  then have m: "moves h s u" by (rule moves_read)
  show "moves h s t \<and> (q = None \<longrightarrow> waited h cfg s t)"
  proof (cases a)
    case (Inl e)
    with step r m show ?thesis by (auto simp: after_lift_round_def)
  next
    case (Inr rd)
    let ?cs = "reported_checks (reported rd)"
    let ?ss = "standings (counted_after snapshot ?cs) d"
    let ?again = "rerun_in snapshot ?ss ?cs"
    note step = step [unfolded after_lift_round_def r Inr, simplified, unfolded Let_def]
    show ?thesis
    proof (cases "red ?ss")
      case (Some c)
      with step moves_failed_end [OF m] show ?thesis by simp
    next
      case None
      show ?thesis
      proof (cases "?again \<and> all_through ?ss")
        case True
        with step None moves_settled_end [OF m] show ?thesis by simp
      next
        case False
        obtain b x where b: "(if \<not> ?again \<and> now_at h (world u) - lifted \<ge> grace cfg
            then still_running h cfg rd u else (True, u)) = (b, x)" by fastforce
        note mx = moves_asking [OF m b]
        have rest: "(if \<not> b then (Some (Err (ChecksUnsettled DidNotRerun None)), record_gate RulingNoVerdict ?ss x)
            else if out_of_time h cfg x
            then (case unsettled rd ?ss d x of (e, s) \<Rightarrow>
              (Some (Err e), s\<lparr>skipped_at_elapse := skipped_at_elapse s @
                 filter (\<lambda>n. n \<notin> set (skipped_at_elapse s)) (skipped_in (standings ?cs d))\<rparr>))
            else pause_round h x) = (q, t)"
          using step None False b by auto
        show ?thesis
        proof (cases "b \<and> \<not> out_of_time h cfg x")
          case True
          then have "pause_round h x = (q, t)" using rest by simp
          with True mx show ?thesis using moves_trans moves_pause_round waited_pause by blast
        next
          case ended: False
          show ?thesis
          proof (cases b)
            case False
            with rest moves_trans [OF mx moves_gate] show ?thesis by auto
          next
            case True
            with ended rest obtain e y z where "unsettled rd ?ss d x = (e, y)" "q = Some (Err e)"
              and t: "t = y\<lparr>skipped_at_elapse := z\<rparr>" by (auto split: prod.splits)
            with moves_trans [OF mx moves_unsettled] have "moves h s y" "q \<noteq> None" by blast+
            moreover have "moves h y t" unfolding t by (rule moves_same) simp_all
            ultimately show ?thesis using moves_trans by blast
          qed
        qed
      qed
    qed
  qed
qed

lemma settle_draft_round_ok: "round_ok h cfg (settle_draft_round h cfg d0)"
  unfolding round_ok_def
proof (intro allI impI)
  fix s q t assume step: "settle_draft_round h cfg d0 s = (q, t)"
  obtain a u where r: "read_host h cfg s = (a, u)" by fastforce
  then have m: "moves h s u" by (rule moves_read)
  show "moves h s t \<and> (q = None \<longrightarrow> waited h cfg s t)"
  proof (cases a)
    case (Inl e)
    with step r m show ?thesis by (auto simp: settle_draft_round_def)
  next
    case (Inr rd)
    let ?cs = "reported_checks (reported rd)"
    let ?d = "given d0 rd"
    let ?ss = "standings ?cs ?d"
    note step = step [unfolded settle_draft_round_def r Inr, simplified, unfolded Let_def]
    show ?thesis
    proof (cases "?d = Nothing \<or> red ?ss \<noteq> None \<or> ?ss \<noteq> [] \<and> list_all (\<lambda>x. standing_state x = Some CheckPassed) ?ss")
      case True
      show ?thesis
      proof (cases "?d = Nothing")
        case True
        with step moves_settled_end [OF m] show ?thesis by simp
      next
        case d: False
        show ?thesis
        proof (cases "red ?ss")
          case None
          with d True step moves_trans [OF m moves_settled] show ?thesis by auto
        next
          case (Some c)
          with d step moves_trans [OF m moves_gate] show ?thesis by (auto simp: failed_def)
        qed
      qed
    next
      case going: False
      let ?not_run = "map standing_name (filter (\<lambda>x. standing_state x = None \<or> standing_state x = Some CheckSkipped) ?ss)"
      let ?running = "list_ex (\<lambda>x. standing_state x = Some CheckPending \<or> standing_state x = Some CheckNoVerdict) ?ss"
      let ?unseen = "unread ?d \<noteq> None \<and> ?ss = []"
      let ?over = "now_at h (world u) - started u \<ge> grace cfg"
      let ?marked = "?unseen \<and> ?over \<and> ?cs \<noteq> [] \<and> list_all (\<lambda>c. state c \<noteq> CheckSkipped) ?cs"
      obtain b x where b: "(if ?over \<and> \<not> ?running \<and> (?not_run \<noteq> [] \<or> ?unseen)
          then still_running h cfg rd u else (True, u)) = (b, x)" by fastforce
      note mx = moves_asking [OF m b]
      have rest: "(if ?marked then (Some (Ok GreenOnTheDraft), record_settled ?ss (unread ?d) u)
          else if \<not> b then (case lift_early h cfg ?not_run x of
                (Inl e, s) \<Rightarrow> (Some (Err e), s)
              | (Inr _, s) \<Rightarrow> (Some (Ok (LiftedEarly ?d ?cs)), s))
          else wait_round h cfg rd ?d x) = (q, t)"
        using step going b by (auto split: if_splits)
      show ?thesis
      proof (cases "?marked")
        case True
        then have "(Some (Ok GreenOnTheDraft), record_settled ?ss (unread ?d) u) = (q, t)"
          using rest by (simp only: if_True simp_thms)
        then show ?thesis by (rule moves_settled_end [OF m])
      next
        case False
        show ?thesis
        proof (cases b)
          case True
          with False rest have "wait_round h cfg rd ?d x = (q, t)" by auto
          then show ?thesis by (rule wait_round_ok [OF mx])
        next
          case lift: False
          obtain l y where l: "lift_early h cfg ?not_run x = (l, y)" by fastforce
          with False lift rest moves_trans [OF mx moves_lift_early [OF l]] show ?thesis
            by (cases l) auto
        qed
      qed
    qed
  qed
qed

text \<open>What makes a loop of such rounds end.\<close>

definition progressed :: "('w, 'e) remote_host \<Rightarrow> watch \<Rightarrow> 'w watcher \<Rightarrow> 'w watcher \<Rightarrow> bool" where
  "progressed h cfg s t \<longleftrightarrow>
     (steady h \<longrightarrow> now_at h (world s) < now_at h (world t) \<and> now_at h (world s) - started s < bound cfg)"

lemma waited_progressed:
  assumes "waited h cfg s t"
  shows "progressed h cfg s t"
  unfolding progressed_def
proof
  assume h: "steady h"
  from assms obtain u w where u: "moves h s u" "\<not> out_of_time h cfg u" "pause_for h (world u) = (False, w)"
    "t = u\<lparr>world := w\<rparr>" unfolding waited_def by blast
  have "now_at h (world u) < now_at h w" using steadyD(8) [OF h u(3)] .
  with h u show "now_at h (world s) < now_at h (world t) \<and> now_at h (world s) - started s < bound cfg"
    by (auto simp: moves_def out_of_time_def)
qed

lemma moves_merge_asked:
  assumes "merge_or_find_merged h p s = (r, t)"
  shows "moves h s t"
proof -
  obtain a w where a: "merge_asked h p (world s) = (a, w)" by fastforce
  obtain b x where b: "merged_at_of h w = (b, x)" by fastforce
  have "t = s\<lparr>world := w\<rparr> \<or> t = s\<lparr>world := x\<rparr>"
    using assms a b by (auto simp: merge_or_find_merged_def split: sum.splits option.splits)
  moreover have "steady h \<Longrightarrow> now_at h (world s) \<le> now_at h w" using steadyD(10) a by metis
  moreover have "steady h \<Longrightarrow> now_at h w \<le> now_at h x" using steadyD(5) b by metis
  ultimately show ?thesis by (auto intro!: moves_world intro: order_trans)
qed

lemma moves_arm_round: "arm_round h s = (q, t) \<Longrightarrow> moves h s t"
proof -
  assume q: "arm_round h s = (q, t)"
  obtain r u where r: "merge_or_find_merged h AskAuto s = (r, u)" by fastforce
  then have m: "moves h s u" by (rule moves_merge_asked)
  have "moves h u (u\<lparr>armed := True\<rparr>)" by (rule moves_same) simp_all
  with m have "moves h s (u\<lparr>armed := True\<rparr>)" by (rule moves_trans)
  with q r m show ?thesis
    by (auto simp: arm_round_def split: if_splits sum.splits merge_outcome.splits)
qed

lemma moves_landed_round:
  assumes "landed_round h s = (q, t)"
  shows "moves h s t"
proof -
  obtain a w where a: "merged_at_of h (world s) = (a, w)" by fastforce
  obtain b x where b: "mergeability_of h w = (b, x)" by fastforce
  have "t = s\<lparr>world := w\<rparr> \<or> t = s\<lparr>world := x\<rparr>"
    using assms a b by (auto simp: landed_round_def split: sum.splits option.splits mergeability.splits)
  moreover have "steady h \<Longrightarrow> now_at h (world s) \<le> now_at h w" using steadyD(5) a by metis
  moreover have "steady h \<Longrightarrow> now_at h w \<le> now_at h x" using steadyD(6) b by metis
  ultimately show ?thesis by (auto intro!: moves_world intro: order_trans)
qed

lemma moves_recheck_round:
  assumes "recheck_round h cfg d0 s = (q, t)"
  shows "moves h s t \<and> (q = None \<longrightarrow> \<not> out_of_time h cfg t)"
proof -
  obtain a u where r: "read_host h cfg s = (a, u)" by fastforce
  then have m: "moves h s u" by (rule moves_read)
  show ?thesis
  proof (cases a)
    case (Inl e)
    with assms r m show ?thesis by (auto simp: recheck_round_def)
  next
    case (Inr rd)
    show ?thesis
    proof (cases "reported rd")
      case NotYet
      with assms r Inr m show ?thesis by (auto simp: recheck_round_def)
    next
      case (About cs)
      let ?d = "given d0 rd"
      note step = assms [unfolded recheck_round_def r Inr, simplified, unfolded Let_def About, simplified]
      show ?thesis
      proof (cases "red (standings cs ?d)")
        case (Some c)
        with step moves_trans [OF m moves_gate] show ?thesis by (auto simp: failed_def)
      next
        case None
        with step m moves_trans [OF m moves_unsettled] show ?thesis
          by (auto split: if_splits prod.splits)
      qed
    qed
  qed
qed

lemma then_round_None:
  "then_round p f = (None, t) \<longleftrightarrow> (\<exists>s. p = (None, s) \<and> f s = (None, t))"
  by (cases p; cases "fst p") (auto simp: then_round_def)

lemma then_round_simps: "then_round (Some r, s) f = (Some r, s)" "then_round (None, s) f = f s"
  by (simp_all add: then_round_def)

lemma merge_round_moves:
  fixes q :: "('e watch_error + 'o watch_ended) option"
  assumes "merge_round h cfg d s = (q, t)"
  shows "moves h s t \<and> (q = None \<longrightarrow> progressed h cfg s t)"
proof -
  obtain q1 :: "('e watch_error + 'o watch_ended) option" and s1 where 1: "arm_round h s = (q1, s1)" by fastforce
  have m1: "moves h s s1" using moves_arm_round [OF 1] .
  show ?thesis
  proof (cases q1)
    case (Some r)
    with assms m1 show ?thesis unfolding merge_round_def 1 Some then_round_simps by auto
  next
    case None
    obtain q2 :: "('e watch_error + 'o watch_ended) option" and s2 where 2: "landed_round h s1 = (q2, s2)" by fastforce
    have m2: "moves h s s2" using moves_trans [OF m1 moves_landed_round [OF 2]] .
    show ?thesis
    proof (cases q2)
      case (Some r)
      with assms m2 show ?thesis unfolding merge_round_def 1 None then_round_simps 2 Some by auto
    next
      case q2: None
      obtain q3 :: "('e watch_error + 'o watch_ended) option" and s3 where 3: "pause_round h s2 = (q3, s3)" by fastforce
      have m3: "moves h s s3" using moves_trans [OF m2 moves_pause_round [OF 3]] .
      show ?thesis
      proof (cases q3)
        case (Some r)
        with assms m3 show ?thesis unfolding merge_round_def 1 None then_round_simps 2 q2 3 Some by auto
      next
        case q3: None
        have 4: "recheck_round h cfg d s3 = (q, t)"
          using assms unfolding merge_round_def 1 None then_round_simps 2 q2 3 q3 .
        note m4 = moves_recheck_round [OF 4]
        have mt: "moves h s t" using moves_trans [OF m3] m4 by blast
        have "progressed h cfg s t" if "q = None"
          unfolding progressed_def
        proof
          assume h: "steady h"
          obtain w where w: "pause_for h (world s2) = (False, w)" "s3 = s2\<lparr>world := w\<rparr>"
            using pause_round_None 3 q3 by blast
          have "now_at h (world s2) < now_at h (world s3)" using steadyD(8) [OF h w(1)] w(2) by simp
          moreover have "\<not> out_of_time h cfg t" using m4 that by blast
          ultimately show "now_at h (world s) < now_at h (world t) \<and> now_at h (world s) - started s < bound cfg"
            using h m2 m4 mt by (auto simp: moves_def out_of_time_def)
        qed
        with mt show ?thesis by blast
      qed
    qed
  qed
qed

section \<open>Loops of rounds\<close>

lemma watch_loop_last:
  assumes "watch_loop round s = Some (r, t)" "P s"
    "\<And>s t. P s \<Longrightarrow> round s = (None, t) \<Longrightarrow> P t"
  shows "\<exists>u. P u \<and> round u = (Some r, t)"
proof -
  let ?Q = "\<lambda>(ro, x). if ro = None then P x else \<exists>u. P u \<and> round u = (ro, x)"
  obtain r' where w: "while_option (\<lambda>(r, _). r = None) (\<lambda>(_, s). round s) (None, s) = Some (r', t)" "r = the r'"
    using assms(1) by (auto simp: watch_loop_def)
  have "?Q (r', t)"
  proof (rule while_option_rule [OF _ w(1), where P = ?Q])
    fix st assume "?Q st" "case st of (r, _) \<Rightarrow> r = None"
    then obtain x where x: "st = (None, x)" "P x" by (auto split: prod.splits if_splits)
    obtain q y where y: "round x = (q, y)" by fastforce
    with assms(3) [OF x(2)] x show "?Q (case st of (_, s) \<Rightarrow> round s)" by (cases q) auto
  qed (use assms(2) in simp)
  moreover have "r' \<noteq> None" using while_option_stop [OF w(1)] by simp
  ultimately show ?thesis using w(2) by (auto split: if_splits)
qed

lemma watch_loop_returns:
  fixes round :: "'w watcher \<Rightarrow> 'r option \<times> 'w watcher"
  assumes "steady h" "\<And>s t. round s = (None, t) \<Longrightarrow> moves h s t \<and> progressed h cfg s t"
  shows "\<exists>r t. watch_loop round s = Some (r, t)"
proof -
  let ?f = "\<lambda>(ro, x). if ro = None then Suc (started x + bound cfg - now_at h (world x)) else 0"
  have "\<exists>st. while_option (\<lambda>(r, _). r = None) (\<lambda>(_, s). round s) (None, s) = Some st"
  proof (rule measure_while_option_Some [where P = "\<lambda>_. True" and f = ?f])
    fix st :: "'r option \<times> 'w watcher"
    assume "case st of (r, _) \<Rightarrow> r = None"
    then obtain x where x: "st = (None, x)" by (cases st) auto
    obtain q y where y: "round x = (q, y)" by fastforce
    have "?f (q, y) < Suc (started x + bound cfg - now_at h (world x))"
    proof (cases q)
      case None
      with assms(2) y have "moves h x y" "progressed h cfg x y" by auto
      with assms(1) None show ?thesis by (auto simp: moves_def progressed_def)
    qed simp
    with x y show "True \<and> ?f (case st of (_, s) \<Rightarrow> round s) < ?f st" by simp
  qed simp
  then show ?thesis by (auto simp: watch_loop_def)
qed

lemma round_ok_returns:
  assumes "steady h" "round_ok h cfg round"
  shows "\<exists>r t. watch_loop round s = Some (r, t)"
  using assms(2) waited_progressed unfolding round_ok_def by (intro watch_loop_returns [OF assms(1)]) blast

lemma settle_draft_returns:
  assumes "steady h"
  shows "\<exists>r t. settle_draft h cfg s = Some (r, t)"
proof -
  obtain d s1 where d: "declared_once h cfg s = (d, s1)" by fastforce
  obtain r t where r: "watch_loop (settle_draft_round h cfg d) s1 = Some (r, t)"
    using round_ok_returns [OF assms settle_draft_round_ok] by blast
  show ?thesis
  proof (cases r)
    case (Inl e)
    with d r show ?thesis by (simp add: settle_draft_def)
  next
    case (Inr e)
    show ?thesis
    proof (cases e)
      case GreenOnTheDraft
      with d r Inr show ?thesis by (simp add: settle_draft_def)
    next
      case (LiftedEarly d2 snapshot)
      obtain r2 t2 where "watch_loop (after_lift_round h cfg d2 snapshot (now_at h (world t))) t = Some (r2, t2)"
        using round_ok_returns [OF assms after_lift_round_ok] by blast
      with d r Inr LiftedEarly show ?thesis by (simp add: settle_draft_def settle_after_early_lift_def)
    qed
  qed
qed

lemma settle_ready_returns:
  assumes "steady h"
  shows "\<exists>r t. settle_ready h cfg s = Some (r, t)"
proof -
  obtain d s1 where d: "declared_once h cfg s = (d, s1)" by fastforce
  with round_ok_returns [OF assms settle_ready_round_ok] show ?thesis by (simp add: settle_ready_def)
qed

section \<open>What a watch ends with\<close>

text \<open>A reading of the host: what it answered, kept to what is about the pushed commit.\<close>

definition read_as :: "('w, 'e) remote_host \<Rightarrow> watch \<Rightarrow> check list \<Rightarrow> bool \<Rightarrow> bool" where
  "read_as h cfg cs complete \<longleftrightarrow>
     (\<exists>w answered.
        fst (change_checks_of h w) = Inr answered \<and> complete = complete_checks answered \<and>
        cs = filter (is_about (pushed cfg)) (answer_checks answered))"

lemma read_host_Inr:
  assumes "read_host h cfg s = (Inr r, t)"
  shows "read_as h cfg (reported_checks (reported r)) (from_rollup r)"
proof -
  obtain a w where a: "change_checks_of h (world s) = (a, w)" by fastforce
  with assms obtain answered where answered: "a = Inr answered"
    and r: "r = \<lparr>reported = reported_of (answer_checks answered) (pushed cfg), from_rollup = complete_checks answered\<rparr>"
    by (cases a) (auto simp: read_host_def Let_def)
  have "reported_checks (reported_of (answer_checks answered) (pushed cfg)) =
      filter (is_about (pushed cfg)) (answer_checks answered)"
    by (simp add: reported_of_def Let_def)
  with a answered r show ?thesis unfolding read_as_def by (metis fst_conv reading.select_convs)
qed

lemma settle_ready_round_Ok:
  assumes "settle_ready_round h cfg d s = (Some (Inr ()), t)"
  shows "\<exists>cs complete. read_as h cfg cs complete \<and>
     (checks_verdict cs d complete \<in> {VerdictPassed, VerdictNoneRequired} \<or>
      (\<exists>ns. checks_verdict cs d complete = VerdictPassedWithSkipped ns))"
proof -
  obtain a u where r: "read_host h cfg s = (a, u)" by fastforce
  with assms obtain rd where a: "a = Inr rd" by (cases a) (auto simp: settle_ready_round_def)
  have stop: False if "wait_round h cfg rd d' u = (Some (Inr ()), t)" for d'
    using that by (auto simp: wait_round_def pause_round_def pausing_def Let_def split: if_splits prod.splits)
  note step = assms [unfolded settle_ready_round_def r a, simplified, unfolded Let_def]
  obtain cs where cs: "reported rd = About cs" using step stop by (cases "reported rd") auto
  then have same: "checks_verdict cs d (from_rollup rd) = verdict_of (standings cs (given d rd)) (given d rd)"
    by (simp add: checks_verdict_def given_def Let_def)
  have "verdict_of (standings cs (given d rd)) (given d rd) \<in> {VerdictPassed, VerdictNoneRequired} \<or>
      (\<exists>ns. verdict_of (standings cs (given d rd)) (given d rd) = VerdictPassedWithSkipped ns)"
    using step stop unfolding cs
    by (auto split: change_verdict.splits option.splits prod.splits)
  with same read_host_Inr [OF r [unfolded a]] cs show ?thesis by (metis reported_checks.simps(1))
qed

lemma all_passed_standings:
  assumes "standings cs d \<noteq> []" "list_all (\<lambda>x. standing_state x = Some CheckPassed) (standings cs d)"
  shows "verdict_of (standings cs d) d = VerdictPassed"
proof -
  have "named_where (\<lambda>x. x = Some CheckFailed) (standings cs d) = []" "skipped_in (standings cs d) = []"
    using assms(2) by (auto simp: named_where_def skipped_in_def list_all_iff filter_empty_conv)
  moreover have "lets_through (standings cs d) d" using assms by (auto simp: lets_through_def list_all_iff)
  ultimately show ?thesis using assms(1) by (simp add: verdict_of_def Let_def)
qed

lemma given_sharpened:
  "given d r = sharpened d (reported_checks (reported r)) (from_rollup r)"
  by (cases "reported r"; cases d) (simp_all add: given_def sharpened_def)

text \<open>What a draft is called green on: the required checks passed, nothing is required, or what is
  required could not be read and every run the host attached, and there are some, is a run.\<close>

definition green_reading :: "check list \<Rightarrow> declared \<Rightarrow> bool \<Rightarrow> bool" where
  "green_reading cs d complete \<longleftrightarrow>
     checks_verdict cs d complete \<in> {VerdictPassed, VerdictNoneRequired} \<or>
     unread (sharpened d cs complete) \<noteq> None \<and> required_set cs (sharpened d cs complete) = [] \<and>
     cs \<noteq> [] \<and> (\<forall>c \<in> set cs. state c \<noteq> CheckSkipped)"

lemma not_waiting:
  "wait_round h cfg r d s \<noteq> (Some (Inr x), t)"
  by (auto simp: wait_round_def pause_round_def pausing_def Let_def split: if_splits prod.splits)

lemma settle_draft_round_green:
  assumes "settle_draft_round h cfg d s = (Some (Inr GreenOnTheDraft), t)"
  shows "\<exists>cs complete. read_as h cfg cs complete \<and> green_reading cs d complete"
proof -
  obtain a u where r: "read_host h cfg s = (a, u)" by fastforce
  with assms obtain rd where a: "a = Inr rd" by (cases a) (auto simp: settle_draft_round_def)
  let ?cs = "reported_checks (reported rd)"
  let ?d = "sharpened d ?cs (from_rollup rd)"
  let ?ss = "standings ?cs ?d"
  note step = assms [unfolded settle_draft_round_def r a, simplified, unfolded Let_def given_sharpened]
  have verdict: "checks_verdict ?cs d (from_rollup rd) = verdict_of ?ss ?d"
    by (simp add: checks_verdict_def Let_def)
  have empty: "?ss = [] \<longleftrightarrow> required_set ?cs ?d = []" by (simp add: standings_def)
  have "green_reading ?cs d (from_rollup rd)"
  proof (cases "?d = Nothing")
    case True
    then have "verdict_of ?ss ?d = VerdictNoneRequired"
      by (simp add: verdict_of_def named_where_def standings_def required_set_def)
    with verdict show ?thesis by (simp add: green_reading_def)
  next
    case d: False
    with step have none: "red ?ss = None" by (cases "red ?ss") (auto split: prod.splits)
    show ?thesis
    proof (cases "?ss \<noteq> [] \<and> list_all (\<lambda>x. standing_state x = Some CheckPassed) ?ss")
      case True
      with verdict all_passed_standings show ?thesis by (simp add: green_reading_def)
    next
      case False
      with step d none have "unread ?d \<noteq> None \<and> ?ss = [] \<and> ?cs \<noteq> [] \<and> list_all (\<lambda>c. state c \<noteq> CheckSkipped) ?cs"
        by (auto simp: not_waiting split: if_splits prod.splits sum.splits)
      with empty show ?thesis by (simp add: green_reading_def list_all_iff)
    qed
  qed
  with read_host_Inr [OF r [unfolded a]] show ?thesis by blast
qed

lemma settle_draft_round_lifted:
  assumes "settle_draft_round h cfg d s = (Some (Inr (LiftedEarly d' snapshot)), t)"
  shows "\<exists>complete. read_as h cfg snapshot complete \<and> d' = sharpened d snapshot complete"
proof -
  obtain a u where r: "read_host h cfg s = (a, u)" by fastforce
  with assms obtain rd where a: "a = Inr rd" by (cases a) (auto simp: settle_draft_round_def)
  note step = assms [unfolded settle_draft_round_def r a, simplified, unfolded Let_def given_sharpened]
  from step have "d' = sharpened d snapshot (from_rollup rd)" "snapshot = reported_checks (reported rd)"
    by (auto simp: not_waiting split: if_splits prod.splits sum.splits option.splits)
  with read_host_Inr [OF r [unfolded a]] show ?thesis by blast
qed

text \<open>What a change lifted early is settled on: a run attached after the lift, and for each required
  check a run that passed or one after the lift that was skipped, none of them red.\<close>

definition settled_after_lift :: "check list \<Rightarrow> declared \<Rightarrow> check list \<Rightarrow> bool" where
  "settled_after_lift snapshot d cs \<longleftrightarrow>
     (\<exists>c \<in> set cs. ran_after_the_lift c snapshot) \<and>
     (\<forall>n \<in> set (required_set (counted_after snapshot cs) d).
        (\<exists>c \<in> set cs. check_name c = n \<and>
           (state c = CheckPassed \<or> state c = CheckSkipped \<and> ran_after_the_lift c snapshot)) \<and>
        (\<forall>c \<in> set cs. check_name c = n \<longrightarrow> state c \<noteq> CheckFailed \<and> state c \<noteq> CheckPending))"

lemma counted_after_mem:
  "c \<in> set (counted_after snapshot cs) \<longleftrightarrow>
     c \<in> set cs \<and> (ran_after_the_lift c snapshot \<or> state c \<noteq> CheckSkipped)"
  by (auto simp: counted_after_def)

lemma after_lift_round_Ok:
  assumes "after_lift_round h cfg d snapshot lifted s = (Some (Inr ()), t)"
  shows "\<exists>cs complete. read_as h cfg cs complete \<and> settled_after_lift snapshot d cs"
proof -
  obtain a u where r: "read_host h cfg s = (a, u)" by fastforce
  with assms obtain rd where a: "a = Inr rd" by (cases a) (auto simp: after_lift_round_def)
  let ?cs = "reported_checks (reported rd)"
  let ?counted = "counted_after snapshot ?cs"
  let ?ss = "standings ?counted d"
  note step = assms [unfolded after_lift_round_def r a, simplified, unfolded Let_def]
  have "rerun_in snapshot ?ss ?cs \<and> all_through ?ss"
    using step by (auto simp: pause_round_def pausing_def Let_def split: if_splits prod.splits option.splits)
  then have again: "\<exists>c \<in> set ?cs. ran_after_the_lift c snapshot" and through: "all_through ?ss"
    by (auto simp: rerun_in_def list_ex_iff)
  have "\<exists>x. decided_check ?counted n = Some x \<and> (state x = CheckPassed \<or> state x = CheckSkipped)"
    if "n \<in> set (required_set ?counted d)" for n
    using through that by (auto simp: all_through_def standings_def list_all_iff)
  then have "(\<exists>c \<in> set ?cs. check_name c = n \<and>
        (state c = CheckPassed \<or> state c = CheckSkipped \<and> ran_after_the_lift c snapshot)) \<and>
      (\<forall>c \<in> set ?cs. check_name c = n \<longrightarrow> state c \<noteq> CheckFailed \<and> state c \<noteq> CheckPending)"
    if n: "n \<in> set (required_set ?counted d)" for n
  proof -
    obtain x where x: "decided_check ?counted n = Some x" "state x = CheckPassed \<or> state x = CheckSkipped"
      using n \<open>\<And>n. n \<in> set (required_set ?counted d) \<Longrightarrow> \<exists>x. decided_check ?counted n = Some x \<and> (state x = CheckPassed \<or> state x = CheckSkipped)\<close>
      by blast
    note D = decided_check_SomeD [OF x(1)]
    have "state c \<noteq> CheckFailed \<and> state c \<noteq> CheckPending" if "c \<in> set ?cs" "check_name c = n" for c
    proof (cases "c \<in> set ?counted")
      case True
      with D(3) [OF True that(2)] x(2) show ?thesis by (cases "state c") auto
    next
      case False
      with that show ?thesis by (auto simp: counted_after_mem)
    qed
    with D(1,2) x(2) show ?thesis by (auto simp: counted_after_mem)
  qed
  with again have "settled_after_lift snapshot d ?cs" unfolding settled_after_lift_def by blast
  with read_host_Inr [OF r [unfolded a]] show ?thesis by blast
qed

lemma settle_draft_Ok:
  assumes "settle_draft h cfg s = Some (Inr b, t)"
  defines "d \<equiv> fst (declared_once h cfg s)"
  shows "if b then \<exists>cs complete. read_as h cfg cs complete \<and> green_reading cs d complete
    else \<exists>snapshot before cs complete. read_as h cfg snapshot before \<and> read_as h cfg cs complete \<and>
      settled_after_lift snapshot (sharpened d snapshot before) cs"
proof -
  obtain s1 where d: "declared_once h cfg s = (d, s1)" unfolding d_def by (metis surjective_pairing)
  obtain r u where loop: "watch_loop (settle_draft_round h cfg d) s1 = Some (Inr r, u)"
    using assms(1) by (auto simp: settle_draft_def d split: option.splits sum.splits)
  from watch_loop_last [OF this, of "\<lambda>_. True"]
  obtain x where step: "settle_draft_round h cfg d x = (Some (Inr r), u)" by blast
  show ?thesis
  proof (cases r)
    case GreenOnTheDraft
    with assms(1) loop d have "b" by (simp add: settle_draft_def)
    with settle_draft_round_green [OF step [unfolded GreenOnTheDraft]] show ?thesis by simp
  next
    case (LiftedEarly d' snapshot)
    with assms(1) loop d obtain q v where "settle_after_early_lift h cfg d' snapshot u = Some (q, v)"
      and q: "and_then q (\<lambda>_. Ok False) = Inr b"
      by (auto simp: settle_draft_def)
    with q have after: "settle_after_early_lift h cfg d' snapshot u = Some (Inr (), v)" and b: "\<not> b"
      by (cases q; simp)+
    from watch_loop_last [OF after [unfolded settle_after_early_lift_def], of "\<lambda>_. True"]
    obtain y where "after_lift_round h cfg d' snapshot (now_at h (world u)) y = (Some (Inr ()), v)" by blast
    from after_lift_round_Ok [OF this] settle_draft_round_lifted [OF step [unfolded LiftedEarly]] b
    show ?thesis by auto
  qed
qed

lemma settle_ready_Ok:
  assumes "settle_ready h cfg s = Some (Inr (), t)"
  defines "d \<equiv> fst (declared_once h cfg s)"
  shows "\<exists>cs complete. read_as h cfg cs complete \<and>
     (checks_verdict cs d complete \<in> {VerdictPassed, VerdictNoneRequired} \<or>
      (\<exists>ns. checks_verdict cs d complete = VerdictPassedWithSkipped ns))"
proof -
  obtain s1 where d: "declared_once h cfg s = (d, s1)" unfolding d_def by (metis surjective_pairing)
  with assms(1) have "watch_loop (settle_ready_round h cfg d) s1 = Some (Inr (), t)" by (simp add: settle_ready_def)
  then obtain x where "settle_ready_round h cfg d x = (Some (Inr ()), t)"
    using watch_loop_last [where P = "\<lambda>_. True"] by metis
  then show ?thesis by (rule settle_ready_round_Ok)
qed

lemma round_ok_moves:
  assumes "round_ok h cfg round" "watch_loop round s = Some (r, t)"
  shows "moves h s t"
proof -
  have step: "round u = (q, v) \<Longrightarrow> moves h u v" for u q v using assms(1) unfolding round_ok_def by blast
  have "\<exists>u. moves h s u \<and> round u = (Some r, t)"
    using assms(2) moves_refl by (rule watch_loop_last) (metis step moves_trans)
  with step show ?thesis using moves_trans by blast
qed

lemma settle_moves:
  assumes "settle h cfg drafted s = Some (r, t)"
  shows "moves h s t"
proof -
  obtain d s1 where d: "declared_once h cfg s = (d, s1)" by fastforce
  then have m: "moves h s s1" by (rule moves_declared)
  show ?thesis
  proof (cases drafted)
    case False
    with assms d obtain q where "watch_loop (settle_ready_round h cfg d) s1 = Some (q, t)"
      by (auto simp: settle_def settle_ready_def)
    with settle_ready_round_ok have "moves h s1 t" by (rule round_ok_moves)
    with m show ?thesis by (rule moves_trans)
  next
    case True
    with assms d obtain q u where q: "watch_loop (settle_draft_round h cfg d) s1 = Some (q, u)"
      by (auto simp: settle_def settle_draft_def split: option.splits)
    with settle_draft_round_ok have "moves h s1 u" by (rule round_ok_moves)
    with m have mu: "moves h s u" by (rule moves_trans)
    have "u = t \<or> (\<exists>d snapshot p. settle_after_early_lift h cfg d snapshot u = Some (p, t))"
      using True assms d q
      by (auto simp: settle_def settle_draft_def split: sum.splits draft_end.splits)
    then show ?thesis
    proof
      assume "\<exists>d snapshot p. settle_after_early_lift h cfg d snapshot u = Some (p, t)"
      then obtain d2 snapshot p where
        "watch_loop (after_lift_round h cfg d2 snapshot (now_at h (world u))) u = Some (p, t)"
        unfolding settle_after_early_lift_def by blast
      with after_lift_round_ok have "moves h u t" by (rule round_ok_moves)
      with mu show ?thesis by (rule moves_trans)
    qed (use mu in simp)
  qed
qed

lemma merge_found:
  assumes "merge_or_find_merged h p s = (Inr (Merged sha), t)"
  shows "(\<exists>w. fst (merge_asked h p w) = Inr (Merged sha)) \<or> (\<exists>w. fst (merged_at_of h w) = Inr (Some sha))"
proof -
  obtain a w where a: "merge_asked h p (world s) = (a, w)" by fastforce
  obtain b x where b: "merged_at_of h w = (b, x)" by fastforce
  show ?thesis
  proof (cases a)
    case (Inl e)
    with assms a b have "b = Inr (Some sha)"
      by (auto simp: merge_or_find_merged_def split: sum.splits option.splits)
    with b show ?thesis by (metis fst_conv)
  next
    case (Inr out)
    with assms a have "a = Inr (Merged sha)" by (auto simp: merge_or_find_merged_def)
    with a show ?thesis by (metis fst_conv)
  qed
qed

lemma recheck_round_not_landed: "recheck_round h cfg d s \<noteq> (Some (Inr (LandedAt sha)), t)"
  by (auto simp: recheck_round_def Let_def failed_def split: prod.splits sum.splits reported.splits option.splits if_splits)

lemma merge_round_landed:
  fixes h :: "('w, 'e) remote_host" and t :: "'w watcher"
  assumes "merge_round h cfg d s = (Some (Inr (LandedAt sha :: 'o watch_ended)), t)"
  shows "(\<exists>w p. fst (merge_asked h p w) = Inr (Merged sha)) \<or> (\<exists>w. fst (merged_at_of h w) = Inr (Some sha))"
proof -
  have step: "(\<exists>u. p = (Some r, u)) \<or> (\<exists>u v. f u = (Some r, v))" if "then_round p f = (Some r, t)"
    for p :: "'r option \<times> 'w watcher" and f r t
    using that by (auto simp: then_round_def split: prod.splits option.splits)
  have "pause_round h u \<noteq> (Some (Inr (LandedAt sha :: 'o watch_ended)), v)" for u v
    by (auto simp: pause_round_def pausing_def Let_def split: prod.splits)
  with assms recheck_round_not_landed
  consider u v where "arm_round h u = (Some (Inr (LandedAt sha :: 'o watch_ended)), v)"
    | u v where "landed_round h u = (Some (Inr (LandedAt sha :: 'o watch_ended)), v)"
    unfolding merge_round_def using step by metis
  then show ?thesis
  proof cases
    case 1
    then have "merge_or_find_merged h AskAuto u = (Inr (Merged sha), snd (merge_or_find_merged h AskAuto u))"
      by (auto simp: arm_round_def split: if_splits prod.splits sum.splits merge_outcome.splits)
    from merge_found [OF this] show ?thesis by blast
  next
    case 2
    then have "fst (merged_at_of h (world u)) = Inr (Some sha)"
      by (auto simp: landed_round_def split: prod.splits sum.splits option.splits mergeability.splits if_splits)
    then show ?thesis by blast
  qed
qed

lemma await_landed:
  fixes h :: "('w, 'e) remote_host" and t :: "'w watcher"
  assumes "await_the_merge h cfg s = Some (Inr (LandedAt sha :: 'o watch_ended), t)"
  shows "(\<exists>w p. fst (merge_asked h p w) = Inr (Merged sha)) \<or> (\<exists>w. fst (merged_at_of h w) = Inr (Some sha))"
proof -
  obtain d s1 where "declared_once h cfg s = (d, s1)" by fastforce
  with assms have "watch_loop (merge_round h cfg d) s1 = Some (Inr (LandedAt sha :: 'o watch_ended), t)"
    by (simp add: await_the_merge_def)
  then obtain u where "merge_round h cfg d u = (Some (Inr (LandedAt sha :: 'o watch_ended)), t)"
    using watch_loop_last [where P = "\<lambda>_. True"] by metis
  then show ?thesis by (rule merge_round_landed)
qed

section \<open>A host to watch\<close>

text \<open>A host whose one required check passes on the third minute, and that merges on the fifth.\<close>

definition slow_run :: "nat \<Rightarrow> check" where
  "slow_run w = \<lparr>check_name = ''lint'', status = if w < 2 then ''in_progress'' else ''completed'',
     conclusion = if w < 2 then None else Some ''success'', required = True, head = Some ''abc'', started_at = None\<rparr>"

definition slow_host :: "(nat, unit) remote_host" where
  "slow_host =
     \<lparr>change_checks_of = (\<lambda>w. (Inr \<lparr>answer_checks = [slow_run w], answer_sources = [StatusChecks]\<rparr>, w)),
      check_log_of = (\<lambda>_ w. (Inl (), w)), head_activity_of = (\<lambda>w. (Inl (), w)),
      required_on = (\<lambda>w. (Inr \<lparr>required_names = [''lint''], unconsulted = []\<rparr>, w)),
      ready_for_review = (\<lambda>w. (Inr (), w)), is_draft_of = (\<lambda>w. (Inr True, w)),
      merge_asked = (\<lambda>_ w. (Inr Queued, w)),
      merged_at_of = (\<lambda>w. (Inr (if w < 4 then None else Some ''abc''), w)),
      mergeability_of = (\<lambda>w. (Inr Mergeable, w)), allows_auto_merge_of = (\<lambda>w. (Inr True, w)),
      not_implemented = (\<lambda>_. False), refusal_text = (\<lambda>_. []), now_at = (\<lambda>w. w),
      pause_for = (\<lambda>w. (False, Suc w))\<rparr>"

definition slow_watch :: watch where
  "slow_watch = \<lparr>pushed = ''abc'', base_branch = ''main'', bound = 10, grace = 3, reuse = 1, warn_on_early_lift = False\<rparr>"

definition fresh_watcher :: "nat watcher" where
  "fresh_watcher = \<lparr>world = 0, started = 0, last_reported = [], logs = [], settled_once = False,
     gate_recorded = False, declares = None, elapsed = False, armed = False, skipped_at_elapse = [],
     busy_since = None, emitted = []\<rparr>"

lemma steady_slow: "steady slow_host"
  by (simp add: steady_def slow_host_def)

lemma slow_ready: "map_option fst (settle_ready slow_host slow_watch fresh_watcher) = Some (Inr ())"
  by code_simp

lemma slow_draft: "map_option fst (settle_draft slow_host slow_watch fresh_watcher) = Some (Inr True)"
  by code_simp

lemma slow_merge:
  "map_option fst (await_the_merge slow_host slow_watch (fresh_watcher\<lparr>world := 2\<rparr>)) =
     Some (Inr (LandedAt ''abc'' :: unit watch_ended))"
  by code_simp

section \<open>Properties\<close>

text \<open>C24 Waiting for a change's checks, and then for the host's own merge, ends: on a host whose
  calls return, whose clock does not go back and whose waited-out interval takes time, both
  loops come back with an answer, whatever the host answers.\<close>

theorem watching_ends:
  assumes "steady h"
  shows "(\<exists>r t. settle h cfg drafted s = Some (r, t)) \<and>
         (\<exists>r t. (await_the_merge h cfg s :: (('e watch_error + 'o watch_ended) \<times> 'w watcher) option) = Some (r, t))"
proof
  show "\<exists>r t. settle h cfg drafted s = Some (r, t)"
  proof (cases drafted)
    case True
    with settle_draft_returns [OF assms] show ?thesis by (simp add: settle_def)
  next
    case False
    with settle_ready_returns [OF assms] show ?thesis by (fastforce simp: settle_def)
  qed
  obtain d s1 where "declared_once h cfg s = (d, s1)" by fastforce
  moreover have "\<exists>r t. watch_loop (merge_round h cfg d :: 'w watcher \<Rightarrow> ('e watch_error + 'o watch_ended) option \<times> 'w watcher) s1 = Some (r, t)"
    by (rule watch_loop_returns [OF assms, where cfg = cfg]) (metis merge_round_moves)
  ultimately show "\<exists>r t. (await_the_merge h cfg s :: (('e watch_error + 'o watch_ended) \<times> 'w watcher) option) = Some (r, t)"
    by (simp add: await_the_merge_def)
qed

theorem watching_ends_witness:
  "steady slow_host \<and> (\<exists>r t. settle slow_host slow_watch True fresh_watcher = Some (r, t))"
  using watching_ends [OF steady_slow] steady_slow by blast

text \<open>A change that is ready is called settled only on a reading of the host: there is an answer
  the host gave about exactly the pushed commit, and the shared classifier, asked about that
  answer and what this merge requires, answers passed, passed with skipped or nothing required.\<close>

theorem ready_change_settles_on_a_verdict:
  assumes "settle_ready h cfg s = Some (Inr (), t)"
  shows "\<exists>w answered. fst (change_checks_of h w) = Inr answered \<and>
    (let verdict = checks_verdict (filter (is_about (pushed cfg)) (answer_checks answered))
                     (fst (declared_once h cfg s)) (complete_checks answered)
     in verdict \<in> {VerdictPassed, VerdictNoneRequired} \<or> (\<exists>ns. verdict = VerdictPassedWithSkipped ns))"
  using settle_ready_Ok [OF assms] unfolding read_as_def Let_def by blast

theorem ready_change_settles_on_a_verdict_witness:
  "\<exists>w answered. fst (change_checks_of slow_host w) = Inr answered \<and>
     (let verdict = checks_verdict (filter (is_about ''abc'') (answer_checks answered))
                      (fst (declared_once slow_host slow_watch fresh_watcher)) (complete_checks answered)
      in verdict \<in> {VerdictPassed, VerdictNoneRequired} \<or> (\<exists>ns. verdict = VerdictPassedWithSkipped ns))"
proof -
  obtain t where "settle_ready slow_host slow_watch fresh_watcher = Some (Inr (), t)"
    using slow_ready by auto
  from ready_change_settles_on_a_verdict [OF this] show ?thesis by (simp add: slow_watch_def)
qed

text \<open>C25 A draft is called green, or is settled after it was lifted early, only on evidence: green as
  a draft, on one reading of the pushed commit where every required check passed, nothing is
  required, or the requirement is unreadable and every one of the runs there are is a run;
  settled after an early lift, on a reading with a run attached after the lift, where each
  required check has a run that passed or one after the lift that was skipped, and none red or
  still running - a skip left over from the draft never counts.\<close>

theorem draft_settles_on_evidence:
  assumes "settle_draft h cfg s = Some (Inr b, t)"
  shows "let d = fst (declared_once h cfg s)
    in if b then \<exists>cs complete. read_as h cfg cs complete \<and> green_reading cs d complete
       else \<exists>snapshot before cs complete. read_as h cfg snapshot before \<and> read_as h cfg cs complete \<and>
         settled_after_lift snapshot (sharpened d snapshot before) cs"
  using settle_draft_Ok [OF assms] by (simp add: Let_def)

theorem draft_settles_on_evidence_witness:
  "\<exists>cs complete. read_as slow_host slow_watch cs complete \<and>
     green_reading cs (fst (declared_once slow_host slow_watch fresh_watcher)) complete"
proof -
  obtain t where "settle_draft slow_host slow_watch fresh_watcher = Some (Inr True, t)"
    using slow_draft by auto
  from draft_settles_on_evidence [OF this] show ?thesis by (simp add: Let_def)
qed



text \<open>Waiting for the host's merge reports a landing only at a commit the host itself named: in
  its answer to the request to merge, or as the commit the change request is merged at.\<close>

theorem landings_are_the_hosts:
  assumes "await_the_merge h cfg s = Some (Inr (LandedAt sha), t)"
  shows "(\<exists>w p. fst (merge_asked h p w) = Inr (Merged sha)) \<or> (\<exists>w. fst (merged_at_of h w) = Inr (Some sha))"
  using assms by (rule await_landed)

theorem landings_are_the_hosts_witness:
  "\<exists>w. fst (merged_at_of slow_host w) = Inr (Some ''abc'')"
proof -
  obtain t where "await_the_merge slow_host slow_watch (fresh_watcher\<lparr>world := 2\<rparr>) = Some (Inr (LandedAt ''abc'' :: unit watch_ended), t)"
    using slow_merge by auto
  from landings_are_the_hosts [OF this] show ?thesis by (simp add: slow_host_def)
qed

end
