(* ===== verification/Landing.thy ===== *)
theory Landing
  imports Watch Policy
begin

text \<open>
  Landing an open change request under its policy (\<open>publish.rs\<close>, \<open>land_opened_change\<close> and
  \<open>Landing\<close>): the rounds of settling its checks outside the identity's merge turn, verifying under
  the turn that what settled still holds, and merging; what an elapsed wait arms; and the
  re-synchronisation between rounds. The host is the watch's; the turn, git's answers about
  origin, and the publication's own fetch, sync, boundary screen, push and record of a landing are
  operations on the world. The state is the watcher's, carried from round to round.
\<close>

section \<open>What a landing uses and answers\<close>

record ('w, 'e) landing_ops =
  take_turn :: "'w \<Rightarrow> ('e + unit) \<times> 'w"
  release_turn :: "'w \<Rightarrow> 'w"
  origin_branch :: "'w \<Rightarrow> ('e + remote_tip) \<times> 'w"
  origin_base :: "'w \<Rightarrow> ('e + remote_tip) \<times> 'w"
  carries :: "str \<Rightarrow> str \<Rightarrow> 'w \<Rightarrow> ('e + bool) \<times> 'w"       \<comment> \<open>\<open>known_to_reach\<close>: whether the second carries the first\<close>
  up_to_date_required :: "'w \<Rightarrow> ('e + bool) \<times> 'w"
  fetch_origin :: "'w \<Rightarrow> ('e + unit) \<times> 'w"
  fast_forward :: "str \<Rightarrow> 'w \<Rightarrow> ('e + unit) \<times> 'w"
  sync_base :: "'w \<Rightarrow> ('e + unit) \<times> 'w"
  synced_tip :: "'w \<Rightarrow> str option \<times> 'w"
  push_branch :: "'w \<Rightarrow> ('e + unit) \<times> 'w"
  note_landed :: "str \<Rightarrow> 'w \<Rightarrow> ('e + unit) \<times> 'w"

record landing =
  effective :: merge_policy
  approvals_of :: approvals
  lifecycle :: bool            \<comment> \<open>the drafts are not disabled\<close>
  held :: bool                 \<comment> \<open>the publication carries a reason to stay a draft\<close>
  resumed :: bool
  queues_on_elapse :: bool

datatype publish_outcome =
    MergedOutcome str
  | OpenOutcome
  | DraftOutcome
  | ReviewDraftOutcome
  | QueuedOutcome
  | ArmedOutcome str           \<comment> \<open>checks unsettled, the merge left armed on this head\<close>

datatype moved_why = MovedHead str | MovedChecks | MovedBase str

datatype 'e landing_error =
    Stopped "'e watch_error"
  | Refused 'e
  | BranchUnread
  | BaseUnread
  | ResumedCannotSync
  | HeadDiverged str
  | SyncedTipUnread
  | SkippedOnElapse "str list" bool
  | AutoMergeNotAllowed
  | AutoMergeUnread 'e
  | AlreadyOpenForReview

definition ask_world ::
    "('w \<Rightarrow> ('e + 'a) \<times> 'w) \<Rightarrow> 'w watcher \<Rightarrow> ('e landing_error + 'a) \<times> 'w watcher" where
  "ask_world f s = (let (r, w) = f (world s) in (case r of Inl e \<Rightarrow> Err (Refused e) | Inr x \<Rightarrow> Ok x, s\<lparr>world := w\<rparr>))"

definition stopping :: "('e watch_error + 'a) \<times> 's \<Rightarrow> ('e landing_error + 'a) \<times> 's" where
  "stopping p = (case p of (Inl e, s) \<Rightarrow> (Err (Stopped e), s) | (Inr x, s) \<Rightarrow> (Ok x, s))"

definition then_at :: "('x + 'a) \<times> 's \<Rightarrow> ('a \<Rightarrow> 's \<Rightarrow> ('x + 'b) \<times> 's) \<Rightarrow> ('x + 'b) \<times> 's" where
  "then_at p f = (case p of (Inl e, s) \<Rightarrow> (Inl e, s) | (Inr x, s) \<Rightarrow> f x s)"

lemma then_at_simps [simp]: "then_at (Inl e, s) f = (Inl e, s)" "then_at (Inr x, s) f = f x s"
  by (simp_all add: then_at_def)

lemma then_at_Ok: "then_at p f = (Inr y, t) \<longleftrightarrow> (\<exists>x s. p = (Inr x, s) \<and> f x s = (Inr y, t))"
  by (cases p; cases "fst p") auto

section \<open>Under the turn\<close>

definition head_moved ::
    "('w, 'e) landing_ops \<Rightarrow> watch \<Rightarrow> 'w watcher \<Rightarrow> ('e landing_error + str option) \<times> 'w watcher" where
  "head_moved ops cfg s =
     then_at (ask_world (origin_branch ops) s) (\<lambda>tip s.
       case tip of
         TipAt t \<Rightarrow> (Ok (if t = pushed cfg then None else Some t), s)
       | _ \<Rightarrow> (Err BranchUnread, s))"

definition reads_through :: "reading \<Rightarrow> declared \<Rightarrow> bool" where
  "reads_through r d =
     (case reported r of About cs \<Rightarrow> lets_through (standings cs d) d | NotYet \<Rightarrow> False)"

definition reverify ::
    "('w, 'e) remote_host \<Rightarrow> ('w, 'e) landing_ops \<Rightarrow> watch \<Rightarrow> 'w watcher \<Rightarrow>
     ('e landing_error + moved_why option) \<times> 'w watcher" where
  "reverify h ops cfg s =
     then_at (stopping (read_host h cfg s)) (\<lambda>r s.
     let (declared, s) = declared_once h cfg s; d = given declared r; through = reads_through r d
     in then_at (head_moved ops cfg s) (\<lambda>moved s.
        case moved of
          Some tip \<Rightarrow> (Ok (Some (MovedHead tip)), s)
        | None \<Rightarrow>
            (if \<not> through then (Ok (Some MovedChecks), s)
             else then_at (ask_world (origin_base ops) s) (\<lambda>base s.
               case base of
                 TipAt tip \<Rightarrow>
                   then_at (ask_world (carries ops tip (pushed cfg)) s) (\<lambda>current s.
                     if current then (Ok None, s)
                     else (let (answer, w) = up_to_date_required ops (world s);
                               must = (case answer of Inl _ \<Rightarrow> True | Inr b \<Rightarrow> b)
                           in (Ok (if must then Some (MovedBase tip) else None), s\<lparr>world := w\<rparr>)))
               | _ \<Rightarrow> (Err BaseUnread, s)))))"

section \<open>An elapsed wait\<close>

definition arm_on_elapse ::
    "('w, 'e) remote_host \<Rightarrow> watch \<Rightarrow> bool \<Rightarrow> 'w watcher \<Rightarrow>
     ('e landing_error + publish_outcome watch_ended) \<times> 'w watcher" where
  "arm_on_elapse h cfg queues s =
     (if skipped_at_elapse s \<noteq> [] then (Err (SkippedOnElapse (skipped_at_elapse s) (armed s)), s)
      else if armed s then (Ok (EndedWith (ArmedOutcome (pushed cfg))), emit (ArmedMerge (pushed cfg)) s)
      else case allows_auto_merge_of h (world s) of
        (Inr False, w) \<Rightarrow> (Err AutoMergeNotAllowed, s\<lparr>world := w\<rparr>)
      | (Inl e, w) \<Rightarrow> (Err (AutoMergeUnread e), s\<lparr>world := w\<rparr>)
      | (Inr True, w) \<Rightarrow>
          then_at (stopping (lift_any_draft h (s\<lparr>world := w\<rparr>))) (\<lambda>_ s.
          let s = (if queues then emit QueuedMerge s else s)
          in then_at (ask_world (merge_asked h AskAuto) s) (\<lambda>outcome s.
               case outcome of
                 Merged sha \<Rightarrow> (Ok (LandedAt sha), s)
               | _ \<Rightarrow> (Ok (EndedWith (ArmedOutcome (pushed cfg))), emit (ArmedMerge (pushed cfg)) s))))"

text \<open>Everything a landing records, still under the turn.\<close>

definition landed_at_host ::
    "('w, 'e) landing_ops \<Rightarrow> str \<Rightarrow> 'w watcher \<Rightarrow> ('e landing_error + publish_outcome) \<times> 'w watcher" where
  "landed_at_host ops sha s =
     then_at (ask_world (note_landed ops sha) (emit (ChangeMergedAt sha) s)) (\<lambda>_ s. (Ok (MergedOutcome sha), s))"

section \<open>Re-synchronisation\<close>

definition resync ::
    "('w, 'e) landing_ops \<Rightarrow> landing \<Rightarrow> watch \<Rightarrow> moved_why \<Rightarrow> 'w watcher \<Rightarrow>
     ('e landing_error + str) \<times> 'w watcher" where
  "resync ops lc cfg moved s =
     (if moved = MovedChecks then (Ok (pushed cfg), s)
      else if resumed lc then (Err ResumedCannotSync, s)
      else then_at (ask_world (fetch_origin ops) s) (\<lambda>_ s.
        then_at (case moved of
            MovedHead tip \<Rightarrow>
              then_at (ask_world (carries ops (pushed cfg) tip) s) (\<lambda>ahead s.
                if ahead then ask_world (fast_forward ops tip) s else (Err (HeadDiverged tip), s))
          | _ \<Rightarrow> (Ok (), s)) (\<lambda>_ s.
        then_at (ask_world (sync_base ops) s) (\<lambda>_ s.
        let (synced, w) = synced_tip ops (world s); s = s\<lparr>world := w\<rparr>
        in case synced of
             None \<Rightarrow> (Err SyncedTipUnread, s)
           | Some tip \<Rightarrow>
               then_at (ask_world (origin_branch ops) s) (\<lambda>on_origin s.
                 if on_origin = TipAt tip then (Ok tip, s)
                 else then_at (ask_world (push_branch ops) s) (\<lambda>_ s. (Ok tip, s)))))))"

section \<open>Rounds\<close>

datatype turn_end = TurnEnded publish_outcome | TurnMoved moved_why | TurnResettle

datatype round_end = RoundEnded publish_outcome | RoundAgain str bool

text \<open>What ends a watch, under the turn: a landing is recorded there, and nothing else is.\<close>

definition turn_ended ::
    "('w, 'e) landing_ops \<Rightarrow> publish_outcome watch_ended \<Rightarrow> turn_end \<Rightarrow> 'w watcher \<Rightarrow>
     ('e landing_error + turn_end) \<times> 'w watcher" where
  "turn_ended ops ended resettle s =
     (case ended of
        LandedAt sha \<Rightarrow> then_at (landed_at_host ops sha s) (\<lambda>out s. (Ok (TurnEnded out), s))
      | EndedWith out \<Rightarrow> (Ok (TurnEnded out), s)
      | Resettle \<Rightarrow> (Ok resettle, s))"

definition on_elapse ::
    "('w, 'e) remote_host \<Rightarrow> ('w, 'e) landing_ops \<Rightarrow> landing \<Rightarrow> watch \<Rightarrow> 'w watcher \<Rightarrow>
     ('e landing_error + turn_end) \<times> 'w watcher" where
  "on_elapse h ops lc cfg s =
     then_at (arm_on_elapse h cfg (queues_on_elapse lc) s) (\<lambda>ended s. turn_ended ops ended (TurnMoved MovedChecks) s)"

definition watched ::
    "('w, 'e) remote_host \<Rightarrow> landing \<Rightarrow> watch \<Rightarrow> 'w watcher \<Rightarrow>
     (('e watch_error + publish_outcome watch_ended) \<times> 'w watcher) option" where
  "watched h lc cfg s =
     (if effective lc = ChangeAuto then await_the_merge h cfg s
      else case merge_or_find_merged h AskDirect s of
        (Inl e, s) \<Rightarrow> Some (Err e, s)
      | (Inr (Merged sha), s) \<Rightarrow> Some (Ok (LandedAt sha), s)
      | (Inr Queued, s) \<Rightarrow> Some (Ok (EndedWith QueuedOutcome), s)
      | (Inr OpenForReview, s) \<Rightarrow> Some (Ok (EndedWith OpenOutcome), s))"

fun elapsed_wait :: "'e watch_error \<Rightarrow> 'w watcher \<Rightarrow> bool" where
  "elapsed_wait (ChecksUnsettled _ _) s = elapsed s"
| "elapsed_wait _ s = False"

definition merge_under_turn ::
    "('w, 'e) remote_host \<Rightarrow> ('w, 'e) landing_ops \<Rightarrow> landing \<Rightarrow> watch \<Rightarrow> 'w watcher \<Rightarrow>
     (('e landing_error + turn_end) \<times> 'w watcher) option" where
  "merge_under_turn h ops lc cfg s =
     (case reverify h ops cfg s of
        (Inl e, s) \<Rightarrow> Some (Err e, s)
      | (Inr (Some moved), s) \<Rightarrow> Some (Ok (TurnMoved moved), s)
      | (Inr None, s) \<Rightarrow>
          (case watched h lc cfg (emit QueuedMerge s) of
             None \<Rightarrow> None
           | Some (Inr ended, s) \<Rightarrow> Some (turn_ended ops ended TurnResettle s)
           | Some (Inl e, s) \<Rightarrow>
               Some (if elapsed_wait e s then on_elapse h ops lc cfg s else (Err (Stopped e), s))))"

definition settle_and_lift ::
    "('w, 'e) remote_host \<Rightarrow> watch \<Rightarrow> bool \<Rightarrow> 'w watcher \<Rightarrow> (('e watch_error + unit) \<times> 'w watcher) option" where
  "settle_and_lift h cfg drafted s =
     map_option (\<lambda>p. then_at p (\<lambda>green s. if green then lift_draft h s else (Ok (), s))) (settle h cfg drafted s)"

definition took_turn ::
    "('w, 'e) landing_ops \<Rightarrow> 'w watcher \<Rightarrow> ('e landing_error + unit) \<times> 'w watcher" where
  "took_turn ops s = then_at (ask_world (take_turn ops) s) (\<lambda>_ s. (Ok (), emit TookTurn s))"

definition released :: "('w, 'e) landing_ops \<Rightarrow> 'w watcher \<Rightarrow> 'w watcher" where
  "released ops s = s\<lparr>world := release_turn ops (world s)\<rparr>"

definition again ::
    "('w, 'e) landing_ops \<Rightarrow> landing \<Rightarrow> watch \<Rightarrow> moved_why \<Rightarrow> 'w watcher \<Rightarrow>
     ('e landing_error + round_end) \<times> 'w watcher" where
  "again ops lc cfg moved s =
     then_at (resync ops lc cfg moved s) (\<lambda>p s. (Ok (RoundAgain p (armed s \<and> moved = MovedChecks)), s))"

text \<open>After the turn is released: the round ended, or the checks settle again on another head.\<close>

definition after_turn ::
    "('w, 'e) landing_ops \<Rightarrow> landing \<Rightarrow> watch \<Rightarrow> ('e landing_error + turn_end) \<times> 'w watcher \<Rightarrow>
     ('e landing_error + round_end) \<times> 'w watcher" where
  "after_turn ops lc cfg p =
     (case p of
        (Inl e, s) \<Rightarrow> (Err e, released ops s)
      | (Inr (TurnEnded out), s) \<Rightarrow> (Ok (RoundEnded out), released ops s)
      | (Inr (TurnMoved moved), s) \<Rightarrow> again ops lc cfg moved (released ops s)
      | (Inr TurnResettle, s) \<Rightarrow>
          then_at (head_moved ops cfg (released ops s)) (\<lambda>tip s.
            again ops lc cfg (case tip of Some t \<Rightarrow> MovedHead t | None \<Rightarrow> MovedChecks) s))"

definition landing_round ::
    "('w, 'e) remote_host \<Rightarrow> ('w, 'e) landing_ops \<Rightarrow> landing \<Rightarrow> watch \<Rightarrow> bool \<Rightarrow> 'w watcher \<Rightarrow>
     (('e landing_error + round_end) \<times> 'w watcher) option" where
  "landing_round h ops lc cfg drafted s =
     (case settle_and_lift h cfg drafted s of
        None \<Rightarrow> None
      | Some (Inl e, s) \<Rightarrow>
          Some (if elapsed_wait e s
                then (case took_turn ops s of
                        (Inl e, s) \<Rightarrow> (Err e, s)
                      | (Inr _, s) \<Rightarrow> after_turn ops lc cfg (on_elapse h ops lc cfg s))
                else (Err (Stopped e), s))
      | Some (Inr _, s) \<Rightarrow>
          (case took_turn ops s of
             (Inl e, s) \<Rightarrow> Some (Err e, s)
           | (Inr _, s) \<Rightarrow> map_option (after_turn ops lc cfg) (merge_under_turn h ops lc cfg s)))"

text \<open>The rounds of one landing: each has a watcher of its own, on the bound of the first.\<close>

datatype 'w rounds =
    Running str bool "'w watcher"        \<comment> \<open>the head whose checks settle, and whether it is a draft\<close>
  | Over "'w watcher"
  | Endless

definition next_watcher :: "bool \<Rightarrow> 'w watcher \<Rightarrow> 'w watcher" where
  "next_watcher was_armed s =
     \<lparr>world = world s, started = started s, last_reported = [], logs = [], settled_once = False,
      gate_recorded = False, declares = None, elapsed = False, armed = was_armed, skipped_at_elapse = [],
      busy_since = None, emitted = emitted s\<rparr>"

fun is_running :: "'r option \<times> 'w rounds \<Rightarrow> bool" where
  "is_running (_, Running _ _ _) = True"
| "is_running _ = False"

fun round_step ::
    "('w, 'e) remote_host \<Rightarrow> ('w, 'e) landing_ops \<Rightarrow> landing \<Rightarrow> watch \<Rightarrow>
     ('e landing_error + publish_outcome) option \<times> 'w rounds \<Rightarrow>
     ('e landing_error + publish_outcome) option \<times> 'w rounds" where
  "round_step h ops lc cfg (r, Running p drafted s) =
     (case landing_round h ops lc (cfg\<lparr>pushed := p\<rparr>) drafted s of
        None \<Rightarrow> (None, Endless)
      | Some (Inl e, s) \<Rightarrow> (Some (Err e), Over s)
      | Some (Inr (RoundEnded out), s) \<Rightarrow> (Some (Ok out), Over s)
      | Some (Inr (RoundAgain p' a), s) \<Rightarrow> (None, Running p' False (next_watcher a s)))"
| "round_step h ops lc cfg st = st"

definition landing_rounds ::
    "('w, 'e) remote_host \<Rightarrow> ('w, 'e) landing_ops \<Rightarrow> landing \<Rightarrow> watch \<Rightarrow> bool \<Rightarrow> 'w watcher \<Rightarrow>
     (('e landing_error + publish_outcome) \<times> 'w watcher) option" where
  "landing_rounds h ops lc cfg drafted s =
     (case while_option is_running (round_step h ops lc cfg) (None, Running (pushed cfg) drafted s) of
        Some (Some r, Over s) \<Rightarrow> Some (r, s)
      | _ \<Rightarrow> None)"

section \<open>An open change\<close>

definition await_as_draft ::
    "('w, 'e) remote_host \<Rightarrow> 'w watcher \<Rightarrow> ('e landing_error + bool) \<times> 'w watcher" where
  "await_as_draft h s =
     (case is_draft_of h (world s) of
        (Inr True, w) \<Rightarrow> (Ok True, emit DraftedAwaitingChecks (s\<lparr>world := w\<rparr>))
      | (Inr False, w) \<Rightarrow> (Ok False, s\<lparr>world := w\<rparr>)
      | (Inl e, w) \<Rightarrow> (if not_implemented h e then Ok False else Err (Refused e), s\<lparr>world := w\<rparr>))"

definition hold_as_draft ::
    "('w, 'e) remote_host \<Rightarrow> 'w watcher \<Rightarrow> ('e landing_error + publish_outcome) \<times> 'w watcher" where
  "hold_as_draft h s =
     then_at (ask_world (is_draft_of h) s) (\<lambda>draft s.
       if \<not> draft then (Err AlreadyOpenForReview, s) else (Ok DraftOutcome, emit DraftHeld s))"

text \<open>Under \<open>change-open\<close> nothing is merged: the checks settle, and a green draft is lifted or kept.\<close>

definition settle_open_change ::
    "('w, 'e) remote_host \<Rightarrow> landing \<Rightarrow> watch \<Rightarrow> bool \<Rightarrow> 'w watcher \<Rightarrow>
     (('e landing_error + publish_outcome) \<times> 'w watcher) option" where
  "settle_open_change h lc cfg drafted s =
     map_option (\<lambda>p. then_at (stopping p) (\<lambda>green s.
       if green \<and> green_draft (effective lc) (approvals_of lc) = KeepForReview
       then (Ok ReviewDraftOutcome, emit DraftKeptForReview s)
       else then_at (if green then stopping (lift_draft h s) else (Ok (), s)) (\<lambda>_ s. (Ok OpenOutcome, s))))
       (settle h cfg drafted s)"

definition land_opened_change ::
    "('w, 'e) remote_host \<Rightarrow> ('w, 'e) landing_ops \<Rightarrow> landing \<Rightarrow> watch \<Rightarrow> bool \<Rightarrow> 'w watcher \<Rightarrow>
     (('e landing_error + publish_outcome) \<times> 'w watcher) option" where
  "land_opened_change h ops lc cfg adopted s =
     (if held lc then Some (hold_as_draft h s)
      else case (if lifecycle lc then await_as_draft h s
                 else if adopted then then_at (stopping (lift_any_draft h s)) (\<lambda>_ s. (Ok False, s))
                 else (Ok False, s)) of
        (Inl e, s) \<Rightarrow> Some (Err e, s)
      | (Inr drafted, s) \<Rightarrow>
          (let s = s\<lparr>started := now_at h (world s)\<rparr>
           in if effective lc = ChangeOpen then settle_open_change h lc cfg drafted s
              else landing_rounds h ops
                     (lc\<lparr>queues_on_elapse := (effective lc = ChangeAuto \<and> \<not> drafted)\<rparr>) cfg drafted s))"

section \<open>What a merge rests on\<close>

definition host_merged :: "('w, 'e) remote_host \<Rightarrow> str \<Rightarrow> bool" where
  "host_merged h sha \<longleftrightarrow>
     (\<exists>w p. fst (merge_asked h p w) = Inr (Merged sha)) \<or> (\<exists>w. fst (merged_at_of h w) = Inr (Some sha))"

text \<open>What was verified under the turn about one head: the host's reading of it lets it through, origin's
  branch is at it, and it carries origin's base or the host does not require it to.\<close>

definition verified :: "('w, 'e) remote_host \<Rightarrow> ('w, 'e) landing_ops \<Rightarrow> watch \<Rightarrow> bool" where
  "verified h ops cfg \<longleftrightarrow>
     (\<exists>cs complete d. read_as h cfg cs complete \<and>
        lets_through (standings cs (sharpened d cs complete)) (sharpened d cs complete)) \<and>
     (\<exists>w. fst (origin_branch ops w) = Inr (TipAt (pushed cfg))) \<and>
     (\<exists>w tip. fst (origin_base ops w) = Inr (TipAt tip) \<and>
        ((\<exists>w. fst (carries ops tip (pushed cfg) w) = Inr True) \<or> (\<exists>w. fst (up_to_date_required ops w) = Inr False)))"

lemma ask_world_Ok:
  "ask_world f s = (Inr x, t) \<longleftrightarrow> (\<exists>w. f (world s) = (Inr x, w) \<and> t = s\<lparr>world := w\<rparr>)"
  by (auto simp: ask_world_def Let_def split: prod.splits sum.splits)

lemma stopping_Ok: "stopping p = (Inr x, t) \<longleftrightarrow> p = (Inr x, t)"
  by (auto simp: stopping_def split: prod.splits sum.splits)

lemma ask_world_answer: "ask_world f s = (Inr x, t) \<Longrightarrow> \<exists>w. fst (f w) = Inr x"
  unfolding ask_world_Ok by (metis fst_conv)

lemma head_moved_None:
  fixes ops :: "('w, 'e) landing_ops"
  assumes "head_moved ops cfg s = (Inr None, t)"
  shows "\<exists>w. fst (origin_branch ops w) = Inr (TipAt (pushed cfg))"
proof -
  obtain tip u where u: "ask_world (origin_branch ops) s = (Inr tip, u)"
    "(case tip of TipAt t \<Rightarrow> (Ok (if t = pushed cfg then None else Some t), u) | _ \<Rightarrow> (Err BranchUnread, u)) =
       (Inr None :: 'e landing_error + str option, t)"
    using assms unfolding head_moved_def then_at_Ok by blast
  then have "tip = TipAt (pushed cfg)" by (auto split: remote_tip.splits if_splits)
  with ask_world_answer [OF u(1)] show ?thesis by simp
qed

lemma reverify_None:
  assumes "reverify h ops cfg s = (Inr None, t)"
  shows "verified h ops cfg"
proof -
  obtain r s1 where r: "read_host h cfg s = (Inr r, s1)"
    using assms by (auto simp: reverify_def then_at_Ok stopping_Ok)
  obtain d s2 where d: "declared_once h cfg s1 = (d, s2)" by fastforce
  note step = assms [unfolded reverify_def r, unfolded stopping_def, simplified, unfolded d Let_def, simplified]
  obtain moved s3 where m: "head_moved ops cfg s2 = (Inr moved, s3)"
    using step by (auto simp: then_at_Ok)
  note step = step [unfolded m, simplified]
  from step have moved: "moved = None" and through: "reads_through r (given d r)"
    by (auto split: option.splits if_splits)
  note step = step [unfolded moved, simplified]
  obtain base s4 where b: "ask_world (origin_base ops) s3 = (Inr base, s4)"
    using step through by (auto simp: then_at_Ok)
  note step = step [unfolded b, simplified]
  obtain tip where tip: "base = TipAt tip" using step through by (cases base) auto
  note step = step [unfolded tip, simplified]
  obtain current s5 where c: "ask_world (carries ops tip (pushed cfg)) s4 = (Inr current, s5)"
    using step through by (auto simp: then_at_Ok)
  have "(\<exists>w. fst (carries ops tip (pushed cfg) w) = Inr True) \<or> (\<exists>w. fst (up_to_date_required ops w) = Inr False)"
  proof (cases current)
    case True
    with ask_world_answer [OF c] show ?thesis by simp
  next
    case False
    with step c through have "fst (up_to_date_required ops (world s5)) = Inr False"
      by (auto split: prod.splits sum.splits if_splits)
    then show ?thesis by blast
  qed
  moreover have "fst (origin_base ops (world s3)) = Inr (TipAt tip)"
    using b tip unfolding ask_world_Ok by (metis fst_conv)
  moreover have "\<exists>w. fst (origin_branch ops w) = Inr (TipAt (pushed cfg))"
    using head_moved_None m moved by blast
  moreover have "\<exists>cs complete. read_as h cfg cs complete \<and>
      lets_through (standings cs (sharpened d cs complete)) (sharpened d cs complete)"
  proof -
    obtain cs where cs: "reported r = About cs" using through by (cases "reported r") (auto simp: reads_through_def)
    with through have "lets_through (standings cs (given d r)) (given d r)" by (simp add: reads_through_def)
    with read_host_Inr [OF r] cs show ?thesis unfolding given_sharpened by auto
  qed
  ultimately show ?thesis unfolding verified_def by blast
qed

lemma arm_on_elapse_landed:
  fixes h :: "('w, 'e) remote_host"
  assumes "arm_on_elapse h cfg queues s = (Inr (LandedAt sha), t)"
  shows "host_merged h sha \<and> (\<exists>w. fst (allows_auto_merge_of h w) = Inr True) \<and> skipped_at_elapse s = []"
proof -
  obtain a w where a: "allows_auto_merge_of h (world s) = (a, w)" by fastforce
  have free: "skipped_at_elapse s = []" "\<not> armed s"
    using assms by (auto simp: arm_on_elapse_def split: if_splits)
  with assms a have True: "a = Inr True" by (auto simp: arm_on_elapse_def split: sum.splits bool.splits)
  obtain u out v where "ask_world (merge_asked h AskAuto) u = (Inr out, v)"
    and "(case out of Merged sha \<Rightarrow> (Ok (LandedAt sha), v)
      | _ \<Rightarrow> (Ok (EndedWith (ArmedOutcome (pushed cfg))), emit (ArmedMerge (pushed cfg)) v)) =
        (Inr (LandedAt sha) :: 'e landing_error + publish_outcome watch_ended, t)"
    using assms free a True unfolding arm_on_elapse_def Let_def by (auto simp: then_at_Ok)
  then have u: "ask_world (merge_asked h AskAuto) u = (Inr (Merged sha), t)" by (cases out) auto
  from ask_world_answer [OF this] have "host_merged h sha" unfolding host_merged_def by blast
  with a True free(1) show ?thesis by (metis fst_conv)
qed

lemma watched_landed:
  assumes "watched h lc cfg s = Some (Inr (LandedAt sha), t)"
  shows "host_merged h sha"
proof (cases "effective lc = ChangeAuto")
  case True
  with assms have "await_the_merge h cfg s = Some (Inr (LandedAt sha :: publish_outcome watch_ended), t)" by (simp add: watched_def)
  from await_landed [OF this] show ?thesis by (simp add: host_merged_def)
next
  case False
  with assms have "merge_or_find_merged h AskDirect s = (Inr (Merged sha), t)"
    by (auto simp: watched_def split: prod.splits sum.splits merge_outcome.splits)
  from merge_found [OF this] show ?thesis unfolding host_merged_def by blast
qed

text \<open>The other ends of a watch are no merge.\<close>

definition unmerged :: "publish_outcome \<Rightarrow> bool" where
  "unmerged out \<longleftrightarrow> (\<forall>sha. out \<noteq> MergedOutcome sha)"

lemma turn_ended_merged:
  assumes "turn_ended ops ended resettle s = (Inr (TurnEnded (MergedOutcome sha)), t)"
    "resettle \<noteq> TurnEnded (MergedOutcome sha)"
  shows "ended = LandedAt sha \<or> ended = EndedWith (MergedOutcome sha)"
  using assms by (cases ended) (auto simp: turn_ended_def landed_at_host_def then_at_Ok)

lemma arm_on_elapse_ends:
  "arm_on_elapse h cfg queues s \<noteq> (Inr (EndedWith (MergedOutcome sha)), t)"
  by (auto simp: arm_on_elapse_def then_at_Ok Let_def split: sum.splits prod.splits bool.splits merge_outcome.splits)

lemma await_ends: "await_the_merge h cfg s \<noteq> Some (Inr (EndedWith x), t)"
proof
  assume a: "await_the_merge h cfg s = Some (Inr (EndedWith x), t)"
  obtain d s1 where "declared_once h cfg s = (d, s1)" by fastforce
  with a have "watch_loop (merge_round h cfg d) s1 = Some (Inr (EndedWith x), t)" by (simp add: await_the_merge_def)
  then obtain u where "merge_round h cfg d u = (Some (Inr (EndedWith x)), t)"
    using watch_loop_last [where P = "\<lambda>_. True"] by metis
  then show False
    by (auto simp: merge_round_def then_round_def arm_round_def landed_round_def pause_round_def pausing_def
        recheck_round_def failed_def Let_def
        split: prod.splits sum.splits option.splits if_splits merge_outcome.splits mergeability.splits reported.splits)
qed

lemma watched_ends: "watched h lc cfg s \<noteq> Some (Inr (EndedWith (MergedOutcome sha)), t)"
  using await_ends [of h cfg s "MergedOutcome sha" t]
  by (auto simp: watched_def split: prod.splits sum.splits merge_outcome.splits)

text \<open>A merge that is reported is the host's, and it was verified or left to the host's own judgement.\<close>

definition merge_is_sound :: "('w, 'e) remote_host \<Rightarrow> ('w, 'e) landing_ops \<Rightarrow> watch \<Rightarrow> str \<Rightarrow> bool" where
  "merge_is_sound h ops cfg sha \<longleftrightarrow>
     host_merged h sha \<and> (verified h ops cfg \<or> (\<exists>w. fst (allows_auto_merge_of h w) = Inr True))"

lemma on_elapse_merged:
  assumes "on_elapse h ops lc cfg s = (Inr (TurnEnded (MergedOutcome sha)), t)"
  shows "merge_is_sound h ops cfg sha"
proof -
  obtain ended u where e: "arm_on_elapse h cfg (queues_on_elapse lc) s = (Inr ended, u)"
    "turn_ended ops ended (TurnMoved MovedChecks) u = (Inr (TurnEnded (MergedOutcome sha)), t)"
    using assms by (auto simp: on_elapse_def then_at_Ok)
  have "ended \<noteq> EndedWith (MergedOutcome sha)" using e(1) arm_on_elapse_ends by fast
  with turn_ended_merged [OF e(2)] have "ended = LandedAt sha" by simp
  with arm_on_elapse_landed e(1) show ?thesis unfolding merge_is_sound_def by blast
qed

lemma merge_under_turn_merged:
  assumes "merge_under_turn h ops lc cfg s = Some (Inr (TurnEnded (MergedOutcome sha)), t)"
  shows "merge_is_sound h ops cfg sha"
proof -
  obtain a u where a: "reverify h ops cfg s = (a, u)" by fastforce
  with assms have none: "a = Inr None" by (auto simp: merge_under_turn_def split: sum.splits option.splits)
  then have v: "verified h ops cfg" using a reverify_None by blast
  obtain b x where b: "watched h lc cfg (emit QueuedMerge u) = Some (b, x)"
    using assms a none by (auto simp: merge_under_turn_def split: option.splits)
  show ?thesis
  proof (cases b)
    case (Inl e)
    with assms a none b have "on_elapse h ops lc cfg x = (Inr (TurnEnded (MergedOutcome sha)), t)"
      by (auto simp: merge_under_turn_def split: if_splits)
    then show ?thesis by (rule on_elapse_merged)
  next
    case (Inr ended)
    with assms a none b have t: "turn_ended ops ended TurnResettle x = (Inr (TurnEnded (MergedOutcome sha)), t)"
      by (simp add: merge_under_turn_def)
    have "ended \<noteq> EndedWith (MergedOutcome sha)" using b [unfolded Inr] watched_ends by fast
    with turn_ended_merged [OF t] have "ended = LandedAt sha" by simp
    with b Inr watched_landed v show ?thesis unfolding merge_is_sound_def by blast
  qed
qed

lemma after_turn_merged:
  assumes "after_turn ops lc cfg p = (Inr (RoundEnded (MergedOutcome sha)), t)"
  shows "\<exists>u. p = (Inr (TurnEnded (MergedOutcome sha)), u)"
proof -
  have "again ops lc cfg m u \<noteq> (Inr (RoundEnded (MergedOutcome sha)), t)" for m u
    by (auto simp: again_def then_at_Ok)
  with assms show ?thesis
    by (auto simp: after_turn_def then_at_Ok split: prod.splits sum.splits turn_end.splits)
qed

lemma landing_round_merged:
  assumes "landing_round h ops lc cfg drafted s = Some (Inr (RoundEnded (MergedOutcome sha)), t)"
  shows "merge_is_sound h ops cfg sha"
proof -
  obtain a u where a: "settle_and_lift h cfg drafted s = Some (a, u)"
    using assms by (auto simp: landing_round_def split: option.splits)
  obtain b x where b: "took_turn ops u = (b, x)" by fastforce
  show ?thesis
  proof (cases a)
    case (Inl e)
    with assms a b have "after_turn ops lc cfg (on_elapse h ops lc cfg x) = (Inr (RoundEnded (MergedOutcome sha)), t)"
      by (auto simp: landing_round_def split: if_splits sum.splits)
    from after_turn_merged [OF this] on_elapse_merged show ?thesis by blast
  next
    case (Inr y)
    with assms a b obtain p where "merge_under_turn h ops lc cfg x = Some p"
      "after_turn ops lc cfg p = (Inr (RoundEnded (MergedOutcome sha)), t)"
      by (auto simp: landing_round_def split: sum.splits)
    with after_turn_merged [OF this(2)] merge_under_turn_merged show ?thesis by blast
  qed
qed

lemma landing_rounds_merged:
  fixes h :: "('w, 'e) remote_host"
  assumes "landing_rounds h ops lc cfg drafted s = Some (Inr (MergedOutcome sha), t)"
  shows "\<exists>p. merge_is_sound h ops (cfg\<lparr>pushed := p\<rparr>) sha"
proof -
  let ?P = "\<lambda>st :: ('e landing_error + publish_outcome) option \<times> 'w rounds.
    fst st = Some (Inr (MergedOutcome sha)) \<longrightarrow> (\<exists>p. merge_is_sound h ops (cfg\<lparr>pushed := p\<rparr>) sha)"
  obtain u where w: "while_option is_running (round_step h ops lc cfg) (None, Running (pushed cfg) drafted s) =
      Some (Some (Inr (MergedOutcome sha)), Over u)"
    using assms by (auto simp: landing_rounds_def split: option.splits prod.splits rounds.splits)
  have "?P (Some (Inr (MergedOutcome sha)), Over u)"
  proof (rule while_option_rule [where P = ?P, OF _ w])
    fix st assume p: "?P st" and run: "is_running st"
    then obtain q p d v where st: "st = (q, Running p d v)"
      by (cases st; cases "snd st") auto
    show "?P (round_step h ops lc cfg st)"
    proof
      assume "fst (round_step h ops lc cfg st) = Some (Inr (MergedOutcome sha))"
      then have "\<exists>x. landing_round h ops lc (cfg\<lparr>pushed := p\<rparr>) d v = Some (Inr (RoundEnded (MergedOutcome sha)), x)"
        unfolding st by (auto split: option.splits sum.splits prod.splits round_end.splits)
      with landing_round_merged show "\<exists>p. merge_is_sound h ops (cfg\<lparr>pushed := p\<rparr>) sha" by blast
    qed
  qed simp
  then show ?thesis by simp
qed

section \<open>Rounds without end\<close>

lemma while_option_forever:
  assumes "P s" "\<And>s. P s \<Longrightarrow> c s \<and> P (f s)"
  shows "while_option c f s = None"
proof (cases "while_option c f s")
  case (Some t)
  have "P t" by (rule while_option_rule [where P = P, OF _ Some assms(1)]) (use assms(2) in blast)
  with assms(2) while_option_stop [OF Some] show ?thesis by blast
qed

section \<open>Rounds end\<close>

lemma watched_returns:
  assumes "steady h"
  shows "\<exists>p. watched h lc cfg s = Some p"
proof (cases "effective lc = ChangeAuto")
  case True
  obtain d s1 where "declared_once h cfg s = (d, s1)" by fastforce
  moreover have "\<exists>r t. watch_loop (merge_round h cfg d :: 'a watcher \<Rightarrow> ('b watch_error + publish_outcome watch_ended) option \<times> 'a watcher) s1 = Some (r, t)"
    by (rule watch_loop_returns [OF assms, where cfg = cfg]) (metis merge_round_moves)
  ultimately show ?thesis using True by (auto simp: watched_def await_the_merge_def)
next
  case False
  then show ?thesis by (auto simp: watched_def split: prod.splits sum.splits merge_outcome.splits)
qed

lemma settle_returns: "steady h \<Longrightarrow> \<exists>r t. settle h cfg drafted s = Some (r, t)"
  using settle_draft_returns settle_ready_returns by (cases drafted) (fastforce simp: settle_def)+

lemma merge_under_turn_returns:
  assumes "steady h"
  shows "\<exists>p. merge_under_turn h ops lc cfg s = Some p"
proof -
  obtain a u where a: "reverify h ops cfg s = (a, u)" by fastforce
  obtain p where "watched h lc cfg (emit QueuedMerge u) = Some p" using watched_returns [OF assms] by blast
  with a show ?thesis by (auto simp: merge_under_turn_def split: sum.splits option.splits prod.splits)
qed

lemma landing_round_returns:
  assumes "steady h"
  shows "\<exists>p. landing_round h ops lc cfg drafted s = Some p"
proof -
  obtain r t where "settle h cfg drafted s = Some (r, t)" using settle_returns [OF assms] by blast
  then obtain a u where a: "settle_and_lift h cfg drafted s = Some (a, u)"
    by (cases "then_at (r, t) (\<lambda>green s. if green then lift_draft h s else (Ok (), s))") (simp add: settle_and_lift_def)
  obtain b x where b: "took_turn ops u = (b, x)" by fastforce
  obtain p where "merge_under_turn h ops lc cfg x = Some p" using merge_under_turn_returns [OF assms] by blast
  with a b show ?thesis by (cases a; cases b) (simp_all add: landing_round_def)
qed

section \<open>A base that keeps moving\<close>

text \<open>
  A host that requires no check and requires a change to carry its base, before a base that moves
  again whenever the branch was brought up to it. The world counts the syncs of the branch, those
  that were pushed, and the clock, which every sync and every push moves.
\<close>

type_synonym moving = "nat \<times> nat \<times> nat"

definition synced_head :: "nat \<Rightarrow> str" where
  "synced_head n = replicate n (CHR ''a'')"

definition moving_host :: "(moving, unit) remote_host" where
  "moving_host =
     \<lparr>change_checks_of = (\<lambda>w. (Inr \<lparr>answer_checks = [], answer_sources = [StatusChecks]\<rparr>, w)),
      check_log_of = (\<lambda>_ w. (Inl (), w)), head_activity_of = (\<lambda>w. (Inl (), w)),
      required_on = (\<lambda>w. (Inr \<lparr>required_names = [], unconsulted = []\<rparr>, w)),
      ready_for_review = (\<lambda>w. (Inr (), w)), is_draft_of = (\<lambda>w. (Inr False, w)),
      merge_asked = (\<lambda>_ w. (Inr Queued, w)), merged_at_of = (\<lambda>w. (Inr None, w)),
      mergeability_of = (\<lambda>w. (Inr Mergeable, w)), allows_auto_merge_of = (\<lambda>w. (Inr True, w)),
      not_implemented = (\<lambda>_. False), refusal_text = (\<lambda>_. []), now_at = (\<lambda>(_, _, t). t),
      pause_for = (\<lambda>(l, p, t). (False, (l, p, Suc t)))\<rparr>"

definition moving_ops :: "(moving, unit) landing_ops" where
  "moving_ops =
     \<lparr>take_turn = (\<lambda>w. (Inr (), w)), release_turn = (\<lambda>w. w),
      origin_branch = (\<lambda>(l, p, t). (Inr (TipAt (synced_head p)), (l, p, t))),
      origin_base = (\<lambda>(l, p, t). (Inr (TipAt (CHR ''b'' # synced_head l)), (l, p, t))),
      carries = (\<lambda>_ _ w. (Inr False, w)), up_to_date_required = (\<lambda>w. (Inr True, w)),
      fetch_origin = (\<lambda>w. (Inr (), w)), fast_forward = (\<lambda>_ w. (Inr (), w)),
      sync_base = (\<lambda>(l, p, t). (Inr (), (Suc l, p, Suc t))),
      synced_tip = (\<lambda>(l, p, t). (Some (synced_head l), (l, p, t))),
      push_branch = (\<lambda>(l, p, t). (Inr (), (l, l, Suc t))), note_landed = (\<lambda>_ w. (Inr (), w))\<rparr>"

definition moving_landing :: landing where
  "moving_landing = \<lparr>effective = ChangeAuto, approvals_of = NoApprovals, lifecycle = True, held = False,
     resumed = False, queues_on_elapse = True\<rparr>"

definition moving_watcher :: "moving watcher" where
  "moving_watcher = \<lparr>world = (0, 0, 0), started = 0, last_reported = [], logs = [], settled_once = False,
     gate_recorded = False, declares = None, elapsed = False, armed = False, skipped_at_elapse = [],
     busy_since = None, emitted = []\<rparr>"

lemma steady_moving: "steady moving_host"
  by (auto simp: steady_def moving_host_def)

lemma moving_read:
  "read_host moving_host cfg s = (Ok \<lparr>reported = About [], from_rollup = True\<rparr>, s)"
  by (simp add: read_host_def moving_host_def reported_of_def complete_checks_def)

lemma moving_declared:
  "declares s = None \<or> declares s = Some Nothing \<Longrightarrow>
   declared_once moving_host cfg s = (Nothing, s\<lparr>declares := Some Nothing\<rparr>)"
  by (auto simp: declared_once_def moving_host_def declared_required_def)

lemma watch_loop_now: "f s = (Some r, t) \<Longrightarrow> watch_loop f s = Some (r, t)"
  by (simp add: watch_loop_def while_option_unfold)

lemma moving_settles:
  assumes "declares s = None"
  shows "\<exists>t. settle_and_lift moving_host cfg False s = Some (Ok (), t) \<and> world t = world s \<and>
    declares t = Some Nothing \<and> armed t = armed s"
proof -
  let ?s = "s\<lparr>declares := Some Nothing\<rparr>"
  have g: "given Nothing \<lparr>reported = About [], from_rollup = True\<rparr> = Nothing" "standings [] Nothing = []"
    "verdict_of [] Nothing = VerdictNoneRequired" "unread Nothing = None"
    by (simp_all add: given_def sharpened_def standings_def required_set_def verdict_of_def named_where_def unread_def)
  have "settle_ready_round moving_host cfg Nothing ?s = (Some (Ok ()), record_settled [] None ?s)"
    by (simp add: settle_ready_round_def moving_read g)
  from watch_loop_now [where f = "settle_ready_round moving_host cfg Nothing", OF this]
  have "settle_ready moving_host cfg s = Some (Ok (), record_settled [] None ?s)"
    using assms by (simp add: settle_ready_def moving_declared)
  then have "settle_and_lift moving_host cfg False s = Some (Ok (), record_settled [] None ?s)"
    by (simp add: settle_and_lift_def settle_def)
  moreover have "world (record_settled [] None ?s) = world s" "declares (record_settled [] None ?s) = Some Nothing"
    "armed (record_settled [] None ?s) = armed s"
    by (simp_all add: record_settled_def record_gate_def emit_def Let_def)
  ultimately show ?thesis by blast
qed

lemma moving_reverify:
  assumes "world s = (n, n, t)" "declares s = Some Nothing" "pushed cfg = synced_head n"
  shows "\<exists>u. reverify moving_host moving_ops cfg s = (Ok (Some (MovedBase (CHR ''b'' # synced_head n))), u) \<and>
    world u = (n, n, t) \<and> armed u = armed s"
proof -
  have g: "given Nothing \<lparr>reported = About [], from_rollup = True\<rparr> = Nothing" by (simp add: given_def sharpened_def)
  have "reads_through \<lparr>reported = About [], from_rollup = True\<rparr> Nothing"
    by (simp add: reads_through_def lets_through_def standings_def required_set_def)
  then show ?thesis using assms
    by (auto simp: reverify_def stopping_def moving_read moving_declared g head_moved_def ask_world_def moving_ops_def)
qed

lemma moving_resync:
  assumes "world s = (n, n, t)" "pushed cfg = synced_head n"
  shows "\<exists>u. again moving_ops moving_landing cfg (MovedBase b) s = (Ok (RoundAgain (synced_head (Suc n)) False), u) \<and>
    world u = (Suc n, Suc n, Suc (Suc t))"
proof -
  have "synced_head n \<noteq> synced_head (Suc n)" by (simp add: synced_head_def)
  then show ?thesis using assms
    by (auto simp: again_def resync_def moving_landing_def ask_world_def moving_ops_def)
qed

lemma moving_round:
  assumes "world s = (n, n, t)" "declares s = None" "pushed cfg = synced_head n"
  shows "\<exists>u. landing_round moving_host moving_ops moving_landing cfg False s =
      Some (Ok (RoundAgain (synced_head (Suc n)) False), u) \<and> world u = (Suc n, Suc n, Suc (Suc t))"
proof -
  obtain s1 where s1: "settle_and_lift moving_host cfg False s = Some (Ok (), s1)" "world s1 = (n, n, t)"
    "declares s1 = Some Nothing" using moving_settles [OF assms(2)] assms(1) by auto
  have s2: "took_turn moving_ops s1 = (Ok (), emit TookTurn s1)"
    by (simp add: took_turn_def ask_world_def moving_ops_def)
  obtain s3 where s3: "reverify moving_host moving_ops cfg (emit TookTurn s1) =
      (Ok (Some (MovedBase (CHR ''b'' # synced_head n))), s3)" "world s3 = (n, n, t)"
    using moving_reverify [of "emit TookTurn s1" n t cfg] s1 assms(3) by (auto simp: emit_def)
  have "merge_under_turn moving_host moving_ops moving_landing cfg (emit TookTurn s1) =
      Some (Ok (TurnMoved (MovedBase (CHR ''b'' # synced_head n))), s3)"
    by (simp add: merge_under_turn_def s3)
  moreover have "world (released moving_ops s3) = (n, n, t)" using s3 by (simp add: released_def moving_ops_def)
  from moving_resync [OF this assms(3)]
  obtain u where "again moving_ops moving_landing cfg (MovedBase (CHR ''b'' # synced_head n)) (released moving_ops s3) =
      (Ok (RoundAgain (synced_head (Suc n)) False), u)" "world u = (Suc n, Suc n, Suc (Suc t))" by blast
  ultimately show ?thesis using s1 s2 by (simp add: landing_round_def after_turn_def)
qed

section \<open>Properties\<close>


definition still_ops :: "(nat, unit) landing_ops" where
  "still_ops =
     \<lparr>take_turn = (\<lambda>w. (Inr (), w)), release_turn = (\<lambda>w. w), origin_branch = (\<lambda>w. (Inr (TipAt ''abc''), w)),
      origin_base = (\<lambda>w. (Inr (TipAt ''base''), w)), carries = (\<lambda>_ _ w. (Inr True, w)),
      up_to_date_required = (\<lambda>w. (Inr True, w)), fetch_origin = (\<lambda>w. (Inr (), w)),
      fast_forward = (\<lambda>_ w. (Inr (), w)), sync_base = (\<lambda>w. (Inr (), w)), synced_tip = (\<lambda>w. (Some ''abc'', w)),
      push_branch = (\<lambda>w. (Inr (), w)), note_landed = (\<lambda>_ w. (Inr (), w))\<rparr>"


text \<open>What an elapsed wait does is bounded by what was read: a change with a required check that
  concluded skipped is left exactly as it was, and where the host does not allow auto-merge, or
  will not say, nothing but that question was asked - no draft lifted, no merge asked for,
  nothing recorded; a merge the watch had armed already is not asked for again.\<close>

theorem elapsed_wait_changes_nothing_unread:
  "let (r, t) = arm_on_elapse h cfg queues s; (allowed, w) = allows_auto_merge_of h (world s)
   in if skipped_at_elapse s \<noteq> [] then r = Err (SkippedOnElapse (skipped_at_elapse s) (armed s)) \<and> t = s
      else if armed s then world t = world s
      else if allowed = Inr True then True
      else t = s\<lparr>world := w\<rparr> \<and> (r = Err AutoMergeNotAllowed \<or> (\<exists>e. r = Err (AutoMergeUnread e)))"
  by (auto simp: arm_on_elapse_def emit_def Let_def split: prod.splits sum.splits bool.splits)




end
