(* ===== verification/GitReads.thy ===== *)
theory GitReads
  imports Ids Provenance
begin

text \<open>
  What the program asks git about a history (\<open>git.rs\<close>): the arguments of each command, how its
  exit status and its output are read, and the refusals. Running git is a parameter: a function
  from the arguments to what the command wrote and how it ended, in one repository with whatever
  object store it borrows, which does not change while one question is answered. What this process
  answers without git - a name's tip, an ancestry or an object it already knows, a merge it already
  computed - is a parameter too.
\<close>

section \<open>Commands\<close>

record ran =
  exit_status :: int
  stdout :: str
  stderr :: str
  read_failures :: "str list"

datatype git_error =
    NotRun str
  | CommandFailed "str list" int str
  | Unreadable "str list" str
  | ListedShort nat nat

record git =
  runs :: "str list \<Rightarrow> git_error + ran"
  tip_of :: "str \<Rightarrow> str option"                    \<comment> \<open>\<open>native_refs::tip_with_objects\<close>\<close>
  knows_reach :: "str \<Rightarrow> str \<Rightarrow> bool option"       \<comment> \<open>remembered, or answered in process\<close>
  knows_commit :: "str \<Rightarrow> bool option"
  merged_before :: "str \<Rightarrow> str \<Rightarrow> ran option"      \<comment> \<open>\<open>recovery_cache::query\<close>\<close>

definition ran_ok :: "ran \<Rightarrow> bool" where
  "ran_ok r \<longleftrightarrow> exit_status r = 0"

definition trimmed :: "ran \<Rightarrow> str" where
  "trimmed r = trim (stdout r)"

definition diagnostic :: "ran \<Rightarrow> str" where
  "diagnostic r =
     (if trim (stderr r) \<noteq> [] then trim (stderr r)
      else if trim (stdout r) \<noteq> [] then trim (stdout r) else ''<no output>'')"

definition checked :: "git \<Rightarrow> str list \<Rightarrow> git_error + ran" where
  "checked g args =
     and_then (runs g args) (\<lambda>r.
       if ran_ok r then Ok r else Err (CommandFailed args (exit_status r) (diagnostic r)))"

text \<open>A command that answers a question by its status: 0 is one answer and 1 the other.\<close>

definition asks :: "git \<Rightarrow> str list \<Rightarrow> git_error + bool" where
  "asks g args =
     and_then (runs g args) (\<lambda>r.
       if exit_status r = 0 then Ok True else if exit_status r = 1 then Ok False
       else Err (CommandFailed args (exit_status r) (diagnostic r)))"

text \<open>A name by the commit it is at, where this process knows it.\<close>

definition at_tip :: "git \<Rightarrow> str \<Rightarrow> str" where
  "at_tip g r = (case tip_of g r of None \<Rightarrow> r | Some t \<Rightarrow> t)"

section \<open>Commits\<close>

definition NUL :: char where "NUL = CHR 0x00"
definition RS :: char where "RS = CHR 0x1E"

definition trim_matches :: "(char \<Rightarrow> bool) \<Rightarrow> str \<Rightarrow> str" where
  "trim_matches p s = rev (dropWhile p (rev (dropWhile p s)))"

definition log_args :: "str \<Rightarrow> str \<Rightarrow> str list" where
  "log_args base branch =
     [''log'', ''--reverse'', ''--format=%H%x00%B%x00%x1e'', base @ ''..'' @ branch, ''--'']"

definition log_record :: "str \<Rightarrow> commit_message option" where
  "log_record entry =
     map_option (\<lambda>(sha, msg). \<lparr>sha = sha, message = trim_end msg\<rparr>)
       (split_once NUL (trim_matches (\<lambda>c. c = CHR 0x0A \<or> c = NUL) entry))"

definition log_records :: "str \<Rightarrow> commit_message list" where
  "log_records printed = filter_map log_record (split_on RS printed)"

definition log_messages :: "git \<Rightarrow> str \<Rightarrow> str \<Rightarrow> git_error + commit_message list" where
  "log_messages g base branch =
     and_then (checked g (log_args (at_tip g base) (at_tip g branch))) (\<lambda>r. Ok (log_records (stdout r)))"

definition first_parent_line :: "git \<Rightarrow> str \<Rightarrow> str \<Rightarrow> git_error + str list" where
  "first_parent_line g base branch =
     and_then (checked g [''rev-list'', ''--first-parent'', at_tip g base @ ''..'' @ at_tip g branch, ''--''])
       (\<lambda>r. Ok (lines (stdout r)))"

definition commits_in :: "git \<Rightarrow> str \<Rightarrow> git_error + str list" where
  "commits_in g which =
     and_then (checked g [''rev-list'', ''--reverse'', which, ''--'']) (\<lambda>r.
       Ok (filter (\<lambda>l. l \<noteq> []) (lines (stdout r))))"

text \<open>\<open>split_whitespace\<close>.\<close>

function words_from :: "str \<Rightarrow> str \<Rightarrow> str list" where
  "words_from w [] = (if w = [] then [] else [w])"
| "words_from w (c # s) =
     (let n = ws_front (c # s)
      in if n = 0 then words_from (w @ [c]) s
         else (if w = [] then [] else [w]) @ words_from [] (drop n (c # s)))"
  by pat_completeness auto
termination
  by (relation "measure (\<lambda>(w, s). length s)") auto

definition commits_with_parents :: "git \<Rightarrow> str \<Rightarrow> str list \<Rightarrow> git_error + (str \<times> str list) list" where
  "commits_with_parents g tip hidden =
     and_then (checked g ([''rev-list'', ''--parents'', tip, ''--not''] @ hidden @ [''--''])) (\<lambda>r.
       Ok (filter_map (\<lambda>l. case words_from [] l of [] \<Rightarrow> None | c # ps \<Rightarrow> Some (c, ps)) (lines (stdout r))))"

text \<open>\<open>splitn(n, c)\<close>: at most \<open>n\<close> segments, the last of them the rest.\<close>

fun splitn :: "nat \<Rightarrow> char \<Rightarrow> str \<Rightarrow> str list" where
  "splitn 0 d s = []"
| "splitn (Suc 0) d s = [s]"
| "splitn (Suc (Suc n)) d s =
     (case split_once d s of None \<Rightarrow> [s] | Some (a, b) \<Rightarrow> a # splitn (Suc n) d b)"

record shape =
  shape_tree :: str
  shape_parents :: str
  shape_committed :: str
  shape_subject :: str

definition shape_of :: "git \<Rightarrow> str \<Rightarrow> git_error + shape" where
  "shape_of g reference =
     (let reference = at_tip g reference;
          args = [''log'', ''-1'', ''--format=%T%x00%P%x00%cI%x00%s'', reference, ''--'']
      in and_then (checked g args) (\<lambda>r.
           case splitn 4 NUL (trim_end_char (CHR 0x0A) (stdout r)) of
             [t, p, c, s] \<Rightarrow> Ok \<lparr>shape_tree = t, shape_parents = p, shape_committed = c, shape_subject = s\<rparr>
           | _ \<Rightarrow> Err (Unreadable args (stdout r))))"

definition tree_of :: "git \<Rightarrow> str \<Rightarrow> git_error + str" where
  "tree_of g commit =
     and_then (checked g [''rev-parse'', ''--verify'', commit @ ''^{tree}'']) (\<lambda>r. Ok (trimmed r))"

definition changes_no_content :: "git \<Rightarrow> str \<Rightarrow> git_error + bool" where
  "changes_no_content g commit =
     and_then (runs g [''rev-parse'', ''--verify'', commit @ ''^1^{commit}'']) (\<lambda>parent.
       if \<not> ran_ok parent then Ok False
       else and_then (checked g [''rev-parse'', commit @ ''^{tree}'', trimmed parent @ ''^{tree}'']) (\<lambda>trees.
         Ok (let ls = map Some (lines (stdout trees)) @ [None, None] in ls ! 0 = ls ! 1)))"

section \<open>Reach\<close>

definition has_commit :: "git \<Rightarrow> str \<Rightarrow> bool" where
  "has_commit g c =
     (case knows_commit g c of
        Some b \<Rightarrow> b
      | None \<Rightarrow> (case runs g [''cat-file'', ''-e'', c @ ''^{commit}''] of Inl _ \<Rightarrow> False | Inr r \<Rightarrow> ran_ok r))"

definition is_ancestor :: "git \<Rightarrow> str \<Rightarrow> str \<Rightarrow> git_error + bool" where
  "is_ancestor g a d =
     (case knows_reach g a d of
        Some b \<Rightarrow> Ok b
      | None \<Rightarrow> asks g [''merge-base'', ''--is-ancestor'', a, d])"

definition known_to_reach :: "git \<Rightarrow> str \<Rightarrow> str \<Rightarrow> git_error + bool" where
  "known_to_reach g a d = (if \<not> has_commit g a \<or> \<not> has_commit g d then Ok False else is_ancestor g a d)"

definition merge_base :: "git \<Rightarrow> str \<Rightarrow> str \<Rightarrow> git_error + str option" where
  "merge_base g a b =
     and_then (runs g [''merge-base'', a, b]) (\<lambda>r.
       if exit_status r = 0 then Ok (if trimmed r = [] then None else Some (trimmed r))
       else if exit_status r = 1 then Ok None
       else Err (CommandFailed [''merge-base'', a, b] (exit_status r) (diagnostic r)))"

definition refs_reach :: "git \<Rightarrow> str \<Rightarrow> bool" where
  "refs_reach g commit =
     (case runs g [''rev-list'', ''--count'', commit, ''--not'', ''--all'', ''--''] of
        Inl _ \<Rightarrow> False | Inr r \<Rightarrow> ran_ok r \<and> trimmed r = ''0'')"

section \<open>Content\<close>

definition trees_differ :: "git \<Rightarrow> str \<Rightarrow> str \<Rightarrow> git_error + bool" where
  "trees_differ g base branch =
     and_then (asks g [''diff'', ''--quiet'', base, branch, ''--'']) (\<lambda>same. Ok (\<not> same))"

definition MAX_U64 :: nat where "MAX_U64 = 2 ^ 64 - 1"

definition saturating_add :: "nat \<Rightarrow> nat \<Rightarrow> nat" where
  "saturating_add a b = min (a + b) MAX_U64"

record counted_lines =
  added :: nat
  removed :: nat

definition TAB :: char where "TAB = CHR 0x09"

text \<open>One line of \<open>--numstat\<close>: two counts and a path, or two dashes for a binary file.\<close>

definition numstat_line :: "str \<Rightarrow> (nat \<times> nat) option option" where
  "numstat_line l =
     Option.bind (split_once TAB l) (\<lambda>(a, rest). Option.bind (split_once TAB rest) (\<lambda>(r, _).
       if a = ''-'' \<and> r = ''-'' then Some None
       else Option.bind (parse_uint 64 a) (\<lambda>m. map_option (\<lambda>n. Some (m, n)) (parse_uint 64 r))))"

fun count_lines :: "str list \<Rightarrow> counted_lines \<Rightarrow> counted_lines option" where
  "count_lines [] t = Some t"
| "count_lines (l # ls) t =
     (case numstat_line l of
        None \<Rightarrow> None
      | Some None \<Rightarrow> count_lines ls t
      | Some (Some (m, n)) \<Rightarrow>
          count_lines ls \<lparr>added = saturating_add (added t) m, removed = saturating_add (removed t) n\<rparr>)"

definition line_change :: "git \<Rightarrow> str \<Rightarrow> str \<Rightarrow> git_error + counted_lines" where
  "line_change g a b =
     (let args = [''diff'', ''--numstat'', ''--no-renames'', a, b, ''--'']
      in and_then (checked g args) (\<lambda>r.
           case count_lines (filter (\<lambda>l. trim l \<noteq> []) (lines (stdout r))) \<lparr>added = 0, removed = 0\<rparr> of
             None \<Rightarrow> Err (Unreadable args (stdout r)) | Some t \<Rightarrow> Ok t))"

definition counted_files :: "git \<Rightarrow> str \<Rightarrow> str \<Rightarrow> git_error + nat" where
  "counted_files g a b =
     (let args = [''diff'', ''--shortstat'', ''--no-renames'', a, b, ''--'']
      in and_then (checked g args) (\<lambda>r.
           if trimmed r = [] then Ok 0
           else ok_or (Option.bind (split_once_str '' file'' (trimmed r)) (\<lambda>(n, _). parse_uint 64 (trim n)))
                  (Unreadable args (trimmed r))))"

definition listed_args :: "str \<Rightarrow> str \<Rightarrow> str list" where
  "listed_args a b = [''diff'', ''--name-only'', ''--no-renames'', ''-z'', a, b, ''--'']"

definition listed_paths :: "str \<Rightarrow> str list" where
  "listed_paths printed = filter (\<lambda>p. p \<noteq> []) (split_on NUL printed)"

definition literal :: "str \<Rightarrow> str" where
  "literal p = '':(literal)'' @ p"

definition known_to_carry_changes :: "git \<Rightarrow> str \<Rightarrow> str \<Rightarrow> str \<Rightarrow> git_error + bool" where
  "known_to_carry_changes g base fork commit =
     and_then (checked g (listed_args fork commit)) (\<lambda>listed.
       (let touched = map literal (listed_paths (stdout listed))
        in and_then (counted_files g fork commit) (\<lambda>n.
             if length touched \<noteq> n then and_then (trees_differ g base commit) (\<lambda>b. Ok (\<not> b))
             else if touched = [] then Ok True
             else asks g ([''diff'', ''--quiet'', commit, base, ''--''] @ touched))))"

definition changed_paths :: "git \<Rightarrow> str \<Rightarrow> str \<Rightarrow> git_error + str list" where
  "changed_paths g a b =
     and_then (checked g (listed_args a b)) (\<lambda>listed.
       (let paths = listed_paths (stdout listed)
        in if paths \<noteq> [] \<and> read_failures listed = [] then Ok paths
           else and_then (counted_files g a b) (\<lambda>n.
             if length paths \<noteq> n then Err (ListedShort (length paths) n) else Ok paths)))"

definition differing_among :: "git \<Rightarrow> str \<Rightarrow> str \<Rightarrow> str list \<Rightarrow> git_error + str list" where
  "differing_among g a b paths =
     (if paths = [] then Ok []
      else and_then (checked g (listed_args a b @ map literal paths)) (\<lambda>listed.
        Ok (sorted_list_of_set (set (listed_paths (stdout listed))))))"

section \<open>Merges that change nothing\<close>

definition merge_args :: "str \<Rightarrow> str \<Rightarrow> str list" where
  "merge_args base commit = [''merge-tree'', ''--write-tree'', base, commit]"

definition first_line :: "str \<Rightarrow> str option" where
  "first_line s = (case lines s of [] \<Rightarrow> None | l # _ \<Rightarrow> Some l)"

definition already_integrates :: "git \<Rightarrow> str \<Rightarrow> str \<Rightarrow> git_error + bool" where
  "already_integrates g base commit =
     (let base = at_tip g base; commit = at_tip g commit
      in case merged_before g base commit of
           Some r \<Rightarrow>
             (if exit_status r = 1 then Ok False
              else and_then (tree_of g base) (\<lambda>t. Ok (first_line (stdout r) = Some t)))
         | None \<Rightarrow>
             and_then (runs g (merge_args base commit)) (\<lambda>r.
               if exit_status r = 0 then and_then (tree_of g base) (\<lambda>t. Ok (first_line (stdout r) = Some t))
               else if exit_status r = 1 then Ok False
               else Err (CommandFailed (merge_args base commit) (exit_status r) (diagnostic r))))"

definition clean_merge_tree :: "git \<Rightarrow> str \<Rightarrow> str \<Rightarrow> git_error + str option" where
  "clean_merge_tree g a b =
     (let args = [''merge-tree'', ''--write-tree'', ''--no-messages'', a, b]
      in and_then (runs g args) (\<lambda>r.
           if exit_status r = 0 then Ok (first_line (stdout r))
           else if exit_status r = 1 then Ok None
           else Err (CommandFailed args (exit_status r) (diagnostic r))))"

section \<open>Content-free tails\<close>

definition CONTENT_FREE_WALK :: nat where "CONTENT_FREE_WALK = 64"

definition tail_args :: "str \<Rightarrow> str list" where
  "tail_args commit =
     [''log'', ''--first-parent'', ''-n'' @ show_nat (CONTENT_FREE_WALK + 1), ''--format=%H%x00%T'', commit, ''--'']"

text \<open>The walk along the first parents, newest first: a commit whose tree is the next one's is skipped.\<close>

fun tail_walk :: "str \<Rightarrow> (str \<times> str) list \<Rightarrow> str list \<Rightarrow> str list \<times> str option" where
  "tail_walk stop ((at_sha, t) # (p, u) # rest) skipped =
     (if at_sha = stop \<or> t \<noteq> u then (skipped, Some at_sha)
      else tail_walk stop ((p, u) # rest) (skipped @ [at_sha]))"
| "tail_walk stop [(at_sha, t)] skipped = (skipped, Some at_sha)"
| "tail_walk stop [] skipped = (skipped, None)"

definition content_free_tail :: "git \<Rightarrow> str \<Rightarrow> str \<Rightarrow> git_error + (str list \<times> str)" where
  "content_free_tail g commit stop =
     and_then (checked g (tail_args commit)) (\<lambda>r.
       (let (skipped, tip) = tail_walk stop (filter_map (split_once NUL) (lines (stdout r))) []
        in Ok (skipped, case tip of Some t \<Rightarrow> t | None \<Rightarrow> commit)))"

definition carries_content_of :: "git \<Rightarrow> str \<Rightarrow> str \<Rightarrow> git_error + bool" where
  "carries_content_of g hd' tip =
     (if \<not> has_commit g hd' \<or> \<not> has_commit g tip then Ok False
      else and_then (merge_base g hd' tip) (\<lambda>met.
           and_then (content_free_tail g tip (case met of None \<Rightarrow> [] | Some m \<Rightarrow> m)) (\<lambda>(_, content_tip).
           known_to_reach g content_tip hd')))"

section \<open>Numbers and trimming\<close>

lemma digit_char_facts: "is_digit (digit_char n)" "digit_value (digit_char n) = n mod 10"
proof -
  have "n mod 10 < 10" by simp
  then have "code (digit_char n) = 48 + n mod 10" by (simp add: code_def digit_char_def)
  then show "is_digit (digit_char n)" "digit_value (digit_char n) = n mod 10"
    using \<open>n mod 10 < 10\<close> by (simp_all add: is_digit_def digit_value_def)
qed

lemma show_nat_facts: "show_nat n \<noteq> [] \<and> list_all is_digit (show_nat n) \<and> digits_value (show_nat n) = n"
proof (induction n rule: show_nat.induct)
  case (1 n)
  then show ?case unfolding show_nat.simps [of n]
    by (auto simp: digit_char_facts digits_value_def)
qed

lemma digit_plain: "is_digit c \<Longrightarrow> plain_char c"
  by (auto simp: plain_char_def ws1_def char_classes)

lemma trim_show_nat: "trim (show_nat n) = show_nat n"
  using show_nat_facts [of n] by (intro trim_plain digit_plain) (auto simp: list_all_iff)

lemma parse_show_nat: "parse_uint w (show_nat n) = Some m \<Longrightarrow> m = n"
  using show_nat_facts [of n] parse_uint_digits [of "show_nat n" w]
  by (cases "n < 2 ^ w") (auto simp: parse_uint_def Let_def char_classes split: list.splits if_splits)

text \<open>Trimming stops at a character that is no part of white space.\<close>

lemma ws_back_stops: "plain_char c \<Longrightarrow> ws_back (a @ c # b) \<le> length a"
proof (cases a rule: ws_back.cases)
  case (1 x y z s)
  then show ?thesis by simp
next
  case (2 x y)
  assume "plain_char c"
  with 2 show ?thesis by (cases b) (auto simp: plain_char_def ws2_def)
next
  case (3 x)
  assume "plain_char c"
  with 3 show ?thesis by (cases b) (auto simp: plain_char_def ws2_def)
next
  case 4
  assume "plain_char c"
  with 4 show ?thesis by (simp add: plain_char_def ws_back_plain)
qed

lemma drop_ws_stops:
  assumes "plain_char c"
  shows "\<exists>v. drop_ws ws_back (a @ c # b) = v @ c # b"
proof (induction a rule: length_induct)
  case (1 a)
  let ?n = "ws_back (a @ c # b)"
  show ?case
  proof (cases "?n = 0")
    case True
    then show ?thesis by (subst drop_ws.simps) auto
  next
    case False
    have n: "?n \<le> length a" using ws_back_stops [OF assms] .
    with False have "length (drop ?n a) < length a" by auto
    then obtain v where "drop_ws ws_back (drop ?n a @ c # b) = v @ c # b" using 1 by blast
    with False n show ?thesis by (subst drop_ws.simps) auto
  qed
qed

lemma trim_end_stops: "plain_char c \<Longrightarrow> \<exists>v. trim_end (a @ c # b) = a @ c # v"
  using drop_ws_stops [of c "rev b" "rev a"] by (fastforce simp: trim_end_def)

lemma trim_end_drops: "ws1 (code c) \<Longrightarrow> trim_end (s @ [c]) = trim_end s"
proof -
  assume "ws1 (code c)"
  then have "ws_back (c # rev s) = 1" by (cases "c # rev s" rule: ws_back.cases) auto
  then show ?thesis by (simp add: trim_end_def) (subst drop_ws.simps, simp)
qed

lemma trim_end_newlines: "trim_end (rev (dropWhile (\<lambda>c. c = CHR 0x0A) (rev m))) = trim_end m"
proof (induction m rule: rev_induct)
  case (snoc c m)
  then show ?case by (auto simp: trim_end_drops ws1_def code_def)
qed simp

section \<open>Reading a log back\<close>

text \<open>A commit as \<open>--format=%H%x00%B%x00%x1e\<close> prints it.\<close>

definition printed_commit :: "commit_message \<Rightarrow> str" where
  "printed_commit c = sha c @ [NUL] @ message c @ [NUL, RS, CHR 0x0A]"

definition printable :: "commit_message \<Rightarrow> bool" where
  "printable c \<longleftrightarrow> sha c \<noteq> [] \<and> set (sha c @ message c) \<inter> {NUL, RS} = {} \<and> CHR 0x0A \<notin> set (sha c)"

definition trimmed_message :: "commit_message \<Rightarrow> commit_message" where
  "trimmed_message c = \<lparr>sha = sha c, message = trim_end (message c)\<rparr>"

lemma trim_matches_front: "p x \<Longrightarrow> trim_matches p (x # s) = trim_matches p s"
  by (simp add: trim_matches_def)

lemma drop_newlines:
  "NUL \<notin> set m \<Longrightarrow> dropWhile (\<lambda>x. x = CHR 0x0A \<or> x = NUL) (m @ NUL # s) =
     (if list_all (\<lambda>x. x = CHR 0x0A) m then dropWhile (\<lambda>x. x = CHR 0x0A \<or> x = NUL) s
      else dropWhile (\<lambda>x. x = CHR 0x0A) m @ NUL # s)"
  by (induction m) auto

lemma log_record_printed:
  assumes "printable c" "pre \<in> {[], [CHR 0x0A]}"
  shows "log_record (pre @ sha c @ [NUL] @ message c @ [NUL]) =
     (if list_all (\<lambda>x. x = CHR 0x0A) (message c) then None else Some (trimmed_message c))"
proof -
  let ?p = "\<lambda>x. x = CHR 0x0A \<or> x = NUL"
  obtain h t where h: "sha c = h # t" "\<not> ?p h" using assms(1) by (cases "sha c") (auto simp: printable_def)
  have ends: "dropWhile ?p (rev (sha c) @ s) = rev (sha c) @ s" for s
    using assms(1) by (cases "rev (sha c)") (auto simp: printable_def)
  have front: "dropWhile ?p (pre @ sha c @ s) = sha c @ s" for s using assms(2) h by auto
  let ?m = "rev (dropWhile (\<lambda>x. x = CHR 0x0A) (rev (message c)))"
  have nul: "NUL \<notin> set (rev (message c))" "NUL \<notin> set (sha c)" using assms(1) by (auto simp: printable_def)
  have "trim_matches ?p (pre @ sha c @ [NUL] @ message c @ [NUL]) =
      (if list_all (\<lambda>x. x = CHR 0x0A) (message c) then sha c else sha c @ NUL # ?m)"
    using ends [of "[]"] drop_newlines [OF nul(1), of "rev (sha c)"] front
    by (auto simp: trim_matches_def list_all_iff)
  with nul(2) show ?thesis
    by (simp add: log_record_def split_once_None trim_end_newlines trimmed_message_def)
qed

definition blank_message :: "commit_message \<Rightarrow> bool" where
  "blank_message c \<longleftrightarrow> list_all (\<lambda>x. x = CHR 0x0A) (message c)"

lemma log_records_printed:
  assumes "list_all printable cs" "pre \<in> {[], [CHR 0x0A]}"
  shows "log_records (pre @ concat (map printed_commit cs)) =
     map trimmed_message (filter (\<lambda>c. \<not> blank_message c) cs)"
  using assms
proof (induction cs arbitrary: pre)
  case Nil
  have "log_record pre = None" "RS \<notin> set pre"
    using Nil.prems(2) by (auto simp: log_record_def trim_matches_def RS_def)
  then show ?case by (simp add: log_records_def split_on_free_id filter_map_def)
next
  case (Cons c cs)
  let ?entry = "pre @ sha c @ [NUL] @ message c @ [NUL]"
  have "RS \<notin> set ?entry" using Cons.prems by (auto simp: printable_def RS_def NUL_def)
  then have "split_on RS (?entry @ RS # CHR 0x0A # concat (map printed_commit cs)) =
      ?entry # split_on RS (CHR 0x0A # concat (map printed_commit cs))"
    by (rule split_on_append)
  moreover have "pre @ concat (map printed_commit (c # cs)) = ?entry @ RS # CHR 0x0A # concat (map printed_commit cs)"
    by (simp add: printed_commit_def)
  ultimately have "log_records (pre @ concat (map printed_commit (c # cs))) =
      (case log_record ?entry of None \<Rightarrow> [] | Some x \<Rightarrow> [x]) @ log_records ([CHR 0x0A] @ concat (map printed_commit cs))"
    by (simp add: log_records_def filter_map_def split: option.splits)
  moreover have "log_records ([CHR 0x0A] @ concat (map printed_commit cs)) =
      map trimmed_message (filter (\<lambda>c. \<not> blank_message c) cs)"
    using Cons by (intro Cons.IH) auto
  moreover have "log_record ?entry = (if blank_message c then None else Some (trimmed_message c))"
    using log_record_printed [of c pre] Cons.prems by (simp add: blank_message_def)
  ultimately show ?case by simp
qed

section \<open>Comparing content\<close>

text \<open>What git documents of the comparisons, over the trees the names have: a listing of every path
  that differs, each ended by a NUL, or nothing this process could read as text; a count of them; and
  quiet comparisons that succeed only where nothing differs.\<close>

definition differing :: "(str \<Rightarrow> str \<rightharpoonup> 'b) \<Rightarrow> str \<Rightarrow> str \<Rightarrow> str set" where
  "differing T a b = {p. T a p \<noteq> T b p}"

definition lists_whole :: "git \<Rightarrow> (str \<Rightarrow> str \<rightharpoonup> 'b) \<Rightarrow> bool" where
  "lists_whole g T \<longleftrightarrow>
     (\<forall>a b r. runs g (listed_args a b) = Ok r \<and> exit_status r = 0 \<longrightarrow>
        stdout r = [] \<or>
        (\<exists>ps. stdout r = concat (map (\<lambda>p. p @ [NUL]) ps) \<and> set ps = differing T a b \<and>
              (\<forall>p \<in> set ps. p \<noteq> [] \<and> NUL \<notin> set p)))"

definition counts_whole :: "git \<Rightarrow> (str \<Rightarrow> str \<rightharpoonup> 'b) \<Rightarrow> bool" where
  "counts_whole g T \<longleftrightarrow>
     (\<forall>a b r. runs g [''diff'', ''--shortstat'', ''--no-renames'', a, b, ''--''] = Ok r \<and> exit_status r = 0 \<longrightarrow>
        finite (differing T a b) \<and>
        (if differing T a b = {} then stdout r = []
         else \<exists>rest. stdout r = '' '' @ show_nat (card (differing T a b)) @ '' file'' @ rest))"

definition compares_whole :: "git \<Rightarrow> (str \<Rightarrow> str \<rightharpoonup> 'b) \<Rightarrow> bool" where
  "compares_whole g T \<longleftrightarrow>
     (\<forall>a b r. runs g [''diff'', ''--quiet'', a, b, ''--''] = Ok r \<and> exit_status r = 0 \<longrightarrow> T a = T b) \<and>
     (\<forall>a b ps r. runs g ([''diff'', ''--quiet'', a, b, ''--''] @ map literal ps) = Ok r \<and> exit_status r = 0 \<and>
        ps \<noteq> [] \<longrightarrow> (\<forall>p \<in> set ps. T a p = T b p))"

lemma listed_paths_printed:
  "\<forall>p \<in> set ps. p \<noteq> [] \<and> NUL \<notin> set p \<Longrightarrow> listed_paths (concat (map (\<lambda>p. p @ [NUL]) ps)) = ps"
  by (induction ps) (auto simp: listed_paths_def split_on_append)

lemma asks_True: "asks g args = Inr True \<longleftrightarrow> (\<exists>r. runs g args = Inr r \<and> exit_status r = 0)"
  by (cases "runs g args") (auto simp: asks_def)

lemma checked_Ok: "checked g args = Inr r \<longleftrightarrow> runs g args = Inr r \<and> exit_status r = 0"
  by (cases "runs g args") (auto simp: checked_def ran_ok_def)

lemma find_file_count:
  assumes "set s \<inter> set '' '' = {}"
  shows "split_once_str '' file'' (s @ '' file'' @ v) = Some (s, v)"
proof -
  have "find_sub '' file'' (s @ '' file'' @ v) = Some (length s)"
    using assms by (induction s) (auto simp: starts_with_def)
  then show ?thesis by (simp add: split_once_str_def)
qed

lemma counted_files_whole:
  assumes "counts_whole g T" "counted_files g a b = Inr n"
  shows "finite (differing T a b) \<and> n = card (differing T a b)"
proof -
  obtain r where r: "runs g [''diff'', ''--shortstat'', ''--no-renames'', a, b, ''--''] = Ok r" "exit_status r = 0"
    using assms(2) by (auto simp: counted_files_def Let_def ok_cases checked_Ok)
  have fin: "finite (differing T a b)" using assms(1) r unfolding counts_whole_def by blast
  show ?thesis
  proof (cases "differing T a b = {}")
    case True
    with assms(1) r have "stdout r = []" unfolding counts_whole_def by presburger
    then have "trimmed r = []" by (simp add: trimmed_def trim_def trim_start_def trim_end_def drop_ws.simps)
    with assms(2) r True fin show ?thesis by (auto simp: counted_files_def checked_def ran_ok_def)
  next
    case False
    let ?n = "show_nat (card (differing T a b))"
    obtain rest where rest: "stdout r = '' '' @ ?n @ '' file'' @ rest"
      using assms(1) r False unfolding counts_whole_def by presburger
    have digits: "?n \<noteq> []" "list_all is_digit ?n" using show_nat_facts by blast+
    then have "trim_start (stdout r) = ?n @ '' file'' @ rest"
      using trim_start_plain [of "hd ?n" "tl ?n @ '' file'' @ rest"] digit_plain [of "hd ?n"]
      by (cases ?n) (auto simp: rest)
    moreover obtain v where "trim_end ((?n @ '' fil'') @ CHR ''e'' # rest) = (?n @ '' fil'') @ CHR ''e'' # v"
      using trim_end_stops [of "CHR ''e''" "?n @ '' fil''" rest] by (auto simp: plain_char_def ws1_def code_def)
    ultimately have t: "trimmed r = ?n @ '' file'' @ v" by (simp add: trimmed_def trim_def)
    have "set ?n \<inter> set '' '' = {}" using digits(2) by (auto simp: list_all_iff char_classes)
    from find_file_count [OF this, of v] have "parse_uint 64 (trim ?n) = Some n"
      using assms(2) r t digits(1) by (auto simp: counted_files_def checked_def ran_ok_def ok_cases)
    with fin show ?thesis using parse_show_nat by (simp add: trim_show_nat)
  qed
qed

lemma known_to_carry_sound:
  assumes "lists_whole g T" "counts_whole g T" "compares_whole g T"
    "known_to_carry_changes g base fork commit = Inr True" "T fork p \<noteq> T commit p"
  shows "T base p = T commit p"
proof -
  obtain r n where r: "runs g (listed_args fork commit) = Ok r" "exit_status r = 0"
    and n: "counted_files g fork commit = Inr n"
    using assms(4) by (auto simp: known_to_carry_changes_def Let_def ok_cases checked_Ok)
  let ?touched = "listed_paths (stdout r)"
  have step: "(if length ?touched \<noteq> n then and_then (trees_differ g base commit) (\<lambda>b. Ok (\<not> b))
      else if ?touched = [] then Ok True
      else asks g ([''diff'', ''--quiet'', commit, base, ''--''] @ map literal ?touched)) = Inr True"
    using assms(4) r n by (simp add: known_to_carry_changes_def checked_def ran_ok_def Let_def cong: if_cong)
  have counted: "finite (differing T fork commit)" "n = card (differing T fork commit)"
    using counted_files_whole [OF assms(2) n] by auto
  have p: "p \<in> differing T fork commit" using assms(5) by (simp add: differing_def)
  with counted have pos: "n \<noteq> 0" by auto
  show ?thesis
  proof (cases "length ?touched = n")
    case False
    with step obtain b where "asks g [''diff'', ''--quiet'', base, commit, ''--''] = Inr True"
      by (auto simp: trees_differ_def ok_cases)
    then show ?thesis using assms(3) unfolding compares_whole_def asks_True by metis
  next
    case True
    with pos have touched: "?touched \<noteq> []" by auto
    then have "stdout r \<noteq> []" by (auto simp: listed_paths_def)
    then obtain ps where ps: "stdout r = concat (map (\<lambda>p. p @ [NUL]) ps)" "set ps = differing T fork commit"
      "\<forall>p \<in> set ps. p \<noteq> [] \<and> NUL \<notin> set p"
      using assms(1) r unfolding lists_whole_def by blast
    then have "?touched = ps" using listed_paths_printed by simp
    with p ps(2) have "p \<in> set ?touched" by simp
    moreover have "asks g ([''diff'', ''--quiet'', commit, base, ''--''] @ map literal ?touched) = Inr True"
      using step True touched by simp
    ultimately have "T commit p = T base p"
      using assms(3) touched unfolding compares_whole_def asks_True by blast
    then show ?thesis by simp
  qed
qed

section \<open>Walking back over commits that change nothing\<close>

lemma tail_walk_skips:
  "tail_walk stop chain skipped = (skipped', Some t) \<Longrightarrow>
   \<exists>ss u rest. skipped' = skipped @ ss \<and> chain = map (\<lambda>s. (s, u)) ss @ (t, u) # rest \<and> stop \<notin> set ss"
proof (induction stop chain skipped arbitrary: skipped' rule: tail_walk.induct)
  case (1 stop at_sha t' p u rest skipped)
  show ?case
  proof (cases "at_sha = stop \<or> t' \<noteq> u")
    case True
    with 1 show ?thesis by auto
  next
    case False
    then obtain ss v rest' where ss: "skipped' = skipped @ [at_sha] @ ss"
      "(p, u) # rest = map (\<lambda>s. (s, v)) ss @ (t, v) # rest'" "stop \<notin> set ss"
      using 1 by auto
    then have "v = u" by (cases ss) auto
    with ss False show ?thesis
      by (intro exI [of _ "at_sha # ss"] exI [of _ u]) auto
  qed
qed auto

section \<open>A repository to ask\<close>

text \<open>Three trees over two paths: a fork, a commit that changed one of them, and a base that took the
  change beside another.\<close>

definition tiny_tree :: "str \<Rightarrow> str \<rightharpoonup> nat" where
  "tiny_tree r =
     (if r = ''fork'' then [''a'' \<mapsto> 1] else if r = ''commit'' then [''a'' \<mapsto> 2]
      else if r = ''base'' then [''a'' \<mapsto> 2, ''b'' \<mapsto> 3] else Map.empty)"

definition tiny_differing :: "str \<Rightarrow> str \<Rightarrow> str list" where
  "tiny_differing a b = filter (\<lambda>p. tiny_tree a p \<noteq> tiny_tree b p) [''a'', ''b'']"

definition answered :: "int \<Rightarrow> str \<Rightarrow> git_error + ran" where
  "answered n printed = Ok \<lparr>exit_status = n, stdout = printed, stderr = [], read_failures = []\<rparr>"

definition tiny_git :: git where
  "tiny_git =
     \<lparr>runs = (\<lambda>args.
        if length args = 7 \<and> args = listed_args (args ! 4) (args ! 5)
        then answered 0 (concat (map (\<lambda>p. p @ [NUL]) (tiny_differing (args ! 4) (args ! 5))))
        else if length args = 6 \<and> args = [''diff'', ''--shortstat'', ''--no-renames'', args ! 3, args ! 4, ''--'']
        then (let n = length (tiny_differing (args ! 3) (args ! 4))
              in answered 0 (if n = 0 then [] else '' '' @ show_nat n @ '' files changed''))
        else if take 2 args = [''diff'', ''--quiet'']
        then answered (if list_all (\<lambda>p. drop 5 args \<noteq> [] \<and> literal p \<notin> set (drop 5 args))
                            (tiny_differing (args ! 2) (args ! 3)) then 0 else 1) []
        else Err (NotRun [])),
      tip_of = (\<lambda>_. None), knows_reach = (\<lambda>_ _. None), knows_commit = (\<lambda>_. None),
      merged_before = (\<lambda>_ _. None)\<rparr>"

lemma tiny_differing: "set (tiny_differing a b) = differing tiny_tree a b" "distinct (tiny_differing a b)"
  by (auto simp: tiny_differing_def differing_def tiny_tree_def split: if_splits)

lemma tiny_listed:
  "runs tiny_git (listed_args a b) = answered 0 (concat (map (\<lambda>p. p @ [NUL]) (tiny_differing a b)))"
  by (simp add: tiny_git_def listed_args_def)

lemma tiny_quiet:
  "runs tiny_git ([''diff'', ''--quiet'', a, b, ''--''] @ ps) =
     answered (if list_all (\<lambda>p. ps \<noteq> [] \<and> literal p \<notin> set ps) (tiny_differing a b) then 0 else 1) []"
  by (auto simp: tiny_git_def listed_args_def)

lemma tiny_counted:
  "runs tiny_git [''diff'', ''--shortstat'', ''--no-renames'', a, b, ''--''] =
     (let n = length (tiny_differing a b)
      in answered 0 (if n = 0 then [] else '' '' @ show_nat n @ '' files changed''))"
  by (simp add: tiny_git_def listed_args_def)

lemma tiny_lists: "lists_whole tiny_git tiny_tree"
  unfolding lists_whole_def
proof (intro allI impI disjI2)
  fix a b r
  assume "runs tiny_git (listed_args a b) = Ok r \<and> exit_status r = 0"
  then have "stdout r = concat (map (\<lambda>p. p @ [NUL]) (tiny_differing a b))"
    unfolding tiny_listed by (auto simp: answered_def)
  moreover have "\<forall>p \<in> set (tiny_differing a b). p \<noteq> [] \<and> NUL \<notin> set p"
    by (auto simp: tiny_differing_def NUL_def split: if_splits)
  ultimately show "\<exists>ps. stdout r = concat (map (\<lambda>p. p @ [NUL]) ps) \<and> set ps = differing tiny_tree a b \<and>
      (\<forall>p \<in> set ps. p \<noteq> [] \<and> NUL \<notin> set p)"
    using tiny_differing(1) by blast
qed

lemma tiny_counts: "counts_whole tiny_git tiny_tree"
  unfolding counts_whole_def
proof (intro allI impI)
  fix a b r
  assume "runs tiny_git [''diff'', ''--shortstat'', ''--no-renames'', a, b, ''--''] = Ok r \<and> exit_status r = 0"
  then have out: "stdout r = (let n = length (tiny_differing a b) in if n = 0 then [] else '' '' @ show_nat n @ '' files changed'')"
    unfolding tiny_counted by (auto simp: answered_def Let_def)
  have card: "card (differing tiny_tree a b) = length (tiny_differing a b)" "finite (differing tiny_tree a b)"
    using tiny_differing [of a b] distinct_card by (metis, metis finite_set)
  have "differing tiny_tree a b = {} \<longleftrightarrow> tiny_differing a b = []" using tiny_differing(1) [of a b] by fastforce
  with out card show "finite (differing tiny_tree a b) \<and>
      (if differing tiny_tree a b = {} then stdout r = []
       else \<exists>rest. stdout r = '' '' @ show_nat (card (differing tiny_tree a b)) @ '' file'' @ rest)"
    by (auto simp: Let_def)
qed

lemma tiny_compares: "compares_whole tiny_git tiny_tree"
proof -
  have same: "tiny_tree a = tiny_tree b" if "tiny_differing a b = []" for a b
    using that tiny_differing(1) [of a b] by (auto simp: differing_def)
  have "tiny_tree a p = tiny_tree b p" if "list_all (\<lambda>p. literal p \<notin> set (map literal ps)) (tiny_differing a b)" "p \<in> set ps"
    for a b p ps
    using that tiny_differing(1) [of a b] by (auto simp: list_all_iff differing_def)
  with same show ?thesis
    unfolding compares_whole_def using tiny_quiet [of _ _ "[]"] tiny_quiet [of _ _ "map literal _"]
    by (auto simp: answered_def list_all_iff split: if_splits)
qed

section \<open>Properties\<close>


definition printing_git :: "str \<Rightarrow> git" where
  "printing_git printed =
     \<lparr>runs = (\<lambda>_. answered 0 printed), tip_of = (\<lambda>_. None), knows_reach = (\<lambda>_ _. None),
      knows_commit = (\<lambda>_. None), merged_before = (\<lambda>_ _. None)\<rparr>"


text \<open>C12 A base that is known to carry a commit's changes carries them: where git lists, counts and
  compares as it documents, every path the commit changed since the fork reads on the base
  exactly as on the commit, also when the listing of those paths was not text and nothing of it
  was read.\<close>

theorem carried_changes_are_on_the_base:
  assumes "lists_whole g T" "counts_whole g T" "compares_whole g T"
    "known_to_carry_changes g base fork commit = Ok True"
  shows "\<forall>p. T fork p \<noteq> T commit p \<longrightarrow> T base p = T commit p"
  using known_to_carry_sound [OF assms] by blast

theorem carried_changes_are_on_the_base_witness:
  "known_to_carry_changes tiny_git ''base'' ''fork'' ''commit'' = Ok True \<and>
   tiny_tree ''base'' ''a'' = tiny_tree ''commit'' ''a'' \<and> tiny_tree ''base'' \<noteq> tiny_tree ''commit''"
proof -
  have d: "tiny_differing ''fork'' ''commit'' = [''a'']" "tiny_differing ''commit'' ''base'' = [''b'']"
    by (simp_all add: tiny_differing_def tiny_tree_def)
  have "trim '' 1 files changed'' = ''1 files changed''" "trim ''1'' = ''1''"
    "split_once_str '' file'' ''1 files changed'' = Some (''1'', ''s changed'')"
    by code_simp+
  moreover have "show_nat 1 = ''1''" by (subst show_nat.simps) (simp add: digit_char_def, code_simp)
  moreover have "parse_uint 64 ''1'' = Some 1"
    by (simp add: parse_uint_def digits_value_def digit_value_def char_classes)
  ultimately have n: "counted_files tiny_git ''fork'' ''commit'' = Ok 1"
    by (simp add: counted_files_def checked_def ran_ok_def tiny_counted d answered_def trimmed_def ok_or_def)
  have l: "listed_paths (''a'' @ [NUL]) = [''a'']" by (simp add: listed_paths_def NUL_def)
  have "asks tiny_git ([''diff'', ''--quiet'', ''commit'', ''base'', ''--''] @ [literal ''a'']) = Ok True"
    unfolding asks_True tiny_quiet by (simp add: d answered_def literal_def)
  then have k: "known_to_carry_changes tiny_git ''base'' ''fork'' ''commit'' = Ok True"
    using n l by (simp add: known_to_carry_changes_def checked_def ran_ok_def tiny_listed d answered_def)
  have "tiny_tree ''fork'' ''a'' \<noteq> tiny_tree ''commit'' ''a''" by (simp add: tiny_tree_def)
  then have "tiny_tree ''base'' ''a'' = tiny_tree ''commit'' ''a''"
    using carried_changes_are_on_the_base [OF tiny_lists tiny_counts tiny_compares k] by blast
  moreover have "tiny_tree ''base'' ''b'' \<noteq> tiny_tree ''commit'' ''b''" by (simp add: tiny_tree_def)
  ultimately show ?thesis using k by metis
qed

text \<open>The walk back over commits that change nothing keeps the content: every commit it skips, in an
  unbroken run from the tip, has the very tree of the commit it stops at, and the commit it was
  told to stop at is not among those it skips.\<close>

theorem content_free_tail_keeps_the_content:
  assumes "content_free_tail g commit stop = Ok (skipped, tip)" "checked g (tail_args commit) = Ok r"
    "filter_map (split_once NUL) (lines (stdout r)) \<noteq> []"
  shows "\<exists>content rest. filter_map (split_once NUL) (lines (stdout r)) =
      map (\<lambda>s. (s, content)) skipped @ (tip, content) # rest \<and> stop \<notin> set skipped"
proof -
  let ?chain = "filter_map (split_once NUL) (lines (stdout r))"
  have "tail_walk st c sk \<noteq> (sk', None)" if "c \<noteq> []" for st c sk sk'
    using that by (induction st c sk rule: tail_walk.induct) auto
  with assms obtain t where "tail_walk stop ?chain [] = (skipped, Some t)" "tip = t"
    by (auto simp: content_free_tail_def split: prod.splits option.splits)
  with tail_walk_skips [of stop ?chain "[]" skipped t] show ?thesis by auto
qed

theorem content_free_tail_keeps_the_content_witness:
  "content_free_tail (printing_git (''c3'' @ [NUL] @ ''t1'' @ [CHR 0x0A] @ ''c2'' @ [NUL] @ ''t1'' @ [CHR 0x0A] @
       ''c1'' @ [NUL] @ ''t0'' @ [CHR 0x0A])) ''c3'' ''c0'' = Ok ([''c3''], ''c2'') \<and> ''c0'' \<notin> set [''c3'']"
proof -
  let ?out = "''c3'' @ [NUL] @ ''t1'' @ [CHR 0x0A] @ ''c2'' @ [NUL] @ ''t1'' @ [CHR 0x0A] @ ''c1'' @ [NUL] @ ''t0'' @ [CHR 0x0A]"
  let ?r = "\<lparr>exit_status = 0, stdout = ?out, stderr = [], read_failures = []\<rparr> :: ran"
  have walk: "content_free_tail (printing_git ?out) ''c3'' ''c0'' = Ok ([''c3''], ''c2'')" by code_simp
  have run: "checked (printing_git ?out) (tail_args ''c3'') = Ok ?r"
    by (simp add: checked_def printing_git_def answered_def ran_ok_def)
  have "filter_map (split_once NUL) (lines (stdout ?r)) \<noteq> []" by code_simp
  from content_free_tail_keeps_the_content [OF walk run this] walk show ?thesis by blast
qed

end
