(* ===== verification/Landed.thy ===== *)
theory Landed
  imports GitReads
begin

text \<open>
  Whether a branch's work reached the base, decided from history (\<open>landed.rs\<close>): the recorded
  landing, the change request's number in the base's history, the landing trailer, and the content
  comparison that never says yes. The repository asked is a \<open>git\<close>; the parser of URLs
  (\<open>url::Url\<close>) is a parameter that answers a URL's host and path segments.
\<close>

section \<open>Answers\<close>

datatype retirement_proof =
    MergedChangeRequest str str
  | LandingRecorded str
  | ContentIdentical str

datatype landing_evidence =
    RecordedLanding str
  | ChangeRequestLanding str str
  | TrailerLanding str
  | RetiredLanding str retirement_proof

fun evidence_commit :: "landing_evidence \<Rightarrow> str" where
  "evidence_commit (RecordedLanding c) = c"
| "evidence_commit (ChangeRequestLanding c _) = c"
| "evidence_commit (TrailerLanding c) = c"
| "evidence_commit (RetiredLanding c _) = c"

fun evidence_tier :: "landing_evidence \<Rightarrow> str" where
  "evidence_tier (RecordedLanding _) = ''a recorded landing''"
| "evidence_tier (ChangeRequestLanding _ _) = ''the change request'' @ [CHR 0x27] @ ''s number in the base''"
| "evidence_tier (TrailerLanding _) = ''a landing trailer on the base''"
| "evidence_tier (RetiredLanding _ _) = ''the branch'' @ [CHR 0x27] @ ''s recorded retirement''"

datatype landed_state =
    LandedYes landing_evidence
  | LandedInPart landing_evidence nat
  | LandedNo
  | LandedUnknown

definition is_landed :: "landed_state \<Rightarrow> bool" where
  "is_landed l = (case l of LandedYes _ \<Rightarrow> True | _ \<Rightarrow> False)"

definition landed_tier :: "landed_state \<Rightarrow> str" where
  "landed_tier l =
     (case l of LandedYes e \<Rightarrow> evidence_tier e | LandedInPart e _ \<Rightarrow> evidence_tier e
      | _ \<Rightarrow> ''content comparison'')"

record recorded_landing =
  landing_commit :: str
  landing_head :: "str option"
  landing_change :: "str option"

record recorded_work =
  recorded_at :: "recorded_landing option"
  recorded_change :: "str option"

section \<open>The change request a commit names\<close>

type_synonym url_reader = "str \<Rightarrow> (str option \<times> str list option) option"

definition ascii_number :: "str \<Rightarrow> bool" where
  "ascii_number n \<longleftrightarrow> n \<noteq> [] \<and> list_all is_digit n"

definition repository_segments :: "str list \<Rightarrow> str list option" where
  "repository_segments ss =
     (if length ss = 4 \<and> ss ! 2 = ''pull'' \<and> ascii_number (ss ! 3) then Some (take 2 ss)
      else if length ss \<ge> 5 \<and> ss ! (length ss - 3) = ''-'' \<and> ss ! (length ss - 2) = ''merge_requests'' \<and>
              ascii_number (last ss)
      then Some (take (length ss - 3) ss) else None)"

definition change_repository :: "url_reader \<Rightarrow> str \<Rightarrow> str option" where
  "change_repository u v =
     Option.bind (u v) (\<lambda>(host, segments). Option.bind host (\<lambda>host. Option.bind segments (\<lambda>ss.
       map_option (\<lambda>repository. host @ ''/'' @ join_with ''/'' repository)
         (repository_segments (filter (\<lambda>s. s \<noteq> []) ss)))))"

text \<open>\<open>split\<close> at white space and at the characters that quote or bracket a URL.\<close>

function url_words :: "str \<Rightarrow> str \<Rightarrow> str list" where
  "url_words w [] = [w]"
| "url_words w (c # s) =
     (let n = ws_front (c # s)
      in if n > 0 then w # url_words [] (drop n (c # s))
         else if c \<in> set (''()[]<>'' @ [CHR 0x22, CHR 0x27]) then w # url_words [] s
         else url_words (w @ [c]) s)"
  by pat_completeness auto
termination
  by (relation "measure (\<lambda>(w, s). length s)") auto

definition trim_end_any :: "str \<Rightarrow> str \<Rightarrow> str" where
  "trim_end_any cs s = rev (dropWhile (\<lambda>c. c \<in> set cs) (rev s))"

definition names_another :: "url_reader \<Rightarrow> str \<Rightarrow> str \<Rightarrow> bool" where
  "names_another u repository subject \<longleftrightarrow>
     list_ex (\<lambda>named. to_ascii_lowercase named \<noteq> to_ascii_lowercase repository)
       (filter_map (\<lambda>w. change_repository u (trim_end_any '',.;'' w)) (url_words [] subject))"

definition subject_line :: "commit_message \<Rightarrow> str" where
  "subject_line c = trim_end (case lines (message c) of [] \<Rightarrow> [] | l # _ \<Rightarrow> l)"

definition names_the_change :: "url_reader \<Rightarrow> commit_message list \<Rightarrow> str \<Rightarrow> str \<Rightarrow> str option" where
  "names_the_change u history url branch =
     Option.bind (change_repository u url) (\<lambda>repository.
     Option.bind (u url) (\<lambda>(_, segments). Option.bind segments (\<lambda>ss.
       (case filter (\<lambda>s. s \<noteq> []) ss of
          [owner, _, pull, number] \<Rightarrow>
            (if pull = ''pull'' \<and> list_all is_digit number
             then (let squash = ''(#'' @ number @ '')'';
                       merge = ''Merge pull request #'' @ number @ '' from '' @ owner @ ''/'' @ branch
                   in map_option sha (List.find (\<lambda>c.
                        \<not> names_another u repository (subject_line c) \<and>
                        (ends_with squash (subject_line c) \<or> subject_line c = merge)) history))
             else None)
        | _ \<Rightarrow> None))))"

definition trailer_values :: "str \<Rightarrow> str \<Rightarrow> str list" where
  "trailer_values msg key =
     filter_map (\<lambda>v. object_id (trim v)) (filter_map (\<lambda>l. strip_prefix key (trim l)) (lines msg))"

section \<open>The decision\<close>

text \<open>\<open>get_or_insert\<close>: the first landing the guard declined is kept.\<close>

definition keep_first :: "'a option \<Rightarrow> 'a \<Rightarrow> 'a option" where
  "keep_first p x = (case p of None \<Rightarrow> Some x | Some y \<Rightarrow> Some y)"

text \<open>A tier that found a landing: it says yes, or keeps what it found.\<close>

definition found_landing ::
    "git \<Rightarrow> str \<Rightarrow> landing_evidence \<Rightarrow> str \<Rightarrow> (landing_evidence \<times> str) option \<Rightarrow>
     git_error + (landed_state + (landing_evidence \<times> str) option)" where
  "found_landing g branch evidence commit partial =
     and_then (already_integrates g commit branch) (\<lambda>all.
       Ok (if all then Inl (LandedYes evidence) else Inr (keep_first partial (evidence, commit))))"

definition recorded_tier ::
    "git \<Rightarrow> str \<Rightarrow> str \<Rightarrow> recorded_work \<Rightarrow> git_error + (landed_state + (landing_evidence \<times> str) option)" where
  "recorded_tier g compared branch recorded =
     (case map_option landing_commit (recorded_at recorded) of
        None \<Rightarrow> Ok (Inr None)
      | Some commit \<Rightarrow>
          and_then (known_to_reach g commit compared) (\<lambda>reached.
            if reached then found_landing g branch (RecordedLanding commit) commit None else Ok (Inr None)))"

definition change_tier ::
    "git \<Rightarrow> url_reader \<Rightarrow> commit_message list \<Rightarrow> str \<Rightarrow> recorded_work \<Rightarrow> (landing_evidence \<times> str) option \<Rightarrow>
     git_error + (landed_state + (landing_evidence \<times> str) option)" where
  "change_tier g u base_history branch recorded partial =
     (case recorded_change recorded of
        None \<Rightarrow> Ok (Inr partial)
      | Some url \<Rightarrow>
          (case names_the_change u base_history url branch of
             None \<Rightarrow> Ok (Inr partial)
           | Some commit \<Rightarrow> found_landing g branch (ChangeRequestLanding commit url) commit partial))"

text \<open>The commits of the base's history that carry a landing trailer, each with what it names.\<close>

definition trailer_candidates :: "commit_message list \<Rightarrow> trailers \<Rightarrow> (str \<times> str) list" where
  "trailer_candidates base_history t =
     concat (map (\<lambda>c. map (Pair (sha c)) (trailer_values (message c) (landed t))) base_history)"

fun trailer_tier ::
    "git \<Rightarrow> str \<Rightarrow> (str \<times> str) list \<Rightarrow> (landing_evidence \<times> str) option \<Rightarrow>
     git_error + (landed_state + (landing_evidence \<times> str) option)" where
  "trailer_tier g branch [] partial = Ok (Inr partial)"
| "trailer_tier g branch ((commit, carried) # rest) partial =
     and_then (known_to_reach g carried branch) (\<lambda>reached.
       if \<not> reached then trailer_tier g branch rest partial
       else and_then (found_landing g branch (TrailerLanding commit) commit partial) (\<lambda>found.
         case found of Inl l \<Rightarrow> Ok (Inl l) | Inr p \<Rightarrow> trailer_tier g branch rest p))"

fun unlanded_from :: "git \<Rightarrow> str \<Rightarrow> commit_message list \<Rightarrow> nat \<Rightarrow> git_error + nat" where
  "unlanded_from g landing [] n = Ok n"
| "unlanded_from g landing (c # cs) n =
     and_then (already_integrates g landing (sha c)) (\<lambda>integrated.
       if integrated then Ok n else unlanded_from g landing cs (saturating_add n 1))"

definition unlanded_above :: "git \<Rightarrow> str \<Rightarrow> str \<Rightarrow> str \<Rightarrow> git_error + nat" where
  "unlanded_above g branch fork landing =
     and_then (log_messages g fork branch) (\<lambda>cs. unlanded_from g landing (drop 1 (rev cs)) 1)"

definition unresolved :: "git \<Rightarrow> str \<Rightarrow> str option \<Rightarrow> git_error + landed_state" where
  "unresolved g compared known =
     and_then (case known of None \<Rightarrow> Ok False
               | Some tip \<Rightarrow> and_then (known_to_reach g tip compared) (\<lambda>b. Ok (\<not> b)))
       (\<lambda>behind. Ok (if behind then LandedUnknown else LandedNo))"

definition already_took_this_change ::
    "git \<Rightarrow> str \<Rightarrow> str \<Rightarrow> commit_message list \<Rightarrow> trailers \<Rightarrow> git_error + bool" where
  "already_took_this_change g fork branch base_history t =
     and_then (log_messages g fork branch) (\<lambda>commits.
       case publication_subject commits None t of
         Inl _ \<Rightarrow> Ok False
       | Inr subject \<Rightarrow>
           Ok (list_ex (\<lambda>c. case lines (message c) of [] \<Rightarrow> False | l # _ \<Rightarrow> trim l = subject) base_history))"

definition inferred :: "git \<Rightarrow> str \<Rightarrow> str option \<Rightarrow> bool \<Rightarrow> git_error + landed_state" where
  "inferred g compared known carried = (if carried then Ok LandedUnknown else unresolved g compared known)"

text \<open>The last tier: the content comparison, once nothing recorded a landing.\<close>

definition content_tier ::
    "git \<Rightarrow> str \<Rightarrow> str option \<Rightarrow> str \<Rightarrow> str \<Rightarrow> commit_message list \<Rightarrow> trailers \<Rightarrow> git_error + landed_state" where
  "content_tier g compared known fork branch base_history t =
     and_then (known_to_carry_changes g compared fork branch) (\<lambda>carried.
       if carried then Ok LandedUnknown
       else and_then (already_took_this_change g fork branch base_history t) (\<lambda>took.
         if took then Ok LandedUnknown else unresolved g compared known))"

definition decide ::
    "git \<Rightarrow> url_reader \<Rightarrow> str \<Rightarrow> str option \<Rightarrow> str \<Rightarrow> recorded_work \<Rightarrow> trailers \<Rightarrow> git_error + landed_state" where
  "decide g u compared known branch recorded t =
     and_then (merge_base g compared branch) (\<lambda>fork.
     case fork of
       None \<Rightarrow> and_then (trees_differ g compared branch) (\<lambda>b. inferred g compared known (\<not> b))
     | Some fork \<Rightarrow>
         and_then (recorded_tier g compared branch recorded) (\<lambda>first.
         case first of Inl l \<Rightarrow> Ok l
         | Inr partial \<Rightarrow>
             and_then (log_messages g fork compared) (\<lambda>base_history.
             and_then (change_tier g u base_history branch recorded partial) (\<lambda>second.
             case second of Inl l \<Rightarrow> Ok l
             | Inr partial \<Rightarrow>
                 and_then (trailer_tier g branch (trailer_candidates base_history t) partial) (\<lambda>third.
                 case third of Inl l \<Rightarrow> Ok l
                 | Inr (Some (evidence, landing)) \<Rightarrow>
                     and_then (unlanded_above g branch fork landing) (\<lambda>n. Ok (LandedInPart evidence n))
                 | Inr None \<Rightarrow> content_tier g compared known fork branch base_history t)))))"

section \<open>What each tier shows\<close>

text \<open>What supports an evidence: the record, the commit of the base's history that names the change
  request in the host's own words, or the trailer on it that names a commit of this branch.\<close>

definition supported ::
    "git \<Rightarrow> url_reader \<Rightarrow> str \<Rightarrow> str \<Rightarrow> recorded_work \<Rightarrow> trailers \<Rightarrow> landing_evidence \<Rightarrow> bool" where
  "supported g u compared branch recorded t e \<longleftrightarrow>
     (case e of
        RecordedLanding c \<Rightarrow>
          (\<exists>l. recorded_at recorded = Some l \<and> landing_commit l = c) \<and> known_to_reach g c compared = Ok True
      | ChangeRequestLanding c url \<Rightarrow>
          recorded_change recorded = Some url \<and>
          (\<exists>fork history. merge_base g compared branch = Ok (Some fork) \<and>
             log_messages g fork compared = Ok history \<and> names_the_change u history url branch = Some c)
      | TrailerLanding c \<Rightarrow>
          (\<exists>fork history m v. merge_base g compared branch = Ok (Some fork) \<and>
             log_messages g fork compared = Ok history \<and> m \<in> set history \<and> sha m = c \<and>
             v \<in> set (trailer_values (message m) (landed t)) \<and> known_to_reach g v branch = Ok True)
      | RetiredLanding _ _ \<Rightarrow> False)"

definition accounted :: "git \<Rightarrow> (landing_evidence \<Rightarrow> bool) \<Rightarrow> str \<Rightarrow> landed_state + (landing_evidence \<times> str) option \<Rightarrow> bool" where
  "accounted g S branch r \<longleftrightarrow>
     (case r of
        Inl l \<Rightarrow> (\<exists>e. l = LandedYes e \<and> S e \<and> already_integrates g (evidence_commit e) branch = Ok True)
      | Inr None \<Rightarrow> True
      | Inr (Some (e, c)) \<Rightarrow> S e \<and> c = evidence_commit e \<and> already_integrates g c branch = Ok False)"

lemma found_landing_accounted:
  assumes "found_landing g branch e c p = Ok r" "S e" "evidence_commit e = c" "accounted g S branch (Inr p)"
  shows "accounted g S branch r" "r \<noteq> Inr None"
proof -
  obtain b where b: "already_integrates g c branch = Ok b"
    "r = (if b then Inl (LandedYes e) else Inr (keep_first p (e, c)))"
    using assms(1) by (auto simp: found_landing_def ok_cases)
  show "accounted g S branch r"
  proof (cases b)
    case True
    with b assms show ?thesis by (simp add: accounted_def)
  next
    case False
    with b assms show ?thesis by (cases p) (auto simp: accounted_def keep_first_def)
  qed
  show "r \<noteq> Inr None" using b by (auto simp: keep_first_def split: option.splits)
qed

lemma trailer_tier_accounted:
  assumes "trailer_tier g branch cs p = Ok r" "accounted g S branch (Inr p)"
    "\<And>c v. (c, v) \<in> set cs \<Longrightarrow> known_to_reach g v branch = Ok True \<Longrightarrow> S (TrailerLanding c)"
  shows "accounted g S branch r \<and>
    (r = Inr None \<longrightarrow> p = None \<and> (\<forall>(c, v) \<in> set cs. known_to_reach g v branch = Ok False))"
  using assms
proof (induction g branch cs p arbitrary: r rule: trailer_tier.induct)
  case (1 g branch partial)
  then show ?case by auto
next
  case (2 g branch commit carried rest partial)
  then obtain b where b: "known_to_reach g carried branch = Ok b" by (auto simp: ok_cases)
  show ?case
  proof (cases b)
    case False
    with 2(3) b have rest: "trailer_tier g branch rest partial = Ok r" by simp
    have "accounted g S branch r \<and> (r = Inr None \<longrightarrow> partial = None \<and>
        (\<forall>(c, v) \<in> set rest. known_to_reach g v branch = Ok False))"
      by (rule 2(1) [OF b _ rest 2(4)]) (use False 2(5) in auto)
    with b False show ?thesis by auto
  next
    case True
    with 2(3) b obtain f where f: "found_landing g branch (TrailerLanding commit) commit partial = Ok f"
      and r: "(case f of Inl l \<Rightarrow> Ok (Inl l) | Inr p \<Rightarrow> trailer_tier g branch rest p) = Ok r"
      by (auto simp: ok_cases)
    have "S (TrailerLanding commit)" using 2(5) [of commit carried] b True by simp
    note F = found_landing_accounted [where S = S, OF f this _ 2(4)]
    show ?thesis
    proof (cases f)
      case (Inl l)
      with r F show ?thesis by auto
    next
      case (Inr q)
      with F obtain x where "q = Some x" by auto
      with 2(2) [OF b _ f Inr, of r] r Inr F True 2(5) show ?thesis by auto
    qed
  qed
qed

lemma unlanded_from_counts:
  assumes "unlanded_from g landing cs n = Ok m" "n + length cs \<le> MAX_U64"
  shows "m = n + length (takeWhile (\<lambda>c. already_integrates g landing (sha c) = Ok False) cs)"
  using assms
proof (induction g landing cs n rule: unlanded_from.induct)
  case (2 g landing c cs n)
  then obtain b where b: "already_integrates g landing (sha c) = Ok b" by (auto simp: ok_cases)
  have "saturating_add n 1 = Suc n" using 2(3) by (simp add: saturating_add_def)
  with 2 b show ?case by (cases b) auto
qed simp

lemma recorded_tier_accounted:
  assumes "recorded_tier g compared branch recorded = Ok r"
    "\<And>l. recorded_at recorded = Some l \<Longrightarrow> known_to_reach g (landing_commit l) compared = Ok True \<Longrightarrow>
       S (RecordedLanding (landing_commit l))"
  shows "accounted g S branch r \<and>
    (r = Inr None \<longrightarrow> (\<forall>l. recorded_at recorded = Some l \<longrightarrow> known_to_reach g (landing_commit l) compared = Ok False))"
proof (cases "recorded_at recorded")
  case None
  with assms(1) show ?thesis by (auto simp: recorded_tier_def accounted_def)
next
  case (Some l)
  with assms(1) obtain b where b: "known_to_reach g (landing_commit l) compared = Ok b"
    by (auto simp: recorded_tier_def ok_cases)
  show ?thesis
  proof (cases b)
    case False
    with Some b assms(1) show ?thesis by (auto simp: recorded_tier_def accounted_def)
  next
    case True
    with Some b assms(1)
    have f: "found_landing g branch (RecordedLanding (landing_commit l)) (landing_commit l) None = Ok r"
      by (simp add: recorded_tier_def)
    have "S (RecordedLanding (landing_commit l))" using assms(2) Some b True by simp
    from found_landing_accounted [where S = S, OF f this] show ?thesis by (auto simp: accounted_def)
  qed
qed

lemma change_tier_accounted:
  assumes "change_tier g u base_history branch recorded p = Ok r" "accounted g S branch (Inr p)"
    "\<And>url c. recorded_change recorded = Some url \<Longrightarrow> names_the_change u base_history url branch = Some c \<Longrightarrow>
       S (ChangeRequestLanding c url)"
  shows "accounted g S branch r \<and>
    (r = Inr None \<longrightarrow> p = None \<and>
       (\<forall>url. recorded_change recorded = Some url \<longrightarrow> names_the_change u base_history url branch = None))"
proof (cases "recorded_change recorded")
  case None
  with assms(1,2) show ?thesis by (auto simp: change_tier_def)
next
  case (Some url)
  show ?thesis
  proof (cases "names_the_change u base_history url branch")
    case None
    with Some assms(1,2) show ?thesis by (auto simp: change_tier_def)
  next
    case c: (Some c)
    with Some assms(1) have f: "found_landing g branch (ChangeRequestLanding c url) c p = Ok r"
      by (simp add: change_tier_def)
    from found_landing_accounted [where S = S, OF f] assms(2,3) Some c show ?thesis by auto
  qed
qed

text \<open>What a no rests on: nothing recorded, named or trailed a landing, the content differs, and the
  history reaches the base this host knows.\<close>

definition nothing_landed ::
    "git \<Rightarrow> url_reader \<Rightarrow> str \<Rightarrow> str option \<Rightarrow> str \<Rightarrow> recorded_work \<Rightarrow> trailers \<Rightarrow> bool" where
  "nothing_landed g u compared known branch recorded t \<longleftrightarrow>
     (known = None \<or> (\<exists>tip. known = Some tip \<and> known_to_reach g tip compared = Ok True)) \<and>
     (merge_base g compared branch = Ok None \<and> trees_differ g compared branch = Ok True \<or>
      (\<exists>fork history. merge_base g compared branch = Ok (Some fork) \<and> log_messages g fork compared = Ok history \<and>
         (\<forall>l. recorded_at recorded = Some l \<longrightarrow> known_to_reach g (landing_commit l) compared = Ok False) \<and>
         (\<forall>url. recorded_change recorded = Some url \<longrightarrow> names_the_change u history url branch = None) \<and>
         (\<forall>(c, v) \<in> set (trailer_candidates history t). known_to_reach g v branch = Ok False) \<and>
         known_to_carry_changes g compared fork branch = Ok False))"

lemma unresolved_No:
  "unresolved g compared known = Ok l \<Longrightarrow>
   l = LandedUnknown \<or>
   l = LandedNo \<and> (known = None \<or> (\<exists>tip. known = Some tip \<and> known_to_reach g tip compared = Ok True))"
  by (auto simp: unresolved_def ok_cases split: option.splits if_splits)

lemma decide_cases:
  assumes "decide g u compared known branch recorded t = Ok l"
  shows "case l of
      LandedYes e \<Rightarrow> supported g u compared branch recorded t e \<and>
        already_integrates g (evidence_commit e) branch = Ok True
    | LandedInPart e n \<Rightarrow> supported g u compared branch recorded t e \<and>
        already_integrates g (evidence_commit e) branch = Ok False \<and>
        (\<exists>fork. merge_base g compared branch = Ok (Some fork) \<and>
           unlanded_above g branch fork (evidence_commit e) = Ok n)
    | LandedNo \<Rightarrow> nothing_landed g u compared known branch recorded t
    | LandedUnknown \<Rightarrow> True"
proof -
  let ?S = "supported g u compared branch recorded t"
  obtain f where f: "merge_base g compared branch = Ok f" using assms by (auto simp: decide_def ok_cases)
  show ?thesis
  proof (cases f)
    case None
    then obtain b where b: "trees_differ g compared branch = Ok b" "inferred g compared known (\<not> b) = Ok l"
      using assms f by (auto simp: decide_def ok_cases)
    with unresolved_No [of g compared known l] f None show ?thesis
      by (cases b) (auto simp: inferred_def nothing_landed_def)
  next
    case (Some fork)
    obtain r1 where r1: "recorded_tier g compared branch recorded = Ok r1"
      using assms f Some by (auto simp: decide_def ok_cases)
    have a1: "accounted g ?S branch r1 \<and> (r1 = Inr None \<longrightarrow>
        (\<forall>l. recorded_at recorded = Some l \<longrightarrow> known_to_reach g (landing_commit l) compared = Ok False))"
      by (rule recorded_tier_accounted [OF r1]) (simp add: supported_def)
    show ?thesis
    proof (cases r1)
      case (Inl l1)
      with assms f Some r1 have "l = l1" by (simp add: decide_def)
      with a1 Inl show ?thesis by (auto simp: accounted_def)
    next
      case p1: (Inr p1)
      obtain history r2 where h: "log_messages g fork compared = Ok history"
        and r2: "change_tier g u history branch recorded p1 = Ok r2"
        using assms f Some r1 p1 by (auto simp: decide_def ok_cases)
      have a2: "accounted g ?S branch r2 \<and> (r2 = Inr None \<longrightarrow> p1 = None \<and>
          (\<forall>url. recorded_change recorded = Some url \<longrightarrow> names_the_change u history url branch = None))"
        by (rule change_tier_accounted [OF r2]) (use a1 p1 f Some h in \<open>auto simp: supported_def\<close>)
      show ?thesis
      proof (cases r2)
        case (Inl l2)
        with assms f Some r1 p1 h r2 have "l = l2" by (simp add: decide_def)
        with a2 Inl show ?thesis by (auto simp: accounted_def)
      next
        case p2: (Inr p2)
        obtain r3 where r3: "trailer_tier g branch (trailer_candidates history t) p2 = Ok r3"
          using assms f Some r1 p1 h r2 p2 by (auto simp: decide_def ok_cases)
        have S: "?S (TrailerLanding c)" if c: "(c, v) \<in> set (trailer_candidates history t)" "known_to_reach g v branch = Ok True"
          for c v
        proof -
          obtain m where "m \<in> set history" "sha m = c" "v \<in> set (trailer_values (message m) (landed t))"
            using c(1) by (auto simp: trailer_candidates_def)
          with c(2) f Some h show ?thesis unfolding supported_def by auto
        qed
        have a3: "accounted g ?S branch r3 \<and> (r3 = Inr None \<longrightarrow> p2 = None \<and>
            (\<forall>(c, v) \<in> set (trailer_candidates history t). known_to_reach g v branch = Ok False))"
          by (rule trailer_tier_accounted [OF r3]) (use a2 p2 S in auto)
        note step = assms [unfolded decide_def f Some and_then_simps option.case r1 p1 sum.case h r2 p2 r3]
        show ?thesis
        proof (cases r3)
          case (Inl l3)
          with step have "l = l3" by simp
          with a3 Inl show ?thesis by (auto simp: accounted_def)
        next
          case p3: (Inr p3)
          show ?thesis
          proof (cases p3)
            case None
            with step p3 have c: "content_tier g compared known fork branch history t = Ok l" by simp
            obtain b where b: "known_to_carry_changes g compared fork branch = Ok b"
              using c by (auto simp: content_tier_def ok_cases)
            have "l = LandedUnknown \<or> (b = False \<and> unresolved g compared known = Ok l)"
              using c b by (auto simp: content_tier_def ok_cases split: if_splits)
            then show ?thesis
            proof
              assume "b = False \<and> unresolved g compared known = Ok l"
              with unresolved_No [of g compared known l] f Some h a1 a2 a3 p1 p2 p3 None b
              show ?thesis by (auto simp: nothing_landed_def)
            qed simp
          next
            case e: (Some ec)
            obtain e c where ec: "ec = (e, c)" by fastforce
            with step p3 e obtain n where n: "unlanded_above g branch fork c = Ok n" "l = LandedInPart e n"
              by (auto simp: ok_cases)
            with a3 p3 e ec f Some show ?thesis by (auto simp: accounted_def)
          qed
        qed
      qed
    qed
  qed
qed

section \<open>Properties\<close>

text \<open>C8 A branch is reported landed only on a record, and only where the landing took all of it: the
  evidence is the commit this host recorded, which the base reaches; or a commit of the base's
  history since the fork whose subject names the change request; or one whose trailer names a
  commit of this branch; and merging the branch into that commit changes nothing.\<close>

theorem landed_is_supported:
  assumes "decide g u compared known branch recorded t = Ok (LandedYes e)"
  shows "supported g u compared branch recorded t e \<and> already_integrates g (evidence_commit e) branch = Ok True"
  using decide_cases [OF assms] by simp

text \<open>A repository in which the branch forked at \<open>f0\<close>, its commits are \<open>c1\<close> to \<open>c3\<close>, and the landing took
  those that \<open>taken\<close> names.\<close>

definition forked_git :: "(str \<Rightarrow> bool) \<Rightarrow> git" where
  "forked_git taken =
     \<lparr>runs = (\<lambda>args.
        if hd args = ''merge-base'' then answered 0 ''f0''
        else if hd args = ''log'' then answered 0 (concat (map printed_commit
          [\<lparr>sha = ''c1'', message = ''feat: a''\<rparr>, \<lparr>sha = ''c2'', message = ''fix: b''\<rparr>, \<lparr>sha = ''c3'', message = ''fix: c''\<rparr>]))
        else if hd args = ''merge-tree'' then answered 0 (if taken (args ! 3) then ''t1'' else ''t2'')
        else if hd args = ''rev-parse'' then answered 0 ''t1''
        else Err (NotRun [])),
      tip_of = (\<lambda>_. None), knows_reach = (\<lambda>_ _. Some True), knows_commit = (\<lambda>_. Some True),
      merged_before = (\<lambda>_ _. None)\<rparr>"

definition landed_at :: "str \<Rightarrow> recorded_work" where
  "landed_at c = \<lparr>recorded_at = Some \<lparr>landing_commit = c, landing_head = None, landing_change = None\<rparr>, recorded_change = None\<rparr>"

definition no_urls :: url_reader where "no_urls = (\<lambda>_. None)"

lemma forked_integrates:
  "already_integrates (forked_git taken) l c = Ok (taken c)"
proof -
  have "first_line ''t1'' = Some ''t1''" "first_line ''t2'' = Some ''t2''" "trim ''t1'' = ''t1''"
    by code_simp+
  then show ?thesis
    by (auto simp: already_integrates_def forked_git_def at_tip_def merge_args_def answered_def tree_of_def checked_def
        ran_ok_def trimmed_def Let_def)
qed

lemma forked_base: "merge_base (forked_git taken) a b = Ok (Some ''f0'')"
proof -
  have "trim ''f0'' = ''f0''" by code_simp
  then show ?thesis by (simp add: merge_base_def forked_git_def answered_def trimmed_def)
qed

lemma forked_reach: "known_to_reach (forked_git taken) a b = Ok True"
  by (simp add: known_to_reach_def has_commit_def is_ancestor_def forked_git_def)

theorem landed_is_supported_witness:
  "supported (forked_git (\<lambda>_. True)) no_urls ''main'' ''topic'' (landed_at ''c9'') (trailers_of ''Onevcs-'') (RecordedLanding ''c9'')"
proof -
  have "decide (forked_git (\<lambda>_. True)) no_urls ''main'' None ''topic'' (landed_at ''c9'') (trailers_of ''Onevcs-'') =
      Ok (LandedYes (RecordedLanding ''c9''))"
    by (simp add: decide_def forked_base recorded_tier_def landed_at_def forked_reach found_landing_def forked_integrates)
  from landed_is_supported [OF this] show ?thesis by blast
qed

text \<open>A branch that went on after its landing is reported landed in part by the record that found
  the landing, with the count of what is left: the landing does not integrate the branch, and
  the commits it lacks are the newest one and every one below it down to the first that merges
  into the landing without changing it.\<close>

theorem in_part_counts_what_is_left:
  assumes "decide g u compared known branch recorded t = Ok (LandedInPart e n)"
  shows "supported g u compared branch recorded t e \<and> already_integrates g (evidence_commit e) branch = Ok False \<and>
    (\<exists>fork commits. merge_base g compared branch = Ok (Some fork) \<and> log_messages g fork branch = Ok commits \<and>
       (length commits < MAX_U64 \<longrightarrow>
          n = 1 + length (takeWhile (\<lambda>c. already_integrates g (evidence_commit e) (sha c) = Ok False)
                            (drop 1 (rev commits)))))"
proof -
  obtain fork where f: "merge_base g compared branch = Ok (Some fork)"
    "unlanded_above g branch fork (evidence_commit e) = Ok n" and s: "supported g u compared branch recorded t e"
    "already_integrates g (evidence_commit e) branch = Ok False"
    using decide_cases [OF assms] by auto
  then obtain commits where c: "log_messages g fork branch = Ok commits"
    "unlanded_from g (evidence_commit e) (drop 1 (rev commits)) 1 = Ok n"
    by (auto simp: unlanded_above_def ok_cases)
  with unlanded_from_counts [OF c(2)] f s show ?thesis by auto
qed

theorem in_part_counts_what_is_left_witness:
  "\<exists>n. decide (forked_git (\<lambda>c. c = ''c1'')) no_urls ''main'' None ''topic'' (landed_at ''c9'') (trailers_of ''Onevcs-'') =
         Ok (LandedInPart (RecordedLanding ''c9'') n) \<and> n = 2 \<and>
       already_integrates (forked_git (\<lambda>c. c = ''c1'')) ''c9'' ''topic'' = Ok False"
proof -
  let ?g = "forked_git (\<lambda>c. c = ''c1'')"
  let ?cs = "[\<lparr>sha = ''c1'', message = ''feat: a''\<rparr>, \<lparr>sha = ''c2'', message = ''fix: b''\<rparr>, \<lparr>sha = ''c3'', message = ''fix: c''\<rparr>]"
  have log: "log_messages ?g a b = Ok ?cs" for a b
  proof -
    have "trim_end ''feat: a'' = ''feat: a''" "trim_end ''fix: b'' = ''fix: b''" "trim_end ''fix: c'' = ''fix: c''"
      by code_simp+
    then have "log_records (concat (map printed_commit ?cs)) = ?cs"
      using log_records_printed [of ?cs "[]"]
      by (simp add: printable_def NUL_def RS_def blank_message_def trimmed_message_def)
    then show ?thesis by (simp add: log_messages_def checked_def log_args_def forked_git_def answered_def ran_ok_def)
  qed
  have none: "trailer_candidates ?cs (trailers_of ''Onevcs-'') = []" by code_simp
  have d: "decide ?g no_urls ''main'' None ''topic'' (landed_at ''c9'') (trailers_of ''Onevcs-'') =
      Ok (LandedInPart (RecordedLanding ''c9'') 2)"
    by (simp add: decide_def forked_base recorded_tier_def landed_at_def forked_reach found_landing_def forked_integrates
        keep_first_def log change_tier_def none unlanded_above_def saturating_add_def MAX_U64_def)
  with in_part_counts_what_is_left [OF d] show ?thesis by auto
qed


definition strangers_git :: git where
  "strangers_git =
     \<lparr>runs = (\<lambda>_. answered 1 []), tip_of = (\<lambda>_. None), knows_reach = (\<lambda>_ _. Some True),
      knows_commit = (\<lambda>_. Some True), merged_before = (\<lambda>_ _. None)\<rparr>"


end
