(* ===== verification/Retirement.thy ===== *)
theory Retirement
  imports Landed Labels Store
begin

text \<open>
  What a retirement is (\<open>retire.rs\<close>): the class of a branch, the reason it is kept, the read that
  failed, the proof and the document they travel in; which class an actor may act on; and the
  records of a retirement and of a supersession, read back from a stream. Whether git takes a name
  as a branch's, the canonical form of a path and the scheme of a URL are parameters.
\<close>

section \<open>Classes, reasons and causes\<close>

datatype retirement_class = Retirable | SupersededWithChanges | Keep

datatype keep_reason =
    HeldByLiveSession | Excluded | OpenChangeRequest | CheckedOut | DirtyWorktree
  | UnmergedUniqueCommits | UnknownReason | IsBase | ClosedChangeRequest

fun class_str :: "retirement_class \<Rightarrow> str" where
  "class_str Retirable = ''retirable''"
| "class_str SupersededWithChanges = ''superseded-with-changes''"
| "class_str Keep = ''keep''"

fun reason_str :: "keep_reason \<Rightarrow> str" where
  "reason_str HeldByLiveSession = ''held-by-live-session''"
| "reason_str Excluded = ''excluded''"
| "reason_str OpenChangeRequest = ''open-change-request''"
| "reason_str ClosedChangeRequest = ''closed-change-request''"
| "reason_str CheckedOut = ''checked-out''"
| "reason_str DirtyWorktree = ''dirty-worktree''"
| "reason_str UnmergedUniqueCommits = ''unmerged-unique-commits''"
| "reason_str UnknownReason = ''unknown''"
| "reason_str IsBase = ''is-base''"

record unknown_cause =
  operation :: str
  about :: str            \<comment> \<open>\<open>subject\<close>\<close>
  failure :: str          \<comment> \<open>\<open>error\<close>\<close>

definition cause_unreadable :: "unknown_cause \<Rightarrow> str" where
  "cause_unreadable c = about c @ '': '' @ failure c"

definition cause_text :: "unknown_cause \<Rightarrow> str" where
  "cause_text c = operation c @ '' failed for '' @ about c @ '': '' @ failure c"

fun proof_kind :: "retirement_proof \<Rightarrow> str" where
  "proof_kind (MergedChangeRequest _ _) = ''merged-change-request''"
| "proof_kind (LandingRecorded _) = ''recorded-landing''"
| "proof_kind (ContentIdentical _) = ''content-identical''"

fun proof_commit :: "retirement_proof \<Rightarrow> str" where
  "proof_commit (MergedChangeRequest _ h) = h"
| "proof_commit (LandingRecorded c) = c"
| "proof_commit (ContentIdentical c) = c"

record superseded_by =
  by_branch :: str
  by_landing :: str
  by_labels :: "(str \<times> str) list"

datatype holder_kind = CheckoutHolder | SlotHolder | RunCloneHolder | OriginHolder

fun holder_kind_str :: "holder_kind \<Rightarrow> str" where
  "holder_kind_str CheckoutHolder = ''checkout''"
| "holder_kind_str SlotHolder = ''slot''"
| "holder_kind_str RunCloneHolder = ''run-clone''"
| "holder_kind_str OriginHolder = ''origin''"

record branch_holder =
  holder_kind :: holder_kind
  location :: str

record failed_holder =
  failed_kind :: holder_kind
  failed_location :: str
  failed_error :: str

section \<open>The document\<close>

record retirement =
  class_of :: retirement_class
  reason :: "keep_reason option"
  cause :: "unknown_cause option"
  retired_identity :: str
  retired_branch :: str
  first_tip :: str
  judged_base :: str
  proof_of :: "retirement_proof option"
  content_free :: "str list"
  superseding :: "superseded_by option"
  differing_paths :: "str list"
  holders :: "branch_holder list"

datatype contradiction = ReasonIffKeep | ProofIffRetirable | CauseIffUnknown | CauseIncomplete | SupersededByNothing

text \<open>\<open>TryFrom<AnyRetirement>\<close>: the fields of a document held to each other.\<close>

definition blank :: "str \<Rightarrow> bool" where
  "blank s \<longleftrightarrow> trim s = []"

definition try_from :: "retirement \<Rightarrow> contradiction + retirement" where
  "try_from r =
     (if (class_of r = Keep) \<noteq> (reason r \<noteq> None) then Err ReasonIffKeep
      else if (class_of r = Retirable) \<noteq> (proof_of r \<noteq> None) then Err ProofIffRetirable
      else case cause r of
        Some c \<Rightarrow>
          (if reason r \<noteq> Some UnknownReason then Err CauseIffUnknown
           else if list_ex blank [operation c, about c, failure c] then Err CauseIncomplete
           else if class_of r = SupersededWithChanges \<and> superseding r = None then Err SupersededByNothing
           else Ok r)
      | None \<Rightarrow>
          (if class_of r = SupersededWithChanges \<and> superseding r = None then Err SupersededByNothing
           else Ok r))"

definition retirement_verdict :: "retirement \<Rightarrow> str" where
  "retirement_verdict r =
     (case (reason r, cause r) of
        (Some k, Some c) \<Rightarrow> class_str (class_of r) @ '' / '' @ reason_str k @ '': '' @ cause_text c
      | (Some k, None) \<Rightarrow> class_str (class_of r) @ '' / '' @ reason_str k
      | (None, _) \<Rightarrow> class_str (class_of r))"

section \<open>Who may act on what\<close>

datatype acting = Retire | Reclaim | Discard | Automatic
datatype trigger = Verb | SessionClose | SweepTrigger | PassTrigger

definition permits_class :: "acting \<Rightarrow> retirement_class \<Rightarrow> bool" where
  "permits_class a c =
     (case c of Retirable \<Rightarrow> True
      | SupersededWithChanges \<Rightarrow> a \<in> {Reclaim, Discard}
      | Keep \<Rightarrow> a = Discard)"

definition permits :: "acting \<Rightarrow> retirement_class \<Rightarrow> keep_reason option \<Rightarrow> bool" where
  "permits a c k \<longleftrightarrow> permits_class a c \<and> (c \<noteq> Keep \<or> k = Some UnmergedUniqueCommits)"

section \<open>Records read back\<close>

datatype superseding_landing = LandedCommit str | LandedChange str

text \<open>\<open>Url::parse\<close> with the scheme held to \<open>http\<close> and \<open>https\<close> is a parameter: the URL as it is spelled.\<close>

definition superseding_landing_of :: "(str \<Rightarrow> str option) \<Rightarrow> str \<Rightarrow> superseding_landing option" where
  "superseding_landing_of web v =
     (case object_id v of Some c \<Rightarrow> Some (LandedCommit c) | None \<Rightarrow> map_option LandedChange (web v))"

fun superseding_landing_str :: "superseding_landing \<Rightarrow> str" where
  "superseding_landing_str (LandedCommit c) = c"
| "superseding_landing_str (LandedChange u) = u"

definition is_identity_key :: "(str \<Rightarrow> str option) \<Rightarrow> str \<Rightarrow> bool" where
  "is_identity_key canonicalize s \<longleftrightarrow>
     trim s = s \<and> \<not> any_control s \<and>
     (case hosted_at (normalize canonicalize s) of
        Some _ \<Rightarrow> key (normalize canonicalize s) = s | None \<Rightarrow> is_absolute s)"

record readers =
  ref_name :: "str \<Rightarrow> bool"           \<comment> \<open>\<open>Ref::try_from\<close>\<close>
  canonical :: "str \<Rightarrow> str option"
  web_url :: "str \<Rightarrow> str option"

record retired_payload =
  p_identity :: str
  p_branch :: str
  p_tip :: str
  p_class :: retirement_class
  p_reason :: "keep_reason option"
  p_proof :: "retirement_proof option"
  p_superseded_by :: "superseded_by option"
  p_differing_paths :: "str list"
  p_mode :: acting
  p_trigger :: trigger
  p_deleted :: "branch_holder list"
  p_failed :: "failed_holder list"
  p_slots_returned :: "str list"
  p_run_roots_removed :: "str list"
  p_sessions_closed :: "str list"

definition one_line :: "str \<Rightarrow> bool" where
  "one_line s \<longleftrightarrow> s \<noteq> [] \<and> \<not> any_control s"

definition plain_place :: "holder_kind \<Rightarrow> str \<Rightarrow> bool" where
  "plain_place k l \<longleftrightarrow> one_line l \<and> (k = OriginHolder \<or> is_absolute l)"

definition evidence_is_plain :: "readers \<Rightarrow> retired_payload \<Rightarrow> bool" where
  "evidence_is_plain rd p \<longleftrightarrow>
     (case p_proof p of None \<Rightarrow> True | Some pr \<Rightarrow> object_id (proof_commit pr) \<noteq> None) \<and>
     (case p_superseded_by p of
        None \<Rightarrow> True
      | Some by \<Rightarrow> ref_name rd (by_branch by) \<and> superseding_landing_of (web_url rd) (by_landing by) \<noteq> None \<and>
                  label_validate (by_labels by) = Ok ())"

definition accounts_plainly :: "readers \<Rightarrow> retired_payload \<Rightarrow> bool" where
  "accounts_plainly rd p \<longleftrightarrow>
     list_all (\<lambda>h. plain_place (holder_kind h) (location h)) (p_deleted p) \<and>
     list_all (\<lambda>h. plain_place (failed_kind h) (failed_location h) \<and> \<not> blank (failed_error h)) (p_failed p) \<and>
     list_all (\<lambda>s. one_line s \<and> is_absolute s) (p_slots_returned p) \<and>
     list_all (\<lambda>s. one_line s \<and> is_absolute s) (p_run_roots_removed p) \<and>
     list_all is_safe_name (p_sessions_closed p) \<and>
     list_all (\<lambda>s. s \<noteq> []) (p_differing_paths p) \<and> evidence_is_plain rd p"

record retired_record =
  payload :: retired_payload
  recorded_when :: str

definition consistent :: "retired_payload \<Rightarrow> bool" where
  "consistent p \<longleftrightarrow>
     permits (p_mode p) (p_class p) (p_reason p) \<and>
     (p_class p = Keep) = (p_reason p \<noteq> None) \<and>
     (p_class p = Retirable) = (p_proof p \<noteq> None) \<and>
     (p_class p = SupersededWithChanges) = (p_superseded_by p \<noteq> None)"

text \<open>\<open>RetiredRecord::read\<close> over the payload as serde decodes it.\<close>

definition read_retired :: "readers \<Rightarrow> retired_payload option \<Rightarrow> str \<Rightarrow> retired_record option" where
  "read_retired rd decoded when =
     Option.bind decoded (\<lambda>p.
       if \<not> ref_name rd (p_branch p) \<or> object_id (p_tip p) = None then None
       else if \<not> is_identity_key (canonical rd) (p_identity p) \<or> \<not> accounts_plainly rd p then None
       else if \<not> consistent p then None
       else Some \<lparr>payload = p, recorded_when = when\<rparr>)"

definition retirement_of :: "retired_record \<Rightarrow> str \<Rightarrow> retirement" where
  "retirement_of r b =
     (let p = payload r
      in \<lparr>class_of = p_class p, reason = p_reason p, cause = None, retired_identity = p_identity p,
          retired_branch = p_branch p, first_tip = p_tip p, judged_base = b, proof_of = p_proof p, content_free = [],
          superseding = p_superseded_by p, differing_paths = p_differing_paths p, holders = []\<rparr>)"

record supersession =
  s_identity :: str
  s_branch :: str
  s_by :: str
  s_landing :: superseding_landing
  s_labels :: "(str \<times> str) list"

definition labels_of :: "json option \<Rightarrow> (str \<times> str) list option" where
  "labels_of v =
     (case v of
        Some (Object m) \<Rightarrow> collect_opt (\<lambda>(k, x). map_option (Pair k) (as_str x)) m
      | None \<Rightarrow> Some [] | Some Null \<Rightarrow> Some [] | Some _ \<Rightarrow> None)"

definition read_supersession :: "readers \<Rightarrow> json \<Rightarrow> supersession option" where
  "read_supersession rd p =
     Option.bind (labels_of (get ''labels'' p)) (\<lambda>labels.
       if label_validate labels \<noteq> Ok () then None
       else
         let text = (\<lambda>n. Option.bind (get n p) as_str)
         in Option.bind (text ''identity'') (\<lambda>i. if \<not> is_identity_key (canonical rd) i then None else
            Option.bind (text ''branch'') (\<lambda>b. if \<not> ref_name rd b then None else
            Option.bind (text ''superseded_by'') (\<lambda>s. if \<not> ref_name rd s then None else
            Option.bind (text ''landing'') (\<lambda>l.
              map_option (\<lambda>at. \<lparr>s_identity = i, s_branch = b, s_by = s, s_landing = at, s_labels = labels\<rparr>)
                (superseding_landing_of (web_url rd) l))))))"

definition names_branch :: "supersession \<Rightarrow> str \<Rightarrow> str \<Rightarrow> bool" where
  "names_branch s i b \<longleftrightarrow> s_identity s = i \<and> s_branch s = b"

end
