(* ===== verification/Files.thy ===== *)
theory Files
  imports Prelude
begin

text \<open>
  Replacing a file's whole contents (\<open>home::atomic_write\<close>): a temporary beside it is written byte by
  byte and renamed over it, by any number of processes at once, each of which may be killed between two
  of its steps. And the contract of the records kept that way, one file each: what is read under a key
  was put under it. The file system is a map from paths to contents; which of its calls fail is a
  parameter.
\<close>

section \<open>Temporaries\<close>

type_synonym files = "str \<rightharpoonup> str"

definition file_name :: "str \<Rightarrow> str" where
  "file_name path = (case rsplit_once (CHR ''/'') path of None \<Rightarrow> path | Some (_, n) \<Rightarrow> n)"

definition parent_dir :: "str \<Rightarrow> str" where
  "parent_dir path =
     (case rsplit_once (CHR ''/'') path of
        None \<Rightarrow> [] | Some (d, _) \<Rightarrow> if d = [] then ''/'' else d)"

definition temporary_of :: "str \<Rightarrow> str \<Rightarrow> str" where
  "temporary_of path unique = path_join (parent_dir path) (''.'' @ file_name path @ ''.'' @ unique)"

lemma file_name_join: "CHR ''/'' \<notin> set n \<Longrightarrow> n \<noteq> [] \<Longrightarrow> file_name (path_join d n) = n"
proof -
  assume n: "CHR ''/'' \<notin> set n" "n \<noteq> []"
  have rel: "\<not> is_absolute n" using n by (cases n) (auto simp: is_absolute_def starts_with_def)
  have split: "file_name (a @ CHR ''/'' # n) = n" for a
    using n(1) by (simp add: file_name_def rsplit_once_def)
  show ?thesis
  proof (cases "d = []")
    case True
    with rel n(1) split_once_None [of "CHR ''/''" "rev n"] show ?thesis
      by (simp add: path_join_def file_name_def rsplit_once_def)
  next
    case False
    then show ?thesis using rel split [of d] split [of "butlast d"]
      by (auto simp: path_join_def ends_with_iff)
  qed
qed

lemma file_name_free: "CHR ''/'' \<notin> set (file_name path)"
  by (auto simp: file_name_def rsplit_once_def split_once_None split_once_Some split: option.splits)

text \<open>A temporary is never the file it stands in for.\<close>

lemma temporary_apart: "CHR ''/'' \<notin> set u \<Longrightarrow> temporary_of path u \<noteq> path"
proof
  assume u: "CHR ''/'' \<notin> set u" and e: "temporary_of path u = path"
  have "file_name (temporary_of path u) = ''.'' @ file_name path @ ''.'' @ u"
    unfolding temporary_of_def using u file_name_free [of path] by (intro file_name_join) auto
  with e have "length (file_name path) = length (''.'' @ file_name path @ ''.'' @ u)" by simp
  then show False by simp
qed

section \<open>Writers\<close>

record job =
  target :: str
  temporary :: str
  contents :: str

datatype phase =
    Start
  | Writing nat
  | Cleaning bool
  | Ended bool
  | Killed

record writers =
  disk :: files
  at_phase :: "nat \<Rightarrow> phase"

text \<open>One step of one writer. A call may fail wherever it is made, and a writer may be killed anywhere;
  a write that fails leaves what it wrote of the temporary.\<close>

inductive writer_step :: "(nat \<Rightarrow> job) \<Rightarrow> writers \<Rightarrow> writers \<Rightarrow> bool" for jobs where
  no_directory: "at_phase s p = Start \<Longrightarrow> writer_step jobs s (s\<lparr>at_phase := (at_phase s)(p := Ended False)\<rparr>)"
| create: "at_phase s p = Start \<Longrightarrow>
    writer_step jobs s \<lparr>disk = (disk s)(temporary (jobs p) \<mapsto> []), at_phase = (at_phase s)(p := Writing 0)\<rparr>"
| wrote: "at_phase s p = Writing n \<Longrightarrow> n < length (contents (jobs p)) \<Longrightarrow>
    writer_step jobs s \<lparr>disk = (disk s)(temporary (jobs p) \<mapsto> take (Suc n) (contents (jobs p))),
                        at_phase = (at_phase s)(p := Writing (Suc n))\<rparr>"
| no_write: "at_phase s p = Writing n \<Longrightarrow>
    writer_step jobs s (s\<lparr>at_phase := (at_phase s)(p := Ended False)\<rparr>)"
| replace: "at_phase s p = Writing (length (contents (jobs p))) \<Longrightarrow>
    writer_step jobs s \<lparr>disk = (disk s)(target (jobs p) := disk s (temporary (jobs p)), temporary (jobs p) := None),
                        at_phase = (at_phase s)(p := Cleaning True)\<rparr>"
| no_replace: "at_phase s p = Writing (length (contents (jobs p))) \<Longrightarrow>
    writer_step jobs s (s\<lparr>at_phase := (at_phase s)(p := Cleaning False)\<rparr>)"
| clean: "at_phase s p = Cleaning ok \<Longrightarrow>
    writer_step jobs s \<lparr>disk = (disk s)(temporary (jobs p) := None), at_phase = (at_phase s)(p := Ended ok)\<rparr>"
| no_clean: "at_phase s p = Cleaning ok \<Longrightarrow>
    writer_step jobs s (s\<lparr>at_phase := (at_phase s)(p := Ended ok)\<rparr>)"
| kill: "writer_step jobs s (s\<lparr>at_phase := (at_phase s)(p := Killed)\<rparr>)"

definition writing :: "(nat \<Rightarrow> job) \<Rightarrow> files \<Rightarrow> writers \<Rightarrow> bool" where
  "writing jobs fs s \<longleftrightarrow> (writer_step jobs)\<^sup>*\<^sup>* \<lparr>disk = fs, at_phase = (\<lambda>_. Start)\<rparr> s"

text \<open>What \<open>ids::unique\<close> gives: no two writers share a temporary, and none is a file that is written.\<close>

definition apart :: "(nat \<Rightarrow> job) \<Rightarrow> bool" where
  "apart jobs \<longleftrightarrow>
     (\<forall>p q. temporary (jobs p) = temporary (jobs q) \<longrightarrow> p = q) \<and>
     (\<forall>p q. temporary (jobs p) \<noteq> target (jobs q))"

definition whole_files :: "(nat \<Rightarrow> job) \<Rightarrow> files \<Rightarrow> writers \<Rightarrow> bool" where
  "whole_files jobs fs s \<longleftrightarrow>
     (\<forall>p n. at_phase s p = Writing n \<longrightarrow> disk s (temporary (jobs p)) = Some (take n (contents (jobs p)))) \<and>
     (\<forall>f. f \<notin> range (temporary \<circ> jobs) \<longrightarrow>
        disk s f = fs f \<or> (\<exists>p. target (jobs p) = f \<and> disk s f = Some (contents (jobs p)))) \<and>
     (\<forall>p. at_phase s p \<in> {Cleaning True, Ended True} \<longrightarrow>
        (\<exists>q. target (jobs q) = target (jobs p) \<and> disk s (target (jobs p)) = Some (contents (jobs q))))"

lemma whole_files_step:
  assumes "apart jobs" "whole_files jobs fs s" "writer_step jobs s t"
  shows "whole_files jobs fs t"
proof -
  have t [simp]: "temporary (jobs q) = temporary (jobs p) \<longleftrightarrow> q = p" "temporary (jobs q) \<noteq> target (jobs p)"
      "target (jobs p) \<noteq> temporary (jobs q)" for p q
    using assms(1) by (auto simp: apart_def dest: sym)
  show ?thesis using assms(3)
  proof (cases rule: writer_step.cases)
    case (create p)
    with assms(2) show ?thesis by (auto simp: whole_files_def)
  next
    case (wrote p n)
    with assms(2) show ?thesis by (auto simp: whole_files_def)
  next
    case (replace p)
    then have "disk s (temporary (jobs p)) = Some (contents (jobs p))"
      using assms(2) by (auto simp: whole_files_def)
    with replace assms(2) show ?thesis by (auto simp: whole_files_def)
  next
    case (clean p ok)
    with assms(2) show ?thesis by (cases ok) (auto simp: whole_files_def)
  next
    case (no_clean p ok)
    with assms(2) show ?thesis by (cases ok) (auto simp: whole_files_def)
  qed (use assms(2) in \<open>auto simp: whole_files_def\<close>)
qed

lemma whole_files_kept:
  assumes "apart jobs" "writing jobs fs s"
  shows "whole_files jobs fs s"
  using assms(2) unfolding writing_def
proof (induction rule: rtranclp_induct)
  case base
  then show ?case by (simp add: whole_files_def)
next
  case (step s t)
  then show ?case using whole_files_step [OF assms(1)] by blast
qed

text \<open>C22 A record is replaced whole: however the steps of any number of writers interleave and
  wherever each of them fails or is killed, a file that is no temporary of theirs holds what it
  held before or the whole contents of one writer of it; and once a writer has ended well the
  file holds some writer's whole contents.\<close>

theorem records_are_replaced_whole:
  assumes "apart jobs" "writing jobs fs s"
  shows "(\<forall>f. f \<notin> range (temporary \<circ> jobs) \<longrightarrow>
      disk s f = fs f \<or> (\<exists>p. target (jobs p) = f \<and> disk s f = Some (contents (jobs p)))) \<and>
    (\<forall>p. at_phase s p = Ended True \<longrightarrow>
      (\<exists>q. target (jobs q) = target (jobs p) \<and> disk s (target (jobs p)) = Some (contents (jobs q))))"
  using whole_files_kept [OF assms] unfolding whole_files_def by blast

text \<open>Two writers of one record: one is killed with a temporary half written, the other ends well.\<close>

definition two_jobs :: "nat \<Rightarrow> job" where
  "two_jobs p = \<lparr>target = ''/s/r.json'', temporary = temporary_of ''/s/r.json'' (replicate p (CHR ''x'')),
     contents = (if p = 0 then ''old'' else ''n'')\<rparr>"

lemma two_jobs_temporary: "temporary (two_jobs p) = ''/s/.r.json.'' @ replicate p (CHR ''x'')"
  by (simp add: two_jobs_def temporary_of_def parent_dir_def file_name_def rsplit_once_def path_join_def
      is_absolute_def starts_with_def ends_with_def)

lemma two_jobs_apart: "apart two_jobs"
  unfolding apart_def two_jobs_temporary by (simp add: two_jobs_def)

definition after_two :: writers where
  "after_two = \<lparr>disk = [''/s/.r.json.'' \<mapsto> [], ''/s/r.json'' \<mapsto> ''n''],
     at_phase = ((\<lambda>_. Start)(0 := Writing 0, 1 := Ended True))\<rparr>"

lemma after_two_reached: "writing two_jobs Map.empty after_two"
proof -
  let ?t0 = "''/s/.r.json.''" and ?t1 = "''/s/.r.json.x''"
  let ?s0 = "\<lparr>disk = Map.empty, at_phase = (\<lambda>_. Start)\<rparr>"
  let ?s1 = "\<lparr>disk = [?t0 \<mapsto> []], at_phase = ((\<lambda>_. Start)(0 := Writing 0))\<rparr>"
  let ?s2 = "\<lparr>disk = [?t0 \<mapsto> [], ?t1 \<mapsto> []], at_phase = ((\<lambda>_. Start)(0 := Writing 0, 1 := Writing 0))\<rparr>"
  let ?s3 = "\<lparr>disk = [?t0 \<mapsto> [], ?t1 \<mapsto> ''n''], at_phase = ((\<lambda>_. Start)(0 := Writing 0, 1 := Writing 1))\<rparr>"
  let ?s4 = "\<lparr>disk = [?t0 \<mapsto> [], ''/s/r.json'' \<mapsto> ''n''], at_phase = ((\<lambda>_. Start)(0 := Writing 0, 1 := Cleaning True))\<rparr>"
  have t: "temporary (two_jobs 0) = ?t0" "temporary (two_jobs 1) = ?t1" by (simp_all add: two_jobs_temporary)
  have "writer_step two_jobs ?s0 ?s1" using writer_step.create [of ?s0 0 two_jobs] t by simp
  moreover have "writer_step two_jobs ?s1 ?s2" using writer_step.create [of ?s1 1 two_jobs] t by simp
  moreover have "writer_step two_jobs ?s2 ?s3" using writer_step.wrote [of ?s2 1 0 two_jobs] t
    by (simp add: two_jobs_def)
  moreover have "writer_step two_jobs ?s3 ?s4" using writer_step.replace [of ?s3 1 two_jobs] t
    by (simp add: two_jobs_def fun_upd_twist)
  moreover have "writer_step two_jobs ?s4 after_two" using writer_step.no_clean [of ?s4 1 True two_jobs]
    by (simp add: after_two_def)
  ultimately show ?thesis unfolding writing_def
    by (meson converse_rtranclp_into_rtranclp rtranclp.rtrancl_refl)
qed

theorem records_are_replaced_whole_witness:
  "disk after_two ''/s/r.json'' = Some ''n''"
proof -
  have "at_phase after_two 1 = Ended True" "target (two_jobs 1) = ''/s/r.json''"
    by (simp_all add: after_two_def two_jobs_def)
  then obtain q where "disk after_two ''/s/r.json'' = Some (contents (two_jobs q))"
    using records_are_replaced_whole [OF two_jobs_apart after_two_reached] by metis
  then show ?thesis by (simp add: after_two_def)
qed

text \<open>The outcome of a whole replacement that nothing else runs beside: \<open>accepts\<close> says whether every call of
  it succeeded.\<close>

definition atomic_write :: "(str \<Rightarrow> str \<Rightarrow> bool) \<Rightarrow> str \<Rightarrow> str \<Rightarrow> files \<Rightarrow> bool \<times> files" where
  "atomic_write accepts path new fs = (if accepts path new then (True, fs(path \<mapsto> new)) else (False, fs))"

lemma atomic_write_cases:
  "snd (atomic_write accepts path new fs) f = Some c \<Longrightarrow> f = path \<and> c = new \<or> fs f = Some c"
  by (auto simp: atomic_write_def split: if_splits)

section \<open>Records kept one file each\<close>

datatype ('k, 'v) action = Put 'k 'v | Forget 'k

fun acted :: "('k \<Rightarrow> 'v \<Rightarrow> 'w \<Rightarrow> 'w) \<Rightarrow> ('k \<Rightarrow> 'w \<Rightarrow> 'w) \<Rightarrow> ('k, 'v) action list \<Rightarrow> 'w \<Rightarrow> 'w" where
  "acted put gone [] w = w"
| "acted put gone (Put k v # as) w = acted put gone as (put k v w)"
| "acted put gone (Forget k # as) w = acted put gone as (gone k w)"

text \<open>What a client relies on: a read answers what was put - as far as a document read back is the one
  written, which is \<open>came_back\<close> - or what was there, and never what was forgotten.\<close>

locale kept_records =
  fixes read :: "'w \<Rightarrow> 'k \<Rightarrow> 'v option"
    and put :: "'k \<Rightarrow> 'v \<Rightarrow> 'w \<Rightarrow> 'w"
    and forget :: "'k \<Rightarrow> 'w \<Rightarrow> 'w"
    and came_back :: "'k \<times> 'v \<Rightarrow> 'k \<times> 'v \<Rightarrow> bool"
  assumes read_put: "read (put k v w) l = Some u \<Longrightarrow> came_back (k, v) (l, u) \<or> read w l = Some u"
    and read_forget: "read (forget k w) l = Some u \<Longrightarrow> l \<noteq> k \<and> read w l = Some u"
begin

lemma read_acted:
  "read (acted put forget as w) l = Some u \<Longrightarrow>
   (\<exists>before k v after. as = before @ Put k v # after \<and> came_back (k, v) (l, u) \<and> Forget l \<notin> set after) \<or>
   read w l = Some u \<and> Forget l \<notin> set as"
proof (induction as arbitrary: w)
  case (Cons a as)
  have split: "(\<exists>before k v after. a # as = before @ Put k v # after \<and> came_back (k, v) (l, u) \<and> Forget l \<notin> set after) \<or>
      read w' l = Some u \<and> Forget l \<notin> set as"
    if "read (acted put forget as w') l = Some u" for w'
    using Cons.IH [OF that] by (metis append_Cons)
  show ?case
  proof (cases a)
    case (Put k v)
    with Cons.prems split [of "put k v w"] read_put [of k v w l u] show ?thesis by fastforce
  next
    case (Forget k)
    with Cons.prems split [of "forget k w"] read_forget [of k w l u] show ?thesis by fastforce
  qed
qed simp

end

end
