(* ===== verification/Verdicts.thy ===== *)
theory Verdicts
  imports Retirement Files
begin

text \<open>
  What a pass remembers of the branches it judged (\<open>verdict.rs\<close>): the key a verdict was derived
  under, the host's answers, and the records, one file for each identity and branch. The JSON of a
  record, the digest that names its file and the disk are parameters.
\<close>

section \<open>Keys and answers\<close>

datatype asking = AskingHost | AskingRecords

record keyed_copy =
  keyed_kind :: holder_kind
  keyed_location :: str
  keyed_tip :: str

record key =
  k_identity :: str
  k_branch :: str
  k_base :: str
  k_base_tip :: str
  k_copies :: "keyed_copy list"
  k_unreadable :: "str list"
  k_records :: str
  k_session :: "str option"
  k_landed_trailer :: str
  k_asking :: asking

datatype 'a reply = NotAsked | Answered 'a | ReplyFailed

record merged_change =
  merged_commit :: str
  merged_head :: str

datatype change_state = IsOpen | NotOpen

record host_answer =
  merged :: "merged_change option reply"
  still_open :: "change_state reply"

definition not_asked :: host_answer where
  "not_asked = \<lparr>merged = NotAsked, still_open = NotAsked\<rparr>"

definition answer_failed :: "host_answer \<Rightarrow> bool" where
  "answer_failed a \<longleftrightarrow> merged a = ReplyFailed \<or> still_open a = ReplyFailed"

definition reported_merge :: "host_answer \<Rightarrow> merged_change option" where
  "reported_merge a = (case merged a of Answered (Some m) \<Rightarrow> Some m | _ \<Rightarrow> None)"

definition same_as :: "host_answer \<Rightarrow> host_answer \<Rightarrow> bool" where
  "same_as a b \<longleftrightarrow> reported_merge a = reported_merge b \<and> still_open a = still_open b"

datatype reached = Early | Concluded

record verdict =
  retirement :: retirement
  reached :: reached
  consulted :: bool
  host :: host_answer

section \<open>Records\<close>

record stored =
  format :: nat
  writer :: str
  keyed :: key
  stored_verdict :: verdict

text \<open>The document format, and the build that is running (\<open>CARGO_PKG_VERSION\<close>).\<close>

definition FORMAT :: nat where "FORMAT = 2"

record verdict_store =
  directory :: str
  this_build :: str
  digest :: "str \<Rightarrow> str"
  print_json :: "stored \<Rightarrow> str option"
  read_json :: "str \<Rightarrow> stored option"
  accepts :: "str \<Rightarrow> str \<Rightarrow> bool"

record kept_verdicts =
  files :: files
  unwritten :: "(str \<times> str) list"

definition verdict_path :: "verdict_store \<Rightarrow> str \<Rightarrow> str \<Rightarrow> str" where
  "verdict_path st i b = path_join (directory st) (digest st (i @ NL @ b) @ ''.json'')"

definition verdict_read :: "verdict_store \<Rightarrow> kept_verdicts \<Rightarrow> key \<Rightarrow> verdict option" where
  "verdict_read st w k =
     Option.bind (files w (verdict_path st (k_identity k) (k_branch k))) (\<lambda>t.
     Option.bind (read_json st t) (\<lambda>r.
       if format r = FORMAT \<and> writer r = this_build st \<and> keyed r = k then Some (stored_verdict r) else None))"

definition verdict_record :: "verdict_store \<Rightarrow> key \<Rightarrow> verdict \<Rightarrow> stored" where
  "verdict_record st k v = \<lparr>format = FORMAT, writer = this_build st, keyed = k, stored_verdict = v\<rparr>"

definition verdict_write :: "verdict_store \<Rightarrow> key \<Rightarrow> verdict \<Rightarrow> kept_verdicts \<Rightarrow> kept_verdicts" where
  "verdict_write st k v w =
     (let lost = w\<lparr>unwritten := unwritten w @ [(k_branch k, k_identity k)]\<rparr>
      in case print_json st (verdict_record st k v) of
           None \<Rightarrow> lost
         | Some t \<Rightarrow>
             (case atomic_write (accepts st) (verdict_path st (k_identity k) (k_branch k)) (t @ NL) (files w) of
                (True, fs) \<Rightarrow> w\<lparr>files := fs\<rparr>
              | (False, fs) \<Rightarrow> lost\<lparr>files := fs\<rparr>))"

definition verdict_forget :: "verdict_store \<Rightarrow> str \<Rightarrow> str \<Rightarrow> kept_verdicts \<Rightarrow> kept_verdicts" where
  "verdict_forget st i b w = w\<lparr>files := (files w)(verdict_path st i b := None)\<rparr>"

text \<open>A record read back from what was printed of another.\<close>

definition verdict_came_back :: "verdict_store \<Rightarrow> key \<times> verdict \<Rightarrow> key \<times> verdict \<Rightarrow> bool" where
  "verdict_came_back st written got \<longleftrightarrow>
     (\<exists>t. print_json st (verdict_record st (fst written) (snd written)) = Some t \<and>
          read_json st (t @ NL) = Some (verdict_record st (fst got) (snd got)))"

lemma reusable_record:
  "(if format r = FORMAT \<and> writer r = this_build st \<and> keyed r = k then Some (stored_verdict r) else None) = Some v \<longleftrightarrow>
     r = verdict_record st k v"
  by (cases r) (auto simp: verdict_record_def)

lemma verdict_read_Some:
  "verdict_read st w k = Some v \<longleftrightarrow>
     (\<exists>t. files w (verdict_path st (k_identity k) (k_branch k)) = Some t \<and>
          read_json st t = Some (verdict_record st k v))"
  unfolding verdict_read_def bind_eq_Some_conv reusable_record by blast

lemma files_after_write:
  assumes "files (verdict_write st k v w) f = Some t"
  shows "files w f = Some t \<or>
    (\<exists>u. print_json st (verdict_record st k v) = Some u \<and> t = u @ NL)"
  using assms by (auto simp: verdict_write_def atomic_write_def Let_def split: option.splits if_splits)

interpretation verdicts: kept_records "verdict_read st" "verdict_write st"
    "\<lambda>k::key. verdict_forget st (k_identity k) (k_branch k)" "verdict_came_back st" for st
proof
  fix k :: key and v w l u
  assume "verdict_read st (verdict_write st k v w) l = Some u"
  then obtain t where t: "files (verdict_write st k v w) (verdict_path st (k_identity l) (k_branch l)) = Some t"
    "read_json st t = Some (verdict_record st l u)" by (auto simp: verdict_read_Some)
  with files_after_write [OF t(1)]
  show "verdict_came_back st (k, v) (l, u) \<or> verdict_read st w l = Some u"
    by (auto simp: verdict_came_back_def verdict_read_Some)
next
  fix k :: key and w l u
  assume "verdict_read st (verdict_forget st (k_identity k) (k_branch k) w) l = Some u"
  then show "l \<noteq> k \<and> verdict_read st w l = Some u"
    by (auto simp: verdict_read_Some verdict_forget_def split: if_splits)
qed

section \<open>Properties\<close>

text \<open>What serde promises of the documents it prints.\<close>

definition faithful :: "verdict_store \<Rightarrow> bool" where
  "faithful st \<longleftrightarrow> (\<forall>r t. print_json st r = Some t \<longrightarrow> read_json st (t @ NL) = Some r)"

text \<open>What a store remembers, whatever asks: the key and the verdict in the file of an identity and a
  branch, where this build wrote it in its own format.\<close>

definition remembered :: "verdict_store \<Rightarrow> kept_verdicts \<Rightarrow> str \<Rightarrow> str \<Rightarrow> (key \<times> verdict) option" where
  "remembered st w i b =
     Option.bind (files w (verdict_path st i b)) (\<lambda>t. Option.bind (read_json st t) (\<lambda>r.
       if format r = FORMAT \<and> writer r = this_build st then Some (keyed r, stored_verdict r) else None))"

lemma verdict_read_remembered:
  "verdict_read st w k =
     (case remembered st w (k_identity k) (k_branch k) of
        None \<Rightarrow> None | Some (l, v) \<Rightarrow> if l = k then Some v else None)"
  by (auto simp: verdict_read_def remembered_def split: bind_splits option.splits)

lemma remembered_write:
  assumes "faithful st"
  shows "remembered st (verdict_write st k v w) i b =
    (case print_json st (verdict_record st k v) of
       None \<Rightarrow> remembered st w i b
     | Some t \<Rightarrow>
         if verdict_path st i b = verdict_path st (k_identity k) (k_branch k) \<and> accepts st (verdict_path st i b) (t @ NL)
         then Some (k, v) else remembered st w i b)"
  using assms
  by (auto simp: remembered_def verdict_write_def atomic_write_def Let_def faithful_def verdict_record_def
      split: option.splits)

lemma remembered_forget:
  "remembered st (verdict_forget st i b w) j c =
     (if verdict_path st j c = verdict_path st i b then None else remembered st w j c)"
  by (simp add: remembered_def verdict_forget_def)


text \<open>A verdict is only ever reused under the key it was derived under: what a pass reads was recorded
  under a key equal to its own in every field and has not been forgotten since, even where the
  digests of two branches collide and whatever else the records say.\<close>

theorem reused_verdict_was_recorded_under_its_key:
  assumes "faithful st" "files w = Map.empty"
    "verdict_read st
       (acted (verdict_write st) (\<lambda>k::key. verdict_forget st (k_identity k) (k_branch k)) done w) k = Some v"
  shows "\<exists>before after. done = before @ Put k v # after \<and> Forget k \<notin> set after"
proof -
  have "verdict_read st w k = None" using assms(2) by (simp add: verdict_read_def)
  then obtain before l u after where parts: "done = before @ Put l u # after" "Forget k \<notin> set after"
    "verdict_came_back st (l, u) (k, v)"
    using verdicts.read_acted [OF assms(3)] by auto
  then have "verdict_record st l u = verdict_record st k v"
    using assms(1) by (auto simp: verdict_came_back_def faithful_def)
  with parts show ?thesis by (auto simp: verdict_record_def)
qed

text \<open>A store that prints one record, and a branch kept for its unmerged work.\<close>

definition kept_key :: key where
  "kept_key = \<lparr>k_identity = ''h.io/o/n'', k_branch = ''topic'', k_base = ''main'', k_base_tip = ''b1'',
     k_copies = [], k_unreadable = [], k_records = ''r'', k_session = None, k_landed_trailer = ''Onevcs-Landed'',
     k_asking = AskingRecords\<rparr>"

definition kept_verdict :: verdict where
  "kept_verdict = \<lparr>retirement = \<lparr>class_of = Keep, reason = Some UnmergedUniqueCommits, cause = None,
       retired_identity = ''h.io/o/n'', retired_branch = ''topic'', first_tip = ''c1'', judged_base = ''main'',
       proof_of = None, content_free = [], superseding = None, differing_paths = [''a''], holders = []\<rparr>,
     reached = Concluded, consulted = False, host = not_asked\<rparr>"

definition one_store :: verdict_store where
  "one_store =
     (let r = \<lparr>format = FORMAT, writer = ''1.0.0'', keyed = kept_key, stored_verdict = kept_verdict\<rparr>
      in \<lparr>directory = ''/state/verdicts'', this_build = ''1.0.0'', digest = (\<lambda>s. ''d''),
          print_json = (\<lambda>s. if s = r then Some ''{}'' else None),
          read_json = (\<lambda>t. if t = ''{}'' @ NL then Some r else None),
          accepts = (\<lambda>_ _. True)\<rparr>)"

definition nothing_kept :: kept_verdicts where
  "nothing_kept = \<lparr>files = Map.empty, unwritten = []\<rparr>"

lemma one_store_faithful: "faithful one_store"
  by (simp add: faithful_def one_store_def Let_def)

lemma one_store_prints:
  "print_json one_store (verdict_record one_store kept_key kept_verdict) = Some ''{}''" "accepts one_store p t"
  by (simp_all add: one_store_def verdict_record_def Let_def)


theorem reused_verdict_was_recorded_under_its_key_witness:
  "\<exists>before after. [Put kept_key kept_verdict] = before @ Put kept_key kept_verdict # after \<and>
     Forget kept_key \<notin> set after"
proof (rule reused_verdict_was_recorded_under_its_key [where w = nothing_kept, OF one_store_faithful])
  show "files nothing_kept = Map.empty" by (simp add: nothing_kept_def)
  have "verdict_read one_store (verdict_write one_store kept_key kept_verdict nothing_kept) kept_key = Some kept_verdict"
    using remembered_write [OF one_store_faithful, of kept_key kept_verdict nothing_kept] one_store_prints
    by (simp add: verdict_read_remembered)
  then show "verdict_read one_store
      (acted (verdict_write one_store) (\<lambda>k::key. verdict_forget one_store (k_identity k) (k_branch k))
        [Put kept_key kept_verdict] nothing_kept) kept_key = Some kept_verdict" by simp
qed

end
