(* ===== verification/Refs.thy ===== *)
theory Refs
  imports GitReads
begin

text \<open>
  Where branches stand (\<open>git.rs\<close>): the listings of a repository's branches, of a remote's and of the
  worktrees, the tip of one branch here and on a remote, the compare-and-delete of a branch and its
  restoration, what a push reports, and the quoting of a shell word. Each is the arguments of a git
  command and the reading of its answer; what \<open>native_refs\<close> reads off the disk without git is a
  parameter.
\<close>

section \<open>What is read off the disk\<close>

record on_disk =
  is_there :: bool                                          \<comment> \<open>\<open>cwd.exists()\<close>\<close>
  disk_heads :: "(str \<times> str) list option"
  disk_remote_heads :: "str \<Rightarrow> (str \<rightharpoonup> str) option"
  disk_raw_tip :: "str \<Rightarrow> str option option"
  disk_tip :: "str \<Rightarrow> str option option"
  disk_symbolic :: "str \<Rightarrow> str option option"
  disk_advertised :: "str \<Rightarrow> str option"
  disk_worktrees :: "(str \<times> str option) list option"     \<comment> \<open>\<open>native_refs::worktrees\<close>\<close>
  has_githooks :: bool

definition heads_ref :: "str \<Rightarrow> str" where "heads_ref branch = ''refs/heads/'' @ branch"

section \<open>Listings\<close>

definition pairs_of :: "str \<Rightarrow> (str \<times> str) list" where
  "pairs_of printed = filter_map (split_once NUL) (lines printed)"

definition heads :: "git \<Rightarrow> on_disk \<Rightarrow> git_error + (str \<times> str) list" where
  "heads g d =
     (case disk_heads d of
        Some hs \<Rightarrow> Ok hs
      | None \<Rightarrow>
          and_then (checked g [''for-each-ref'', ''--format=%(refname:short)%00%(objectname)'', ''refs/heads''])
            (\<lambda>r. Ok (pairs_of (stdout r))))"

definition remote_heads :: "git \<Rightarrow> on_disk \<Rightarrow> str \<Rightarrow> git_error + (str \<rightharpoonup> str)" where
  "remote_heads g d remote =
     (case disk_remote_heads d remote of
        Some hs \<Rightarrow> Ok hs
      | None \<Rightarrow>
          (let prefix = ''refs/remotes/'' @ remote @ ''/''
           in and_then (checked g [''for-each-ref'', ''--format=%(refname)%00%(objectname)'', prefix]) (\<lambda>r.
                Ok (map_of (rev (filter (\<lambda>(n, _). n \<noteq> ''HEAD'')
                  (filter_map (\<lambda>(n, t). map_option (\<lambda>n. (n, t)) (strip_prefix prefix n)) (pairs_of (stdout r)))))))))"

text \<open>The loop over the fields of \<open>worktree list --porcelain -z\<close>: the record being read, and the records
  that ended with an empty field.\<close>

fun worktree_fields ::
    "str list \<Rightarrow> str option \<Rightarrow> str option \<Rightarrow> (str \<times> str option) list" where
  "worktree_fields [] path branch = (case path of None \<Rightarrow> [] | Some p \<Rightarrow> [(p, branch)])"
| "worktree_fields (f # fs) path branch =
     (if f = [] then
        (case path of None \<Rightarrow> worktree_fields fs None branch
         | Some p \<Rightarrow> (p, branch) # worktree_fields fs None None)
      else case strip_prefix ''worktree '' f of
        Some p \<Rightarrow> worktree_fields fs (Some p) branch
      | None \<Rightarrow>
          (case strip_prefix ''branch refs/heads/'' f of
             Some b \<Rightarrow> worktree_fields fs path (Some b)
           | None \<Rightarrow> worktree_fields fs path branch))"

definition worktrees :: "git \<Rightarrow> on_disk \<Rightarrow> git_error + (str \<times> str option) list" where
  "worktrees g d =
     (case disk_worktrees d of
        Some ws \<Rightarrow> Ok ws
      | None \<Rightarrow> and_then (checked g [''worktree'', ''list'', ''--porcelain'', ''-z''])
                  (\<lambda>r. Ok (worktree_fields (split_on NUL (stdout r)) None None)))"

section \<open>One branch\<close>

datatype tip_here = LocalAt str | LocalAbsent | LocalUnreadable str

definition git_error_text :: "git_error \<Rightarrow> str" where
  "git_error_text e = (case e of NotRun s \<Rightarrow> s | CommandFailed _ _ s \<Rightarrow> s | Unreadable _ s \<Rightarrow> s | ListedShort _ _ \<Rightarrow> [])"

definition local_tip :: "git \<Rightarrow> on_disk \<Rightarrow> str \<Rightarrow> tip_here" where
  "local_tip g d branch =
     (if \<not> is_there d then LocalAbsent
      else case disk_raw_tip d (heads_ref branch) of
        Some t \<Rightarrow> (case Option.bind t object_id of Some t \<Rightarrow> LocalAt t | None \<Rightarrow> LocalAbsent)
      | None \<Rightarrow>
          (case runs g [''for-each-ref'', ''--format=%(objectname)'', heads_ref branch] of
             Inl e \<Rightarrow> LocalUnreadable (git_error_text e)
           | Inr r \<Rightarrow>
               (if \<not> ran_ok r then LocalUnreadable (diagnostic r)
                else if trimmed r = [] then LocalAbsent
                else case object_id (trimmed r) of
                       Some t \<Rightarrow> LocalAt t
                     | None \<Rightarrow> LocalUnreadable (trimmed r))))"

definition advertised :: "str \<Rightarrow> str \<Rightarrow> str option" where
  "advertised listing reference =
     (case filter (\<lambda>l. trim l \<noteq> []) (lines listing) of
        [l] \<Rightarrow> Option.bind (split_once TAB l) (\<lambda>(i, named). if named = reference then object_id i else None)
      | _ \<Rightarrow> None)"

definition remote_tip :: "git \<Rightarrow> str \<Rightarrow> str \<Rightarrow> git_error + remote_tip" where
  "remote_tip g remote branch =
     and_then (runs g [''ls-remote'', ''--exit-code'', remote, heads_ref branch]) (\<lambda>r.
       Ok (if exit_status r = 0
           then (case advertised (stdout r) (heads_ref branch) of Some t \<Rightarrow> TipAt t | None \<Rightarrow> TipUnknown)
           else if exit_status r = 2 then TipAbsent else TipUnknown))"

definition listed_branch :: "str \<Rightarrow> (str \<times> str) option" where
  "listed_branch l =
     Option.bind (split_once TAB l) (\<lambda>(i, reference).
     Option.bind (strip_prefix ''refs/heads/'' reference) (\<lambda>b. map_option (Pair b) (object_id i)))"

definition remote_branch_tips :: "git \<Rightarrow> str \<Rightarrow> git_error + (str \<rightharpoonup> str) option" where
  "remote_branch_tips g remote =
     and_then (runs g [''ls-remote'', ''--heads'', remote]) (\<lambda>r.
       if \<not> ran_ok r then Ok None
       else Ok (map_option (\<lambda>ps. map_of (rev ps))
                  (collect_opt listed_branch (filter (\<lambda>l. trim l \<noteq> []) (lines (stdout r))))))"

definition commit_message :: "git \<Rightarrow> str \<Rightarrow> git_error + str option" where
  "commit_message g commit =
     (if \<not> has_commit g commit then Ok None
      else and_then (checked g [''log'', ''-1'', ''--format=%B'', commit, ''--'']) (\<lambda>r. Ok (Some (trim_end (stdout r)))))"

definition ref_exists :: "git \<Rightarrow> on_disk \<Rightarrow> str \<Rightarrow> bool" where
  "ref_exists g d reference =
     (case disk_tip d reference of
        Some t \<Rightarrow> t \<noteq> None
      | None \<Rightarrow> (case runs g [''show-ref'', ''--verify'', ''--quiet'', reference] of Inl _ \<Rightarrow> False | Inr r \<Rightarrow> ran_ok r))"

definition tip_at :: "git \<Rightarrow> on_disk \<Rightarrow> str \<Rightarrow> str option" where
  "tip_at g d reference =
     (case disk_tip d reference of
        Some t \<Rightarrow> t
      | None \<Rightarrow> (case runs g [''rev-parse'', ''--verify'', reference @ ''^{commit}''] of
                  Inl _ \<Rightarrow> None | Inr r \<Rightarrow> if ran_ok r then Some (trimmed r) else None))"

section \<open>The default branch of a remote\<close>

definition tracked_head :: "git \<Rightarrow> on_disk \<Rightarrow> str \<Rightarrow> git_error + str option" where
  "tracked_head g d remote =
     (let prefix = ''refs/remotes/'' @ remote @ ''/'';
          there = (\<lambda>b. ref_exists g d (prefix @ b))
      in case disk_symbolic d (prefix @ ''HEAD'') of
           Some target \<Rightarrow> Ok (case Option.bind target (strip_prefix prefix) of
                               Some b \<Rightarrow> if there b then Some b else None | None \<Rightarrow> None)
         | None \<Rightarrow>
             and_then (runs g [''symbolic-ref'', ''--short'', prefix @ ''HEAD'']) (\<lambda>r.
               case strip_prefix (remote @ ''/'') (trimmed r) of
                 None \<Rightarrow> Ok None
               | Some b \<Rightarrow> Ok (if ref_exists g d (''refs/remotes/'' @ trimmed r) then Some b else None)))"

definition advertised_head :: "git \<Rightarrow> on_disk \<Rightarrow> str \<Rightarrow> git_error + str option" where
  "advertised_head g d remote =
     (case disk_advertised d remote of
        Some b \<Rightarrow> Ok (Some b)
      | None \<Rightarrow>
          and_then (runs g [''ls-remote'', ''--symref'', remote, ''HEAD'']) (\<lambda>r.
            if \<not> ran_ok r then Ok None
            else Ok (find_map (\<lambda>l. Option.bind (strip_prefix ''ref: refs/heads/'' l) (\<lambda>rest.
                   let b = hd (split_on TAB rest) in if b = [] then None else Some b)) (lines (stdout r)))))"

datatype branch_error = BranchGit git_error | NoDefaultBranch "str list"

definition default_branch :: "git \<Rightarrow> on_disk \<Rightarrow> str \<Rightarrow> branch_error + str" where
  "default_branch g d remote =
     (case tracked_head g d remote of
        Inl e \<Rightarrow> Err (BranchGit e)
      | Inr (Some b) \<Rightarrow> Ok b
      | Inr None \<Rightarrow>
     (case advertised_head g d remote of
        Inl e \<Rightarrow> Err (BranchGit e)
      | Inr (Some b) \<Rightarrow> Ok b
      | Inr None \<Rightarrow>
     (case checked g [''for-each-ref'', ''--format=%(refname:strip=3)'', ''refs/remotes/'' @ remote] of
        Inl e \<Rightarrow> Err (BranchGit e)
      | Inr r \<Rightarrow>
          (case sorted_list_of_set (set (filter (\<lambda>l. l \<noteq> [] \<and> l \<noteq> ''HEAD'') (lines (stdout r)))) of
             [b] \<Rightarrow> Ok b
           | [] \<Rightarrow>
               (case runs g [''symbolic-ref'', ''--quiet'', ''--short'', ''HEAD''] of
                  Inl e \<Rightarrow> Err (BranchGit e)
                | Inr c \<Rightarrow> if trimmed c \<noteq> [] then Ok (trimmed c) else Err (NoDefaultBranch []))
           | bs \<Rightarrow> Err (NoDefaultBranch bs)))))"

section \<open>Deleting and restoring\<close>

definition delete_args :: "str \<Rightarrow> str \<Rightarrow> str list" where
  "delete_args branch expected = [''update-ref'', ''-d'', heads_ref branch, expected]"

definition delete_branch_at :: "git \<Rightarrow> str \<Rightarrow> str \<Rightarrow> git_error + unit" where
  "delete_branch_at g branch expected = and_then (checked g (delete_args branch expected)) (\<lambda>_. Ok ())"

definition restore_args :: "str \<Rightarrow> str \<Rightarrow> str list" where
  "restore_args branch commit = [''update-ref'', heads_ref branch, commit, []]"

definition restore_branch :: "git \<Rightarrow> str \<Rightarrow> str \<Rightarrow> git_error + unit" where
  "restore_branch g branch commit = and_then (checked g (restore_args branch commit)) (\<lambda>_. Ok ())"

datatype pushed = Accepted str | Refused str "str list"

definition combined :: "ran \<Rightarrow> str" where
  "combined r = stdout r @ stderr r"

definition refused_ref :: "str \<Rightarrow> str option" where
  "refused_ref l =
     (case split_on TAB l of
        flag # mapping # _ \<Rightarrow> if flag = ''!'' then map_option snd (split_once (CHR '':'') mapping) else None
      | _ \<Rightarrow> None)"

definition refused_refs :: "str \<Rightarrow> str list" where
  "refused_refs printed = filter_map refused_ref (lines printed)"

definition read_push :: "ran \<Rightarrow> pushed" where
  "read_push r = (if ran_ok r then Accepted (combined r) else Refused (combined r) (refused_refs (stdout r)))"

definition refused_branch :: "pushed \<Rightarrow> str \<Rightarrow> bool" where
  "refused_branch p branch =
     (case p of Accepted _ \<Rightarrow> False | Refused _ refs \<Rightarrow> heads_ref branch \<in> set refs)"

definition refusal :: "pushed \<Rightarrow> str option" where
  "refusal p =
     (case p of Accepted _ \<Rightarrow> None
      | Refused printed _ \<Rightarrow>
          Option.bind (List.find (starts_with (CHR ''!'' # [TAB])) (lines printed)) (\<lambda>l.
            let fs = split_on TAB l in if length fs > 2 then Some (fs ! 2) else None))"

definition remote_delete_args :: "str \<Rightarrow> str \<Rightarrow> str \<Rightarrow> str list" where
  "remote_delete_args remote branch expected =
     [''push'', ''--porcelain'', ''--no-verify'',
      ''--force-with-lease='' @ heads_ref branch @ '':'' @ expected, ''--delete'', remote, heads_ref branch]"

definition delete_remote_branch :: "git \<Rightarrow> str \<Rightarrow> str \<Rightarrow> str \<Rightarrow> git_error + pushed" where
  "delete_remote_branch g remote branch expected =
     and_then (runs g (remote_delete_args remote branch expected)) (\<lambda>r. Ok (read_push r))"

section \<open>Hooks\<close>

definition configured_hooks :: "git \<Rightarrow> git_error + str option" where
  "configured_hooks g =
     and_then (runs g [''config'', ''--get'', ''core.hooksPath'']) (\<lambda>r.
       Ok (if trimmed r = [] then None else Some (trimmed r)))"

definition carried_hooks :: "git \<Rightarrow> on_disk \<Rightarrow> git_error + str option" where
  "carried_hooks g d =
     and_then (configured_hooks g) (\<lambda>c.
       Ok (case c of Some p \<Rightarrow> Some p | None \<Rightarrow> if has_githooks d then Some ''.githooks'' else None))"

definition QUOTE :: char where "QUOTE = CHR 0x27"
definition BACKSLASH :: char where "BACKSLASH = CHR 0x5C"

definition shell_quoted :: "str \<Rightarrow> str" where
  "shell_quoted value =
     QUOTE # concat (map (\<lambda>c. if c = QUOTE then [QUOTE, BACKSLASH, QUOTE, QUOTE] else [c]) value) @ [QUOTE]"

definition merge_would_conflict :: "git \<Rightarrow> str \<Rightarrow> str \<Rightarrow> git_error + bool" where
  "merge_would_conflict g base branch =
     and_then (runs g [''merge-tree'', ''--write-tree'', base, branch]) (\<lambda>r.
       if exit_status r = 0 then Ok False else if exit_status r = 1 then Ok True
       else Err (CommandFailed [''merge-tree'', ''--write-tree'', base, branch] (exit_status r) (diagnostic r)))"

section \<open>Reading listings back\<close>

text \<open>One record of \<open>worktree list --porcelain -z\<close>: the path, the commit, the branch where one is checked
  out, and whatever else git says of it.\<close>

record shown_worktree =
  shown_at :: str
  shown_head :: str
  shown_branch :: "str option"
  shown_more :: "str list"

definition shown_fields :: "shown_worktree \<Rightarrow> str list" where
  "shown_fields w =
     [''worktree '' @ shown_at w, ''HEAD '' @ shown_head w] @
     (case shown_branch w of None \<Rightarrow> [''detached''] | Some b \<Rightarrow> [''branch refs/heads/'' @ b]) @ shown_more w @ [[]]"

definition showable :: "shown_worktree \<Rightarrow> bool" where
  "showable w \<longleftrightarrow>
     (\<forall>f \<in> set (shown_fields w). NUL \<notin> set f) \<and>
     (\<forall>f \<in> set (shown_more w). f \<noteq> [] \<and> strip_prefix ''worktree '' f = None \<and>
        strip_prefix ''branch refs/heads/'' f = None)"

definition shown :: "shown_worktree list \<Rightarrow> str" where
  "shown ws = concat (map (\<lambda>f. f @ [NUL]) (concat (map shown_fields ws)))"

lemma split_on_ended:
  "\<forall>f \<in> set fs. d \<notin> set f \<Longrightarrow> split_on d (concat (map (\<lambda>f. f @ [d]) fs)) = fs @ [[]]"
  by (induction fs) (auto simp: split_on_append)

lemma worktree_fields_more:
  "\<forall>f \<in> set fs. f \<noteq> [] \<and> strip_prefix ''worktree '' f = None \<and> strip_prefix ''branch refs/heads/'' f = None \<Longrightarrow>
   worktree_fields (fs @ rest) path branch = worktree_fields rest path branch"
  by (induction fs) auto

lemma field_worktree: "worktree_fields ((''worktree '' @ p) # fs) path b = worktree_fields fs (Some p) b"
  using strip_prefix_append(1) [of "''worktree ''" p] by simp

lemma field_head: "worktree_fields ((''HEAD '' @ h) # fs) path b = worktree_fields fs path b"
  by (simp add: strip_prefix_def starts_with_def)

lemma field_detached: "worktree_fields (''detached'' # fs) path b = worktree_fields fs path b"
  by (simp add: strip_prefix_def starts_with_def)

lemma field_branch: "worktree_fields ((''branch refs/heads/'' @ n) # fs) path b = worktree_fields fs path (Some n)"
  using strip_prefix_append(1) [of "''branch refs/heads/''" n] by (simp add: strip_prefix_def starts_with_def)

lemma worktree_fields_shown:
  assumes "showable w"
  shows "worktree_fields (shown_fields w @ rest) None None =
    (shown_at w, shown_branch w) # worktree_fields rest None None"
proof -
  have more: "worktree_fields (shown_more w @ [[]] @ rest) (Some (shown_at w)) b =
      (shown_at w, b) # worktree_fields rest None None" for b
    using assms worktree_fields_more [of "shown_more w"] by (simp add: showable_def)
  show ?thesis
  proof (cases "shown_branch w")
    case None
    have "worktree_fields (shown_fields w @ rest) None None = worktree_fields
        ((''worktree '' @ shown_at w) # (''HEAD '' @ shown_head w) # ''detached'' # shown_more w @ [[]] @ rest) None None"
      by (simp add: shown_fields_def None)
    also have "\<dots> = worktree_fields ((''HEAD '' @ shown_head w) # ''detached'' # shown_more w @ [[]] @ rest)
        (Some (shown_at w)) None" by (rule field_worktree)
    also have "\<dots> = (shown_at w, shown_branch w) # worktree_fields rest None None"
      unfolding field_head field_detached None by (rule more)
    finally show ?thesis .
  next
    case (Some b)
    have "worktree_fields (shown_fields w @ rest) None None = worktree_fields
        ((''worktree '' @ shown_at w) # (''HEAD '' @ shown_head w) # (''branch refs/heads/'' @ b) #
          shown_more w @ [[]] @ rest) None None"
      by (simp add: shown_fields_def Some)
    also have "\<dots> = worktree_fields ((''HEAD '' @ shown_head w) # (''branch refs/heads/'' @ b) #
        shown_more w @ [[]] @ rest) (Some (shown_at w)) None" by (rule field_worktree)
    also have "\<dots> = (shown_at w, shown_branch w) # worktree_fields rest None None"
      unfolding field_head field_branch Some by (rule more)
    finally show ?thesis .
  qed
qed

lemma worktree_fields_all:
  "list_all showable ws \<Longrightarrow>
   worktree_fields (concat (map shown_fields ws) @ [[]]) None None = map (\<lambda>w. (shown_at w, shown_branch w)) ws"
  by (induction ws) (simp_all add: worktree_fields_shown)

section \<open>Reading a quoted word\<close>

text \<open>How a POSIX shell reads one word: text between single quotes as it is, a backslash before a
  character as that character, up to the first blank outside quotes.\<close>

fun shell_word :: "bool \<Rightarrow> str \<Rightarrow> (str \<times> str) option" where
  "shell_word quoted [] = (if quoted then None else Some ([], []))"
| "shell_word True (c # s) = (if c = QUOTE then shell_word False s else map_option (apfst (Cons c)) (shell_word True s))"
| "shell_word False (c # s) =
     (if c = QUOTE then shell_word True s
      else if c = CHR '' '' then Some ([], s)
      else if c = BACKSLASH then (case s of [] \<Rightarrow> None | d # t \<Rightarrow> map_option (apfst (Cons d)) (shell_word False t))
      else map_option (apfst (Cons c)) (shell_word False s))"

lemma shell_word_inside:
  "shell_word True (concat (map (\<lambda>c. if c = QUOTE then [QUOTE, BACKSLASH, QUOTE, QUOTE] else [c]) v) @ QUOTE # r) =
     map_option (apfst ((@) v)) (shell_word False r)"
  by (induction v) (auto simp: QUOTE_def BACKSLASH_def option.map_comp comp_def apfst_def map_prod_def split_def
      option.map_ident intro!: option.map_cong0)

section \<open>Properties\<close>

text \<open>The listing of a repository's worktrees is read back as it is: every worktree, in order, with the
  branch it has checked out, or none where it is detached, whatever else git says of one.\<close>

theorem worktrees_read_back:
  assumes "disk_worktrees d = None" "runs g [''worktree'', ''list'', ''--porcelain'', ''-z''] = Ok r"
    "exit_status r = 0" "stdout r = shown ws" "list_all showable ws"
  shows "worktrees g d = Ok (map (\<lambda>w. (shown_at w, shown_branch w)) ws)"
proof -
  have "split_on NUL (shown ws) = concat (map shown_fields ws) @ [[]]"
    unfolding shown_def using assms(5) by (intro split_on_ended) (auto simp: list_all_iff showable_def)
  with assms worktree_fields_all show ?thesis by (simp add: worktrees_def checked_def ran_ok_def)
qed

text \<open>What a remote says of its branches is believed whole or not at all: an answer that is taken
  names, for every line of it that is not blank, a branch and its complete commit id, and holds
  nothing no line says; one line that is anything else leaves the whole answer unknown.\<close>

theorem remote_listing_whole_or_unknown:
  assumes "runs g [''ls-remote'', ''--heads'', remote] = Ok r" "exit_status r = 0"
  defines "said \<equiv> filter (\<lambda>l. trim l \<noteq> []) (lines (stdout r))"
  shows "case remote_branch_tips g remote of
      Inr (Some tips) \<Rightarrow>
        (\<forall>l \<in> set said. \<exists>b t. listed_branch l = Some (b, t) \<and> b \<in> dom tips) \<and>
        (\<forall>b t. tips b = Some t \<longrightarrow> object_id t = Some t \<and> (\<exists>l \<in> set said. listed_branch l = Some (b, t)))
    | Inr None \<Rightarrow> \<exists>l \<in> set said. listed_branch l = None
    | Inl _ \<Rightarrow> False"
proof -
  have b: "remote_branch_tips g remote = Ok (map_option (\<lambda>ps. map_of (rev ps)) (collect_opt listed_branch said))"
    using assms(1,2) by (simp add: remote_branch_tips_def ran_ok_def said_def)
  show ?thesis
  proof (cases "collect_opt listed_branch said")
    case None
    then have "\<exists>l \<in> set said. listed_branch l = None"
      by (induction said) (auto split: option.splits)
    with b None show ?thesis by simp
  next
    case (Some ps)
    then have all: "list_all2 (\<lambda>l p. listed_branch l = Some p) said ps" by (simp add: collect_opt_Some)
    have "\<exists>b t. listed_branch l = Some (b, t) \<and> b \<in> dom (map_of (rev ps))" if "l \<in> set said" for l
    proof -
      from that obtain n where n: "n < length said" "l = said ! n" by (auto simp: in_set_conv_nth)
      with all have "listed_branch l = Some (ps ! n)" "n < length ps" by (auto simp: list_all2_conv_all_nth)
      then obtain b t where p: "(b, t) \<in> set ps" "listed_branch l = Some (b, t)"
        by (metis nth_mem prod.exhaust)
      then have "b \<in> dom (map_of (rev ps))" using image_eqI [of b fst "(b, t)" "set ps"] by (simp add: dom_map_of_conv_image_fst)
      with p show ?thesis by blast
    qed
    moreover have "object_id t = Some t \<and> (\<exists>l \<in> set said. listed_branch l = Some (b, t))"
      if "map_of (rev ps) b = Some t" for b t
    proof -
      from that have "(b, t) \<in> set ps" using map_of_SomeD by fastforce
      then obtain n where "n < length ps" "ps ! n = (b, t)" by (auto simp: in_set_conv_nth)
      with all have "n < length said" "listed_branch (said ! n) = Some (b, t)" by (auto simp: list_all2_conv_all_nth)
      then obtain l where l: "l \<in> set said" "listed_branch l = Some (b, t)" by (metis nth_mem)
      then have "object_id t = Some t" by (auto simp: listed_branch_def bind_eq_Some_conv object_id_def split: if_splits)
      with l show ?thesis by blast
    qed
    ultimately show ?thesis using b Some by simp
  qed
qed

text \<open>A repository with a worktree of its own and a linked one, whose remote has one branch.\<close>

definition answering :: "(str list \<rightharpoonup> str) \<Rightarrow> git" where
  "answering says =
     \<lparr>runs = (\<lambda>args. case says args of Some printed \<Rightarrow> answered 0 printed | None \<Rightarrow> Err (NotRun [])),
      tip_of = (\<lambda>_. None), knows_reach = (\<lambda>_ _. None), knows_commit = (\<lambda>_. None), merged_before = (\<lambda>_ _. None)\<rparr>"

definition nothing_read :: on_disk where
  "nothing_read = \<lparr>is_there = True, disk_heads = None, disk_remote_heads = (\<lambda>_. None), disk_raw_tip = (\<lambda>_. None),
     disk_tip = (\<lambda>_. None), disk_symbolic = (\<lambda>_. None), disk_advertised = (\<lambda>_. None), disk_worktrees = None,
     has_githooks = False\<rparr>"

definition two_worktrees :: "shown_worktree list" where
  "two_worktrees =
     [\<lparr>shown_at = ''/r'', shown_head = ''c1'', shown_branch = None, shown_more = []\<rparr>,
      \<lparr>shown_at = ''/w'', shown_head = ''c2'', shown_branch = Some ''topic'', shown_more = [''locked'']\<rparr>]"

theorem worktrees_read_back_witness:
  "worktrees (answering [[''worktree'', ''list'', ''--porcelain'', ''-z''] \<mapsto> shown two_worktrees]) nothing_read =
     Ok [(''/r'', None), (''/w'', Some ''topic'')]"
proof -
  let ?g = "answering [[''worktree'', ''list'', ''--porcelain'', ''-z''] \<mapsto> shown two_worktrees]"
  let ?r = "\<lparr>exit_status = 0, stdout = shown two_worktrees, stderr = [], read_failures = []\<rparr>"
  have "list_all showable two_worktrees"
    by (simp add: two_worktrees_def showable_def shown_fields_def NUL_def strip_prefix_def starts_with_def)
  then have "worktrees ?g nothing_read = Ok (map (\<lambda>w. (shown_at w, shown_branch w)) two_worktrees)"
    using worktrees_read_back [of nothing_read ?g ?r two_worktrees]
    by (simp add: nothing_read_def answering_def answered_def)
  then show ?thesis by (simp add: two_worktrees_def)
qed

text \<open>A quoted word is the word: whatever a path contains, a shell reads back exactly it, and stops
  there.\<close>

theorem shell_reads_the_quoted_word:
  "shell_word False (shell_quoted v @ CHR '' '' # rest) = Some (v, rest)"
  using shell_word_inside [of v "CHR '' '' # rest"]
  by (simp add: shell_quoted_def QUOTE_def)

definition zeros :: str where "zeros = replicate 40 (CHR ''0'')"

theorem remote_listing_whole_or_unknown_witness:
  "case remote_branch_tips (answering [[''ls-remote'', ''--heads'', ''origin''] \<mapsto> zeros @ TAB # ''refs/heads/main'']) ''origin'' of
      Inr (Some tips) \<Rightarrow>
        (\<forall>l \<in> {zeros @ TAB # ''refs/heads/main''}. \<exists>b t. listed_branch l = Some (b, t) \<and> b \<in> dom tips)
    | _ \<Rightarrow> True"
proof -
  let ?l = "zeros @ TAB # ''refs/heads/main''"
  let ?g = "answering [[''ls-remote'', ''--heads'', ''origin''] \<mapsto> ?l]"
  have "lines ?l = [?l]" "trim ?l \<noteq> []" unfolding zeros_def TAB_def by code_simp+
  then show ?thesis
    using remote_listing_whole_or_unknown
      [of ?g "''origin''" "\<lparr>exit_status = 0, stdout = ?l, stderr = [], read_failures = []\<rparr>"]
    by (auto simp: answering_def answered_def split: sum.splits option.splits)
qed

end
