(* ===== verification/Verified.thy ===== *)
theory Verified
  imports Verdicts Refs Policy "HOL-Library.Product_Lexorder"
begin

text \<open>
  The boundary a publication's verification passed at (\<open>verified.rs\<close>), whether a moved base is merged
  into a branch that exists (\<open>base_merge.rs\<close>), and the publication that is resumed at its boundary
  instead of being verified again (\<open>publish_branch.rs\<close>). The JSON of a record, the digest, the listing
  of a hooks directory and the host are parameters.
\<close>

section \<open>Boundaries\<close>

record boundary =
  b_identity :: str
  b_branch :: str
  b_tip :: str
  b_base :: str
  b_base_commit :: str
  b_inputs :: str
  b_change :: str
  b_change_url :: str

record pushed_branch =
  u_identity :: str
  u_branch :: str
  u_tip :: str
  u_base :: str
  u_base_commit :: str
  u_inputs :: str

record verified_store =
  verified_dir :: str
  sha_hex :: "str \<Rightarrow> str"
  print_boundary :: "boundary \<Rightarrow> str option"
  read_boundary :: "str \<Rightarrow> boundary option"
  print_pushed :: "pushed_branch \<Rightarrow> str option"
  read_pushed :: "str \<Rightarrow> pushed_branch option"
  taken :: "str \<Rightarrow> str \<Rightarrow> bool"             \<comment> \<open>whether a replacement succeeds\<close>
  unread :: "str \<Rightarrow> str option"              \<comment> \<open>a file that is there and cannot be read\<close>
  ref_format :: "str \<Rightarrow> bool"

datatype stored_boundary = NothingStored | UnreadableStored str | FoundStored boundary

definition boundary_path :: "verified_store \<Rightarrow> str \<Rightarrow> str \<Rightarrow> str" where
  "boundary_path st i b = path_join (verified_dir st) (sha_hex st (i @ NL @ b) @ ''.json'')"

definition pushed_path :: "verified_store \<Rightarrow> str \<Rightarrow> str \<Rightarrow> str" where
  "pushed_path st i b = path_join (path_join (verified_dir st) ''pushed'') (sha_hex st (i @ NL @ b) @ ''.json'')"

definition is_sha_hex :: "str \<Rightarrow> bool" where
  "is_sha_hex v \<longleftrightarrow> length v = 64 \<and> list_all (\<lambda>c. is_digit c \<or> (97 \<le> code c \<and> code c \<le> 102)) v"

definition branch_name_ok :: "verified_store \<Rightarrow> str \<Rightarrow> bool" where
  "branch_name_ok st b = fst (is_valid_branch_name (ref_format st) Map.empty b)"

definition malformed :: "verified_store \<Rightarrow> boundary \<Rightarrow> str option" where
  "malformed st b =
     (if object_id (b_tip b) = None then Some ''tip''
      else if \<not> branch_name_ok st (b_base b) then Some ''base''
      else if object_id (b_base_commit b) = None then Some ''base_commit''
      else if \<not> is_sha_hex (b_inputs b) then Some ''inputs''
      else None)"

definition boundary_record :: "verified_store \<Rightarrow> boundary \<Rightarrow> files \<Rightarrow> files" where
  "boundary_record st b fs =
     (case print_boundary st b of
        None \<Rightarrow> fs
      | Some t \<Rightarrow> snd (atomic_write (taken st) (boundary_path st (b_identity b) (b_branch b)) (t @ NL) fs))"

definition boundary_read :: "verified_store \<Rightarrow> files \<Rightarrow> str \<Rightarrow> str \<Rightarrow> stored_boundary" where
  "boundary_read st fs i b =
     (let place = boundary_path st i b
      in case unread st place of
           Some why \<Rightarrow> UnreadableStored (place @ '': '' @ why)
         | None \<Rightarrow>
        (case fs place of
           None \<Rightarrow> NothingStored
         | Some t \<Rightarrow>
        (case read_boundary st t of
           None \<Rightarrow> UnreadableStored place
         | Some r \<Rightarrow>
             (if b_identity r = i \<and> b_branch r = b
              then (case malformed st r of
                      Some wrong \<Rightarrow> UnreadableStored (place @ '' records a '' @ wrong @ '' that is not one'')
                    | None \<Rightarrow> FoundStored r)
              else UnreadableStored (place @ '' records another branch'' @ [CHR 0x27] @ ''s publication'')))))"

definition verified_forget :: "verified_store \<Rightarrow> str \<Rightarrow> str \<Rightarrow> files \<Rightarrow> files" where
  "verified_forget st i b fs = fs(boundary_path st i b := None, pushed_path st i b := None)"

definition pushed_record :: "verified_store \<Rightarrow> pushed_branch \<Rightarrow> files \<Rightarrow> files" where
  "pushed_record st p fs =
     (case print_pushed st p of
        None \<Rightarrow> fs
      | Some t \<Rightarrow> snd (atomic_write (taken st) (pushed_path st (u_identity p) (u_branch p)) (t @ NL) fs))"

definition was_recorded :: "verified_store \<Rightarrow> files \<Rightarrow> pushed_branch \<Rightarrow> bool" where
  "was_recorded st fs p \<longleftrightarrow>
     unread st (pushed_path st (u_identity p) (u_branch p)) = None \<and>
     Option.bind (fs (pushed_path st (u_identity p) (u_branch p))) (read_pushed st) = Some p"

section \<open>What verification read\<close>

record hook_entry =
  hook_name :: str
  hook_is_file :: bool
  hook_content :: "str + str"

datatype hooks_listing = NoHooksDirectory | UnlistedHooks str | HookEntries "(str + hook_entry) list"

definition installed_hooks :: "(str \<Rightarrow> str) \<Rightarrow> hooks_listing \<Rightarrow> str + (str \<times> str) list" where
  "installed_hooks hex l =
     (case l of
        NoHooksDirectory \<Rightarrow> Ok []
      | UnlistedHooks e \<Rightarrow> Err e
      | HookEntries es \<Rightarrow>
          and_then (collect_res (\<lambda>entry. and_then entry (\<lambda>h.
              if \<not> hook_is_file h then Ok None
              else and_then (hook_content h) (\<lambda>c. Ok (Some (hook_name h, hex c))))) es)
            (\<lambda>hs. Ok (sort (filter_map (\<lambda>h. h) hs))))"

definition comparison_env :: "str \<Rightarrow> str \<Rightarrow> (str \<times> str) list" where
  "comparison_env remote base =
     [(''ONEVCS_COMPARISON_REMOTE'', remote), (''ONEVCS_COMPARISON_BASE'', base)]"

definition hook_lines :: "(str \<Rightarrow> str) \<Rightarrow> (str \<Rightarrow> hooks_listing) \<Rightarrow> str option \<Rightarrow> str + str list" where
  "hook_lines hex listing hooks =
     (case hooks of
        None \<Rightarrow> Ok [''hooks none'']
      | Some h \<Rightarrow>
          (if \<not> is_absolute h then Ok [''hooks in-tree '' @ h]
           else and_then (installed_hooks hex (listing h)) (\<lambda>found.
                  Ok ((''hooks '' @ h) # map (\<lambda>(n, d). ''hook '' @ n @ '' '' @ d) found))))"

definition input_lines :: "str \<Rightarrow> str \<Rightarrow> trailers \<Rightarrow> str list" where
  "input_lines ver base t =
     [''onevcs '' @ ver] @
     map (\<lambda>(n, v). ''env '' @ n @ ''='' @ v) (comparison_env ''origin'' base) @
     [''trailers '' @ landed t, incomplete t]"

definition ended_lines :: "str list \<Rightarrow> str" where
  "ended_lines ls = concat (map (\<lambda>l. l @ NL) ls)"

definition inputs :: "(str \<Rightarrow> str) \<Rightarrow> str \<Rightarrow> (str \<Rightarrow> hooks_listing) \<Rightarrow> str option \<Rightarrow> str \<Rightarrow> trailers \<Rightarrow> str + str" where
  "inputs hex ver listing hooks base t =
     and_then (hook_lines hex listing hooks) (\<lambda>hs. Ok (hex (ended_lines (input_lines ver base t @ hs))))"

section \<open>A base that moved\<close>

datatype host_of = Slug str | UnsupportedHost | NotHosted

definition slug :: "str \<Rightarrow> str option" where
  "slug identity =
     (case split_on (CHR ''/'') identity of
        [h, o', n] \<Rightarrow> if h \<noteq> ''github.com'' \<or> o' = [] \<or> n = [] then None else Some (o' @ ''/'' @ n)
      | _ \<Rightarrow> None)"

definition change_host :: "str \<Rightarrow> host_of" where
  "change_host identity =
     (case slug identity of
        Some s \<Rightarrow> Slug s
      | None \<Rightarrow> if length (split_on (CHR ''/'') identity) = 3 then UnsupportedHost else NotHosted)"

datatype brought_in = BroughtInHere | BroughtInByCaller

datatype base_verdict = BaseMerged | BaseSkipped | BaseDeferred

datatype because =
    AlreadyCarried | AlwaysMerged | ConflictsWithBranch | CallerMergesIt
  | HostRequiresIt | HostDoesNotRequireIt | NoHostToRequireIt | HostUnread

record decision =
  base_verdict :: base_verdict
  because :: because

definition merges :: "decision \<Rightarrow> bool" where
  "merges d \<longleftrightarrow> base_verdict d = BaseMerged"

text \<open>\<open>RemoteHost::requires_up_to_date\<close> for a repository and a base, where the host can be reached.\<close>

definition requires_up_to_date :: "(str \<Rightarrow> str \<Rightarrow> str + bool) \<Rightarrow> str \<Rightarrow> str \<Rightarrow> str + bool option" where
  "requires_up_to_date hosting identity base =
     (case change_host identity of
        NotHosted \<Rightarrow> Ok None
      | UnsupportedHost \<Rightarrow> Err ''RemoteHost for a host other than github.com''
      | Slug s \<Rightarrow> and_then (hosting s base) (\<lambda>b. Ok (Some b)))"

definition decide_base ::
    "git \<Rightarrow> (str \<Rightarrow> str \<Rightarrow> str + bool) \<Rightarrow> base_merge \<Rightarrow> str \<Rightarrow> str \<Rightarrow> str \<Rightarrow> str \<Rightarrow> brought_in \<Rightarrow> git_error + decision" where
  "decide_base g hosting setting integrated base branch identity by =
     and_then (is_ancestor g integrated branch) (\<lambda>carried.
       if carried then Ok \<lparr>base_verdict = BaseSkipped, because = AlreadyCarried\<rparr>
       else if setting = Always then Ok \<lparr>base_verdict = BaseMerged, because = AlwaysMerged\<rparr>
       else and_then (merge_would_conflict g integrated branch) (\<lambda>conflicts.
         if conflicts then Ok \<lparr>base_verdict = BaseMerged, because = ConflictsWithBranch\<rparr>
         else if by = BroughtInByCaller then Ok \<lparr>base_verdict = BaseSkipped, because = CallerMergesIt\<rparr>
         else Ok (case requires_up_to_date hosting identity base of
                    Inr (Some True) \<Rightarrow> \<lparr>base_verdict = BaseMerged, because = HostRequiresIt\<rparr>
                  | Inr (Some False) \<Rightarrow> \<lparr>base_verdict = BaseSkipped, because = HostDoesNotRequireIt\<rparr>
                  | Inr None \<Rightarrow> \<lparr>base_verdict = BaseSkipped, because = NoHostToRequireIt\<rparr>
                  | Inl _ \<Rightarrow> \<lparr>base_verdict = BaseMerged, because = HostUnread\<rparr>)))"

section \<open>Resuming at the boundary\<close>

record open_change =
  change_id :: str
  change_head :: str

record resume_reads =
  resolved_identity :: "str option"                          \<comment> \<open>\<open>store::resolve_path\<close>\<close>
  rules_now :: "(trailers \<times> resolved) option"               \<comment> \<open>\<open>policy::load\<close> and \<open>resolve\<close>\<close>
  base_known :: bool                                         \<comment> \<open>\<open>git::default_branch\<close>\<close>
  unfinished_merges :: bool
  located_in :: "str option"                                 \<comment> \<open>\<open>branch::locate\<close>\<close>
  lease :: "str + unit"                                      \<comment> \<open>\<open>publishing::Lease::take\<close>\<close>
  source_git :: git
  source_disk :: on_disk
  hooks_at :: "str \<Rightarrow> hooks_listing"
  changes_open :: "str \<Rightarrow> str \<Rightarrow> str \<Rightarrow> str + open_change list"
  fetched_commit :: "str \<Rightarrow> git_error + bool"
  up_to_date :: "str \<Rightarrow> str \<Rightarrow> str + bool"
  this_version :: str

record resumed =
  source_of :: str
  boundary_of :: boundary
  change_of :: open_change
  base_decision :: "decision option"

datatype resume_end = WholePath | StaleBoundary | RefusedLease str | Resumes resumed

definition effective_policy :: "policy \<Rightarrow> merge_policy option \<Rightarrow> rules_error + merge_policy" where
  "effective_policy p requested =
     (case requested of Some r \<Rightarrow> narrow p r | None \<Rightarrow> Ok (publication p))"

definition complete_between :: "git \<Rightarrow> str \<Rightarrow> str \<Rightarrow> trailers \<Rightarrow> bool" where
  "complete_between g base branch t \<longleftrightarrow>
     (case log_messages g base branch of
        Inl _ \<Rightarrow> False | Inr cs \<Rightarrow> unattested cs t = [] \<and> unrecognized cs t = [])"

definition left_to_the_host :: "resume_reads \<Rightarrow> str \<Rightarrow> boundary \<Rightarrow> str \<Rightarrow> base_merge \<Rightarrow> git_error + decision" where
  "left_to_the_host rd identity b moved setting =
     and_then (fetched_commit rd moved) (\<lambda>fetched.
       if \<not> fetched then Err (NotRun moved)
       else decide_base (source_git rd) (up_to_date rd) setting moved (b_base b) (b_tip b) identity BroughtInHere)"

text \<open>The checks made once a boundary was read: everything it names reads back the same.\<close>

definition still_holds ::
    "verified_store \<Rightarrow> resume_reads \<Rightarrow> str \<Rightarrow> str \<Rightarrow> boundary \<Rightarrow> trailers \<Rightarrow> base_merge \<Rightarrow> str \<Rightarrow> resume_end" where
  "still_holds st rd identity branch b t setting source =
     (if tip_at (source_git rd) (source_disk rd) (heads_ref branch) \<noteq> Some (b_tip b) then StaleBoundary
      else case remote_tip (source_git rd) ''origin'' (b_base b) of
        Inr (TipAt at_now) \<Rightarrow>
          (if and_then (map_sum (\<lambda>_. []) (\<lambda>x. x) (carried_hooks (source_git rd) (source_disk rd)))
                (\<lambda>hooks. inputs (sha_hex st) (this_version rd) (hooks_at rd) hooks (b_base b) t) \<noteq> Ok (b_inputs b)
           then StaleBoundary
           else if \<not> complete_between (source_git rd) (b_base_commit b) branch t then WholePath
           else case change_host identity of
             Slug s \<Rightarrow>
               (case changes_open rd s branch (b_base b) of
                  Inl _ \<Rightarrow> StaleBoundary
                | Inr found \<Rightarrow>
               (case List.find (\<lambda>c. change_id c = b_change b \<and> change_head c = b_tip b) found of
                  None \<Rightarrow> StaleBoundary
                | Some c \<Rightarrow>
                    (if at_now = b_base_commit b
                     then Resumes \<lparr>source_of = source, boundary_of = b, change_of = c, base_decision = None\<rparr>
                     else case left_to_the_host rd identity b at_now setting of
                       Inl _ \<Rightarrow> StaleBoundary
                     | Inr d \<Rightarrow>
                         (if merges d then StaleBoundary
                          else Resumes \<lparr>source_of = source, boundary_of = b, change_of = c,
                                        base_decision = Some d\<rparr>))))
           | _ \<Rightarrow> StaleBoundary)
      | _ \<Rightarrow> StaleBoundary)"

definition resume_end_of ::
    "verified_store \<Rightarrow> files \<Rightarrow> resume_reads \<Rightarrow> str \<Rightarrow> str \<Rightarrow> merge_policy option \<Rightarrow> resume_end" where
  "resume_end_of st fs rd identity branch requested =
     (case boundary_read st fs identity branch of
        NothingStored \<Rightarrow> WholePath
      | UnreadableStored _ \<Rightarrow> StaleBoundary
      | FoundStored b \<Rightarrow>
     (case rules_now rd of
        None \<Rightarrow> WholePath
      | Some (t, res) \<Rightarrow>
     (case effective_policy (resolved_policy res) requested of
        Inl _ \<Rightarrow> WholePath
      | Inr in_force \<Rightarrow>
          (if in_force = LocalDirect then StaleBoundary
           else if \<not> base_known rd \<or> unfinished_merges rd then WholePath
           else case located_in rd of
             None \<Rightarrow> WholePath
           | Some source \<Rightarrow>
               (case lease rd of
                  Inl e \<Rightarrow> RefusedLease e
                | Inr _ \<Rightarrow> still_holds st rd identity branch b t (decided_value (resolved_base_merge res)) source)))))"

definition resumable ::
    "verified_store \<Rightarrow> resume_reads \<Rightarrow> str \<Rightarrow> merge_policy option \<Rightarrow> files \<Rightarrow> (str + resumed option) \<times> files" where
  "resumable st rd branch requested fs =
     (case resolved_identity rd of
        None \<Rightarrow> (Ok None, fs)
      | Some identity \<Rightarrow>
          (if \<not> branch_name_ok st branch then (Ok None, fs)
           else case resume_end_of st fs rd identity branch requested of
             WholePath \<Rightarrow> (Ok None, fs)
           | StaleBoundary \<Rightarrow> (Ok None, verified_forget st identity branch fs)
           | RefusedLease e \<Rightarrow> (Err e, fs)
           | Resumes r \<Rightarrow> (Ok (Some r), fs)))"

section \<open>A push that would only repeat the last one\<close>

record publication =
  pub_identity :: str
  pub_branch :: str
  pub_base :: str
  pub_base_ref :: str                                        \<comment> \<open>\<open>vcs::base_ref\<close>\<close>
  pub_trailers :: trailers
  pub_git :: git
  pub_disk :: on_disk
  pub_hooks :: "str \<Rightarrow> hooks_listing"
  pub_version :: str

definition verification_at :: "verified_store \<Rightarrow> publication \<Rightarrow> str \<Rightarrow> pushed_branch option" where
  "verification_at st p at_head =
     Option.bind (tip_at (pub_git p) (pub_disk p) (pub_base_ref p)) (\<lambda>base_commit.
       case and_then (map_sum (\<lambda>_. []) (\<lambda>x. x) (configured_hooks (pub_git p)))
              (\<lambda>hooks. inputs (sha_hex st) (pub_version p) (pub_hooks p) hooks (pub_base p) (pub_trailers p)) of
         Inl _ \<Rightarrow> None
       | Inr i \<Rightarrow> Some \<lparr>u_identity = pub_identity p, u_branch = pub_branch p, u_tip = at_head, u_base = pub_base p,
                        u_base_commit = base_commit, u_inputs = i\<rparr>)"

definition already_pushed :: "verified_store \<Rightarrow> files \<Rightarrow> publication \<Rightarrow> bool" where
  "already_pushed st fs p \<longleftrightarrow>
     (case tip_at (pub_git p) (pub_disk p) (heads_ref (pub_branch p)) of
        None \<Rightarrow> False
      | Some at_head \<Rightarrow>
          (case verification_at st p at_head of None \<Rightarrow> False | Some now \<Rightarrow> was_recorded st fs now) \<and>
          remote_tip (pub_git p) ''origin'' (pub_branch p) = Ok (TipAt at_head))"

section \<open>What is read was recorded\<close>

definition boundary_found :: "verified_store \<Rightarrow> files \<Rightarrow> str \<times> str \<Rightarrow> boundary option" where
  "boundary_found st fs k =
     (case boundary_read st fs (fst k) (snd k) of FoundStored b \<Rightarrow> Some b | _ \<Rightarrow> None)"

definition boundary_came_back :: "verified_store \<Rightarrow> (str \<times> str) \<times> boundary \<Rightarrow> (str \<times> str) \<times> boundary \<Rightarrow> bool" where
  "boundary_came_back st put got \<longleftrightarrow>
     (\<exists>t. print_boundary st (snd put) = Some t \<and> read_boundary st (t @ NL) = Some (snd got)) \<and>
     fst got = (b_identity (snd got), b_branch (snd got)) \<and> malformed st (snd got) = None"

lemma boundary_found_Some:
  "boundary_found st fs k = Some b \<longleftrightarrow>
     unread st (boundary_path st (fst k) (snd k)) = None \<and> k = (b_identity b, b_branch b) \<and> malformed st b = None \<and>
     (\<exists>t. fs (boundary_path st (fst k) (snd k)) = Some t \<and> read_boundary st t = Some b)"
  by (cases k) (auto simp: boundary_found_def boundary_read_def Let_def split: option.splits if_splits)

interpretation boundaries: kept_records "boundary_found st" "\<lambda>_. boundary_record st"
    "\<lambda>k. verified_forget st (fst k) (snd k)" "boundary_came_back st" for st
proof
  fix k l :: "str \<times> str" and v w u
  assume "boundary_found st (boundary_record st v w) l = Some u"
  then show "boundary_came_back st (k, v) (l, u) \<or> boundary_found st w l = Some u"
    by (auto simp: boundary_found_Some boundary_record_def boundary_came_back_def atomic_write_def
        split: option.splits if_splits)
next
  fix k l :: "str \<times> str" and w u
  assume "boundary_found st (verified_forget st (fst k) (snd k) w) l = Some u"
  then show "l \<noteq> k \<and> boundary_found st w l = Some u"
    by (auto simp: boundary_found_Some verified_forget_def split: if_splits)
qed

definition pushed_found :: "verified_store \<Rightarrow> files \<Rightarrow> pushed_branch \<Rightarrow> unit option" where
  "pushed_found st fs p = (if was_recorded st fs p then Some () else None)"

definition pushed_came_back :: "verified_store \<Rightarrow> pushed_branch \<times> unit \<Rightarrow> pushed_branch \<times> unit \<Rightarrow> bool" where
  "pushed_came_back st put got \<longleftrightarrow>
     (\<exists>t. print_pushed st (fst put) = Some t \<and> read_pushed st (t @ NL) = Some (fst got))"

interpretation pushes: kept_records "pushed_found st" "\<lambda>p _. pushed_record st p"
    "\<lambda>p. verified_forget st (u_identity p) (u_branch p)" "pushed_came_back st" for st
proof
  fix k l :: pushed_branch and v u :: unit and w
  assume "pushed_found st (pushed_record st k w) l = Some u"
  then show "pushed_came_back st (k, v) (l, u) \<or> pushed_found st w l = Some u"
    by (auto simp: pushed_found_def was_recorded_def pushed_record_def pushed_came_back_def atomic_write_def
        split: option.splits if_splits)
next
  fix k l :: pushed_branch and u :: unit and w
  assume "pushed_found st (verified_forget st (u_identity k) (u_branch k) w) l = Some u"
  then show "l \<noteq> k \<and> pushed_found st w l = Some u"
    by (auto simp: pushed_found_def was_recorded_def verified_forget_def bind_eq_Some_conv split: if_splits)
qed

section \<open>What a resumed publication was held to\<close>

lemma base_left_out:
  assumes "decide_base g hosting setting integrated b branch identity BroughtInHere = Ok d" "\<not> merges d"
  shows "is_ancestor g integrated branch = Ok True \<or>
    setting \<noteq> Always \<and> merge_would_conflict g integrated branch = Ok False \<and>
      requires_up_to_date hosting identity b \<in> {Ok (Some False), Ok None}"
  using assms
  by (auto simp: decide_base_def merges_def and_then_Ok split: if_splits sum.splits option.splits bool.splits)

lemma still_holds_resumes:
  assumes "still_holds st rd identity branch b t setting source = Resumes r"
  shows "source_of r = source \<and> boundary_of r = b \<and>
    tip_at (source_git rd) (source_disk rd) (heads_ref branch) = Some (b_tip b) \<and>
    and_then (map_sum (\<lambda>_. []) (\<lambda>x. x) (carried_hooks (source_git rd) (source_disk rd)))
      (\<lambda>hooks. inputs (sha_hex st) (this_version rd) (hooks_at rd) hooks (b_base b) t) = Ok (b_inputs b) \<and>
    complete_between (source_git rd) (b_base_commit b) branch t \<and>
    (\<exists>s found. change_host identity = Slug s \<and> changes_open rd s branch (b_base b) = Ok found \<and>
       change_of r \<in> set found \<and> change_id (change_of r) = b_change b \<and> change_head (change_of r) = b_tip b) \<and>
    (\<exists>at_now. remote_tip (source_git rd) ''origin'' (b_base b) = Ok (TipAt at_now) \<and>
       (at_now = b_base_commit b \<or>
        (\<exists>d. left_to_the_host rd identity b at_now setting = Ok d \<and> \<not> merges d)))"
  using assms find_SomeD
  by (auto simp: still_holds_def Let_def split: if_splits sum.splits option.splits remote_tip.splits host_of.splits
      dest!: find_SomeD)

lemma resumable_Some:
  assumes "resumable st rd branch requested fs = (Ok (Some r), fs')"
  obtains identity b t res where "fs' = fs" "resolved_identity rd = Some identity" "rules_now rd = Some (t, res)"
    "boundary_read st fs identity branch = FoundStored b"
    "still_holds st rd identity branch b t (decided_value (resolved_base_merge res)) (source_of r) = Resumes r"
  using assms still_holds_resumes
  by (auto simp: resumable_def resume_end_of_def split: option.splits if_splits resume_end.splits
      stored_boundary.splits sum.splits prod.splits)

lemma verification_at_tip:
  assumes "verification_at st p at_head = Some now"
  shows "u_tip now = at_head"
proof (cases "and_then (map_sum (\<lambda>_. []) (\<lambda>x. x) (configured_hooks (pub_git p)))
    (\<lambda>hooks. inputs (sha_hex st) (pub_version p) (pub_hooks p) hooks (pub_base p) (pub_trailers p))")
  case (Inl e)
  with assms show ?thesis by (simp add: verification_at_def bind_eq_Some_conv)
next
  case (Inr i)
  with assms show ?thesis by (auto simp: verification_at_def bind_eq_Some_conv)
qed

section \<open>What the digest covers\<close>

lemma ended_lines_inject:
  assumes "\<forall>l \<in> set xs \<union> set ys. CHR 0x0A \<notin> set l"
  shows "ended_lines xs = ended_lines ys \<longleftrightarrow> xs = ys"
proof
  have e: "ended_lines ls = concat (map (\<lambda>l. l @ [CHR 0x0A]) ls)" for ls by (simp add: ended_lines_def NL_def)
  assume "ended_lines xs = ended_lines ys"
  then have "split_on (CHR 0x0A) (ended_lines xs) = split_on (CHR 0x0A) (ended_lines ys)" by simp
  then show "xs = ys" using assms by (simp add: e split_on_ended)
qed simp

lemma hook_line_inject:
  assumes "CHR '' '' \<notin> set d" "CHR '' '' \<notin> set e"
  shows "''hook '' @ n @ '' '' @ d = ''hook '' @ m @ '' '' @ e \<longleftrightarrow> n = m \<and> d = e"
proof
  assume "''hook '' @ n @ '' '' @ d = ''hook '' @ m @ '' '' @ e"
  then have "n @ CHR '' '' # d = m @ CHR '' '' # e" by simp
  then have "rsplit_once (CHR '' '') (n @ CHR '' '' # d) = rsplit_once (CHR '' '') (m @ CHR '' '' # e)" by simp
  then show "n = m \<and> d = e" using assms by (simp add: rsplit_once_def)
qed simp

lemma hook_lines_inject:
  assumes "\<forall>(n, d) \<in> set xs \<union> set ys. CHR '' '' \<notin> set d"
    "map (\<lambda>(n, d). ''hook '' @ n @ '' '' @ d) xs = map (\<lambda>(n, d). ''hook '' @ n @ '' '' @ d) ys"
  shows "xs = ys"
  using assms
proof (induction xs arbitrary: ys)
  case (Cons x xs)
  then obtain y ys' where y: "ys = y # ys'" by (cases ys) auto
  have "x = y" using Cons.prems hook_line_inject [of "snd x" "snd y" "fst x" "fst y"] unfolding y
    by (cases x; cases y) auto
  moreover have "xs = ys'" using Cons.prems unfolding y by (intro Cons.IH) auto
  ultimately show ?case using y by simp
qed simp

definition same_hooks :: "(str \<Rightarrow> str) \<Rightarrow> (str \<Rightarrow> hooks_listing) \<times> str option \<Rightarrow> (str \<Rightarrow> hooks_listing) \<times> str option \<Rightarrow> bool" where
  "same_hooks hex a b \<longleftrightarrow>
     snd a = snd b \<and>
     (case snd a of
        Some h \<Rightarrow> is_absolute h \<longrightarrow> installed_hooks hex (fst a h) = installed_hooks hex (fst b h)
      | None \<Rightarrow> True)"

lemma same_hook_lines:
  assumes "hook_lines hex listing hooks = Ok hs" "hook_lines hex listing' hooks' = Ok hs"
    "\<forall>c. CHR '' '' \<notin> set (hex c)"
  shows "same_hooks hex (listing, hooks) (listing', hooks')"
proof -
  have spaceless: "\<forall>(n, d) \<in> set found. CHR '' '' \<notin> set d" if "installed_hooks hex l = Ok found" for l found
  proof -
    have "\<exists>c. d = hex c" if c: "collect_res (\<lambda>entry. and_then entry (\<lambda>h. if \<not> hook_is_file h then Ok None
        else and_then (hook_content h) (\<lambda>c. Ok (Some (hook_name h, hex c))))) es = Inr hs" "Some (n, d) \<in> set hs"
      for es hs n d
      using c unfolding collect_res_Ok
      by (induction rule: list_all2_induct) (auto simp: and_then_Ok split: if_splits)
    with that assms(3) show ?thesis
      by (auto simp: installed_hooks_def and_then_Ok set_filter_map split: hooks_listing.splits) blast
  qed
  show ?thesis
  proof (cases hooks; cases hooks')
    fix h h'
    assume h: "hooks = Some h" "hooks' = Some h'"
    show ?thesis
    proof (cases "is_absolute h")
      case False
      with assms h show ?thesis
        by (auto simp: hook_lines_def same_hooks_def and_then_Ok is_absolute_def starts_with_def split: if_splits)
    next
      case True
      then obtain found where f: "installed_hooks hex (listing h) = Ok found"
        "hs = (''hooks '' @ h) # map (\<lambda>(n, d). ''hook '' @ n @ '' '' @ d) found"
        using assms(1) h by (auto simp: hook_lines_def and_then_Ok)
      with assms(2) h True have abs: "is_absolute h'"
        by (auto simp: hook_lines_def is_absolute_def starts_with_def split: if_splits)
      then obtain found' where f': "installed_hooks hex (listing' h') = Ok found'"
        "hs = (''hooks '' @ h') # map (\<lambda>(n, d). ''hook '' @ n @ '' '' @ d) found'"
        using assms(2) h by (auto simp: hook_lines_def and_then_Ok)
      have "found = found'"
        using f f' spaceless [OF f(1)] spaceless [OF f'(1)] by (intro hook_lines_inject) auto
      with f f' h show ?thesis by (simp add: same_hooks_def)
    qed
  qed (use assms in \<open>auto simp: hook_lines_def same_hooks_def and_then_Ok is_absolute_def starts_with_def split: if_splits\<close>)
qed

section \<open>Properties\<close>

text \<open>C19 A publication is resumed only at its verified boundary: the boundary it recorded is read
  back whole, the branch is still at the tip that was verified, everything verification read
  still digests the same, no commit since the base is unfinished work, its change request is
  open at that tip, and the base is where it was verified against or has moved in a way the host
  merges the head over as it stands. Nothing recorded is touched.\<close>

theorem resumed_at_its_boundary:
  assumes "resumable st rd branch requested fs = (Ok (Some r), fs')"
  shows "fs' = fs \<and>
    (\<exists>identity t res s found at_now.
       resolved_identity rd = Some identity \<and> rules_now rd = Some (t, res) \<and>
       boundary_read st fs identity branch = FoundStored (boundary_of r) \<and>
       tip_at (source_git rd) (source_disk rd) (heads_ref branch) = Some (b_tip (boundary_of r)) \<and>
       and_then (map_sum (\<lambda>_. []) (\<lambda>x. x) (carried_hooks (source_git rd) (source_disk rd)))
         (\<lambda>hooks. inputs (sha_hex st) (this_version rd) (hooks_at rd) hooks (b_base (boundary_of r)) t) =
         Ok (b_inputs (boundary_of r)) \<and>
       complete_between (source_git rd) (b_base_commit (boundary_of r)) branch t \<and>
       change_host identity = Slug s \<and> changes_open rd s branch (b_base (boundary_of r)) = Ok found \<and>
       change_of r \<in> set found \<and> change_id (change_of r) = b_change (boundary_of r) \<and>
       change_head (change_of r) = b_tip (boundary_of r) \<and>
       remote_tip (source_git rd) ''origin'' (b_base (boundary_of r)) = Ok (TipAt at_now) \<and>
       (at_now = b_base_commit (boundary_of r) \<or>
        is_ancestor (source_git rd) at_now (b_tip (boundary_of r)) = Ok True \<or>
        merge_would_conflict (source_git rd) at_now (b_tip (boundary_of r)) = Ok False \<and>
        up_to_date rd s (b_base (boundary_of r)) = Ok False))"
proof -
  from assms obtain identity b t res where r: "fs' = fs" "resolved_identity rd = Some identity"
    "rules_now rd = Some (t, res)" "boundary_read st fs identity branch = FoundStored b"
    "still_holds st rd identity branch b t (decided_value (resolved_base_merge res)) (source_of r) = Resumes r"
    by (rule resumable_Some)
  note held = still_holds_resumes [OF r(5)]
  then obtain s found at_now where s: "change_host identity = Slug s"
    "changes_open rd s branch (b_base b) = Ok found" "change_of r \<in> set found"
    and at_now: "remote_tip (source_git rd) ''origin'' (b_base b) = Ok (TipAt at_now)"
    "at_now = b_base_commit b \<or> (\<exists>d. left_to_the_host rd identity b at_now
       (decided_value (resolved_base_merge res)) = Ok d \<and> \<not> merges d)" by blast
  have "at_now = b_base_commit b \<or> is_ancestor (source_git rd) at_now (b_tip b) = Ok True \<or>
      merge_would_conflict (source_git rd) at_now (b_tip b) = Ok False \<and> up_to_date rd s (b_base b) = Ok False"
    using at_now(2) base_left_out s(1)
    by (fastforce simp: left_to_the_host_def requires_up_to_date_def and_then_Ok split: if_splits)
  with r held s at_now(1) show ?thesis by metis
qed

text \<open>The digest a boundary names covers everything verification read beyond the tip and the base:
  two verifications with the same digest were made by the same build, against the same base,
  under the same trailers, by the same hooks - and, for hooks installed outside the tree, hooks
  of the same names and contents.\<close>

theorem inputs_tell_verifications_apart:
  assumes "hook_lines hex listing hooks = Ok hs" "hook_lines hex listing' hooks' = Ok hs'"
    "inputs hex ver listing hooks b t = inputs hex ver' listing' hooks' b' t'"
    "hex (ended_lines (input_lines ver b t @ hs)) = hex (ended_lines (input_lines ver' b' t' @ hs')) \<Longrightarrow>
       ended_lines (input_lines ver b t @ hs) = ended_lines (input_lines ver' b' t' @ hs')"
    "\<forall>c. CHR '' '' \<notin> set (hex c)"
    "\<forall>l \<in> set (input_lines ver b t @ hs) \<union> set (input_lines ver' b' t' @ hs'). CHR 0x0A \<notin> set l"
  shows "ver = ver' \<and> b = b' \<and> landed t = landed t' \<and> incomplete t = incomplete t' \<and>
    same_hooks hex (listing, hooks) (listing', hooks')"
proof -
  have "ended_lines (input_lines ver b t @ hs) = ended_lines (input_lines ver' b' t' @ hs')"
    using assms(1-4) by (auto simp: inputs_def)
  then have "input_lines ver b t @ hs = input_lines ver' b' t' @ hs'"
    using ended_lines_inject [OF assms(6)] by simp
  then have "ver = ver' \<and> b = b' \<and> landed t = landed t' \<and> incomplete t = incomplete t' \<and> hs = hs'"
    by (simp add: input_lines_def comparison_env_def)
  with same_hook_lines [of hex listing hooks hs listing' hooks'] assms(1,2,5) show ?thesis by simp
qed

text \<open>A push is skipped only where the last one recorded for the branch verified exactly what a
  push would verify now: the same tip, base, base commit and inputs, not forgotten since, with
  the branch still at that tip on the origin.\<close>

theorem skipped_push_was_made:
  assumes "\<forall>p t. print_pushed st p = Some t \<longrightarrow> read_pushed st (t @ NL) = Some p" "w = Map.empty"
    "already_pushed st (acted (\<lambda>p _. pushed_record st p) (\<lambda>p. verified_forget st (u_identity p) (u_branch p)) done w) pub"
  shows "\<exists>now at_head. verification_at st pub at_head = Some now \<and> u_tip now = at_head \<and>
    remote_tip (pub_git pub) ''origin'' (pub_branch pub) = Ok (TipAt at_head) \<and>
    (\<exists>before after. done = before @ Put now () # after \<and> Forget now \<notin> set after)"
proof -
  from assms(3) obtain now at_head where n: "verification_at st pub at_head = Some now"
    "remote_tip (pub_git pub) ''origin'' (pub_branch pub) = Ok (TipAt at_head)"
    "was_recorded st (acted (\<lambda>p _. pushed_record st p) (\<lambda>p. verified_forget st (u_identity p) (u_branch p)) done w) now"
    by (auto simp: already_pushed_def split: option.splits)
  then have "pushed_found st (acted (\<lambda>p _. pushed_record st p)
      (\<lambda>p. verified_forget st (u_identity p) (u_branch p)) done w) now = Some ()" by (simp add: pushed_found_def)
  moreover have "pushed_found st w now = None" using assms(2) by (simp add: pushed_found_def was_recorded_def)
  ultimately obtain before p u after where "done = before @ Put p u # after" "Forget now \<notin> set after"
    "pushed_came_back st (p, u) (now, ())"
    using pushes.read_acted [of st "done" w now "()"] by auto
  moreover have "p = now" using calculation(3) assms(1) by (auto simp: pushed_came_back_def)
  moreover have "u_tip now = at_head"
    using n(1) by (rule verification_at_tip)
  ultimately show ?thesis using n by auto
qed

section \<open>A publication to resume\<close>

definition sample_boundary :: boundary where
  "sample_boundary = \<lparr>b_identity = ''github.com/o/n'', b_branch = ''topic'', b_tip = zeros, b_base = ''main'',
     b_base_commit = zeros, b_inputs = replicate 64 (CHR ''0''), b_change = ''7'', b_change_url = ''u''\<rparr>"

definition sample_pushed :: pushed_branch where
  "sample_pushed = \<lparr>u_identity = ''github.com/o/n'', u_branch = ''topic'', u_tip = zeros, u_base = ''main'',
     u_base_commit = zeros, u_inputs = replicate 64 (CHR ''0'')\<rparr>"

definition sample_store :: verified_store where
  "sample_store = \<lparr>verified_dir = ''/v'', sha_hex = (\<lambda>_. replicate 64 (CHR ''0'')),
     print_boundary = (\<lambda>b. if b = sample_boundary then Some ''b'' else None),
     read_boundary = (\<lambda>t. if t = ''b'' @ NL then Some sample_boundary else None),
     print_pushed = (\<lambda>p. if p = sample_pushed then Some ''p'' else None),
     read_pushed = (\<lambda>t. if t = ''p'' @ NL then Some sample_pushed else None),
     taken = (\<lambda>_ _. True), unread = (\<lambda>_. None), ref_format = (\<lambda>_. False)\<rparr>"

definition sample_git :: git where
  "sample_git = answering
     [[''config'', ''--get'', ''core.hooksPath''] \<mapsto> [],
      log_args zeros ''topic'' \<mapsto> [],
      [''ls-remote'', ''--exit-code'', ''origin'', heads_ref ''main''] \<mapsto> zeros @ TAB # ''refs/heads/main'',
      [''ls-remote'', ''--exit-code'', ''origin'', heads_ref ''topic''] \<mapsto> zeros @ TAB # ''refs/heads/topic'']"

definition sample_disk :: on_disk where
  "sample_disk = nothing_read\<lparr>disk_tip := (\<lambda>_. Some (Some zeros))\<rparr>"

definition sample_reads :: resume_reads where
  "sample_reads = \<lparr>resolved_identity = Some ''github.com/o/n'',
     rules_now = Some (trailers_of DEFAULT_PREFIX,
       \<lparr>resolved_policy = \<lparr>publication = ChangeAuto, approvals = NoApprovals, policy_drafts = None,
           policy_base_merge = None, policy_checks = None\<rparr>,
         resolved_source = [], resolved_matched = None, publication_from = [], approvals_from = [],
         resolved_drafts = undefined, resolved_visibility = None,
         resolved_base_merge = \<lparr>decided_value = OnConflict, decided_from = []\<rparr>, resolved_wait = undefined\<rparr>),
     base_known = True, unfinished_merges = False, located_in = Some ''/c'', lease = Ok (),
     source_git = sample_git, source_disk = sample_disk, hooks_at = (\<lambda>_. NoHooksDirectory),
     changes_open = (\<lambda>_ _ _. Ok [\<lparr>change_id = ''7'', change_head = zeros\<rparr>]),
     fetched_commit = (\<lambda>_. Ok True), up_to_date = (\<lambda>_ _. Ok False), this_version = ''1.0.0''\<rparr>"

definition sample_resumed :: resumed where
  "sample_resumed = \<lparr>source_of = ''/c'', boundary_of = sample_boundary,
     change_of = \<lparr>change_id = ''7'', change_head = zeros\<rparr>, base_decision = None\<rparr>"

definition sample_files :: files where
  "sample_files = [boundary_path sample_store ''github.com/o/n'' ''topic'' \<mapsto> ''b'' @ NL]"

lemma sample_advertised:
  "advertised (zeros @ TAB # ''refs/heads/main'') (heads_ref ''main'') = Some zeros"
  "advertised (zeros @ TAB # ''refs/heads/topic'') (heads_ref ''topic'') = Some zeros"
  by code_simp+

lemma sample_remote:
  "remote_tip sample_git ''origin'' ''main'' = Ok (TipAt zeros)"
  "remote_tip sample_git ''origin'' ''topic'' = Ok (TipAt zeros)"
  using sample_advertised
  by (simp_all add: remote_tip_def sample_git_def answering_def answered_def log_args_def heads_ref_def)

lemma sample_answers:
  "trim [] = []" "complete_between sample_git zeros ''topic'' (trailers_of DEFAULT_PREFIX)"
  "malformed sample_store sample_boundary = None" "branch_name_ok sample_store ''topic''"
  "change_host ''github.com/o/n'' = Slug ''o/n''"
proof -
  show t: "trim [] = []" by code_simp
  have "log_records [] = []" by code_simp
  moreover have "unattested [] (trailers_of DEFAULT_PREFIX) = []" "unrecognized [] (trailers_of DEFAULT_PREFIX) = []"
    by code_simp+
  ultimately show "complete_between sample_git zeros ''topic'' (trailers_of DEFAULT_PREFIX)"
    by (simp add: complete_between_def log_messages_def checked_def ran_ok_def at_tip_def sample_git_def answering_def
        answered_def log_args_def)
  show "malformed sample_store sample_boundary = None" by code_simp
  show "branch_name_ok sample_store ''topic''" by code_simp
  show "change_host ''github.com/o/n'' = Slug ''o/n''" by code_simp
qed

lemma sample_hooks: "configured_hooks sample_git = Ok None" "carried_hooks sample_git sample_disk = Ok None"
  by (simp_all add: configured_hooks_def carried_hooks_def sample_git_def answering_def answered_def trimmed_def
      sample_answers(1) sample_disk_def nothing_read_def log_args_def heads_ref_def)

lemma sample_resumes:
  "resumable sample_store sample_reads ''topic'' None sample_files = (Ok (Some sample_resumed), sample_files)"
proof -
  have b: "boundary_read sample_store sample_files ''github.com/o/n'' ''topic'' = FoundStored sample_boundary"
  proof -
    have "unread sample_store p = None" "read_boundary sample_store (''b'' @ NL) = Some sample_boundary" for p
      by (simp_all add: sample_store_def)
    moreover have "b_identity sample_boundary = ''github.com/o/n''" "b_branch sample_boundary = ''topic''"
      by (simp_all add: sample_boundary_def)
    ultimately show ?thesis by (simp add: boundary_read_def sample_files_def sample_answers Let_def)
  qed
  have f: "source_git sample_reads = sample_git" "source_disk sample_reads = sample_disk"
    "b_tip sample_boundary = zeros" "b_base sample_boundary = ''main''" "b_base_commit sample_boundary = zeros"
    "b_change sample_boundary = ''7''" "b_inputs sample_boundary = replicate 64 (CHR ''0'')"
    "tip_at sample_git sample_disk r = Some zeros" "sha_hex sample_store x = replicate 64 (CHR ''0'')"
    "changes_open sample_reads x r q = Ok [\<lparr>change_id = ''7'', change_head = zeros\<rparr>]" for r x q
    by (simp_all add: sample_reads_def sample_boundary_def tip_at_def sample_disk_def nothing_read_def sample_store_def)
  have "still_holds sample_store sample_reads ''github.com/o/n'' ''topic'' sample_boundary
      (trailers_of DEFAULT_PREFIX) OnConflict ''/c'' = Resumes sample_resumed"
    by (simp add: still_holds_def f sample_remote sample_hooks sample_answers inputs_def hook_lines_def
        sample_resumed_def)
  with b sample_answers(4) show ?thesis
    by (simp add: resumable_def resume_end_of_def sample_reads_def effective_policy_def)
qed

theorem resumed_at_its_boundary_witness:
  "boundary_read sample_store sample_files ''github.com/o/n'' ''topic'' = FoundStored sample_boundary"
proof -
  have "resolved_identity sample_reads = Some ''github.com/o/n''" "boundary_of sample_resumed = sample_boundary"
    by (simp_all add: sample_reads_def sample_resumed_def)
  with resumed_at_its_boundary [OF sample_resumes] show ?thesis by auto
qed

theorem inputs_tell_verifications_apart_witness:
  "same_hooks (\<lambda>_. ''d'')
     (\<lambda>_. HookEntries [Ok \<lparr>hook_name = ''pre-push'', hook_is_file = True, hook_content = Ok ''a''\<rparr>], Some ''/h'')
     (\<lambda>_. HookEntries [Ok \<lparr>hook_name = ''pre-push'', hook_is_file = True, hook_content = Ok ''a''\<rparr>], Some ''/h'')"
proof -
  let ?l = "\<lambda>_. HookEntries [Ok \<lparr>hook_name = ''pre-push'', hook_is_file = True, hook_content = Ok ''a''\<rparr>]"
  have h: "hook_lines (\<lambda>_. ''d'') ?l (Some ''/h'') = Ok [''hooks /h'', ''hook pre-push d'']"
    by (simp add: hook_lines_def installed_hooks_def is_absolute_def starts_with_def)
  show ?thesis
    using inputs_tell_verifications_apart
      [OF h h, of "''1''" "''main''" "trailers_of []" "''1''" "''main''" "trailers_of []"]
    by (simp add: input_lines_def comparison_env_def trailers_of_def STATUS_def INCOMPLETE_def)
qed

definition sample_publication :: publication where
  "sample_publication = \<lparr>pub_identity = ''github.com/o/n'', pub_branch = ''topic'', pub_base = ''main'',
     pub_base_ref = ''refs/remotes/origin/main'', pub_trailers = trailers_of DEFAULT_PREFIX, pub_git = sample_git,
     pub_disk = sample_disk, pub_hooks = (\<lambda>_. NoHooksDirectory), pub_version = ''1.0.0''\<rparr>"

theorem skipped_push_was_made_witness:
  "\<exists>before after. [Put sample_pushed ()] = before @ Put sample_pushed () # after \<and> Forget sample_pushed \<notin> set after"
proof -
  have tips: "tip_at sample_git sample_disk r = Some zeros" for r
    by (simp add: tip_at_def sample_disk_def nothing_read_def)
  have v: "verification_at sample_store sample_publication zeros = Some sample_pushed"
    by (simp add: verification_at_def sample_publication_def tips sample_hooks inputs_def hook_lines_def)
      (simp add: sample_store_def sample_pushed_def)
  let ?w = "acted (\<lambda>p _. pushed_record sample_store p)
      (\<lambda>p. verified_forget sample_store (u_identity p) (u_branch p)) [Put sample_pushed ()] Map.empty"
  have "was_recorded sample_store ?w sample_pushed"
    by (simp add: was_recorded_def pushed_record_def sample_store_def atomic_write_def)
  then have "already_pushed sample_store ?w sample_publication"
    using v by (simp add: already_pushed_def sample_publication_def tips sample_remote)
  moreover have faithful: "\<forall>p t. print_pushed sample_store p = Some t \<longrightarrow> read_pushed sample_store (t @ NL) = Some p"
    by (simp add: sample_store_def)
  ultimately obtain now where n: "verification_at sample_store sample_publication (u_tip now) = Some now"
    "\<exists>before after. [Put sample_pushed ()] = before @ Put now () # after \<and> Forget now \<notin> set after"
    using skipped_push_was_made [of sample_store Map.empty "[Put sample_pushed ()]" sample_publication] by auto
  then show ?thesis by (auto simp: Cons_eq_append_conv)
qed

end
