(* ===== verification/Judging.thy ===== *)
theory Judging
  imports Retirement Refs
begin

text \<open>
  What one copy of a branch turns out to be against its base (\<open>retire.rs\<close>, \<open>judge_copy\<close> and
  \<open>recorded_landing\<close>): at the base already, proved to hold nothing beyond it - by the host's own report
  of a merge, by a recorded landing followed only by commits that change nothing, or by content - or
  differing from it. The repository is asked through its \<open>git\<close>.
\<close>

section \<open>Evidence\<close>

record evidence =
  e_change :: "str option"
  e_landing :: "recorded_landing option"
  e_merged :: "(str \<times> str) option"      \<comment> \<open>the change request, and the head the host merged\<close>
  e_changed :: bool

definition evidence_of :: "recorded_work \<Rightarrow> evidence" where
  "evidence_of r =
     \<lparr>e_change = recorded_change r, e_landing = recorded_at r,
      e_merged = Option.bind (recorded_at r) (\<lambda>l. Option.bind (landing_change l) (\<lambda>change.
        if recorded_change r = Some change then map_option (Pair change) (landing_head l) else None)),
      e_changed = False\<rparr>"

section \<open>One copy\<close>

record judged =
  at_base :: bool
  forked_at :: "str option"
  free_commits :: "str list"
  differs_in :: "str list"
  found_proof :: "retirement_proof option"

definition judged_at_base :: judged where
  "judged_at_base = \<lparr>at_base = True, forked_at = None, free_commits = [], differs_in = [], found_proof = None\<rparr>"

fun all_free :: "git \<Rightarrow> str list \<Rightarrow> git_error + bool" where
  "all_free g [] = Ok True"
| "all_free g (c # cs) = and_then (changes_no_content g c) (\<lambda>b. if b then all_free g cs else Ok False)"

text \<open>The first point a landing names that the tip descends from through nothing but commits that change
  no content.\<close>

fun landed_through :: "git \<Rightarrow> str \<Rightarrow> str list \<Rightarrow> git_error + retirement_proof option" where
  "landed_through g stand [] = Ok None"
| "landed_through g stand (point # points) =
     and_then (known_to_reach g point stand) (\<lambda>reached.
       if \<not> reached then landed_through g stand points
       else and_then (commits_in g (point @ ''..'' @ stand)) (\<lambda>later.
            and_then (all_free g (filter (\<lambda>c. c \<noteq> point) later)) (\<lambda>free.
              if free then Ok (Some (LandingRecorded point)) else landed_through g stand points)))"

definition landing_points :: "git \<Rightarrow> str \<Rightarrow> commit_message list \<Rightarrow> evidence \<Rightarrow> str \<Rightarrow> git_error + str list" where
  "landing_points g base_tip history e k =
     (let named = concat (map (\<lambda>c. trailer_values (message c) k) history)
      in case e_landing e of
           None \<Rightarrow> Ok named
         | Some l \<Rightarrow>
             and_then (known_to_reach g (landing_commit l) base_tip) (\<lambda>reached.
               if \<not> reached then Ok named
               else and_then (commit_message g (landing_commit l)) (\<lambda>m.
                      Ok (named @ (case m of None \<Rightarrow> [] | Some t \<Rightarrow> trailer_values t k)))))"

definition recorded_landing_proof ::
    "git \<Rightarrow> str \<Rightarrow> str \<Rightarrow> commit_message list \<Rightarrow> evidence \<Rightarrow> str \<Rightarrow> git_error + retirement_proof option" where
  "recorded_landing_proof g stand base_tip history e k =
     and_then (landing_points g base_tip history e k) (landed_through g stand)"

definition merged_proof :: "git \<Rightarrow> str \<Rightarrow> evidence \<Rightarrow> git_error + retirement_proof option" where
  "merged_proof g content_tip e =
     (case e_merged e of
        None \<Rightarrow> Ok None
      | Some (change, merged_at) \<Rightarrow>
          and_then (known_to_reach g content_tip merged_at) (\<lambda>reached.
            Ok (if reached then Some (MergedChangeRequest change merged_at) else None)))"

definition still_differing :: "git \<Rightarrow> str \<Rightarrow> str \<Rightarrow> str option \<Rightarrow> git_error + str list" where
  "still_differing g stand base_tip fork =
     (case fork of
        Some f \<Rightarrow> and_then (changed_paths g f stand) (differing_among g stand base_tip)
      | None \<Rightarrow> changed_paths g base_tip stand)"

definition judge_copy :: "git \<Rightarrow> str \<Rightarrow> str \<Rightarrow> evidence \<Rightarrow> str \<Rightarrow> git_error + judged" where
  "judge_copy g stand base_tip e k =
     and_then (merge_base g base_tip stand) (\<lambda>fork.
     if fork = Some stand then Ok judged_at_base
     else
       and_then (content_free_tail g stand (case fork of None \<Rightarrow> [] | Some f \<Rightarrow> f)) (\<lambda>(free, content_tip).
       and_then (case fork of Some f \<Rightarrow> log_messages g f base_tip | None \<Rightarrow> Ok []) (\<lambda>history.
       and_then (merged_proof g content_tip e) (\<lambda>by_host.
       and_then (case by_host of Some p \<Rightarrow> Ok (Some p)
                 | None \<Rightarrow> recorded_landing_proof g stand base_tip history e k) (\<lambda>recorded.
       and_then (case recorded of Some p \<Rightarrow> Ok ([], Some p)
                 | None \<Rightarrow> and_then (still_differing g stand base_tip fork) (\<lambda>ds.
                             Ok (ds, if ds = [] then Some (ContentIdentical base_tip) else None))) (\<lambda>(ds, p).
         Ok \<lparr>at_base = False, forked_at = fork, free_commits = free, differs_in = ds, found_proof = p\<rparr>))))))"

section \<open>What a proof shows\<close>

lemma all_free_True: "all_free g cs = Inr True \<longleftrightarrow> (\<forall>c \<in> set cs. changes_no_content g c = Inr True)"
proof (induction cs)
  case (Cons c cs)
  then show ?case by (cases "changes_no_content g c") auto
qed simp

lemma landed_through_Some:
  "landed_through g stand points = Inr (Some p) \<Longrightarrow>
   \<exists>point \<in> set points. p = LandingRecorded point \<and> known_to_reach g point stand = Inr True \<and>
     (\<exists>later. commits_in g (point @ ''..'' @ stand) = Inr later \<and>
        (\<forall>c \<in> set later. c \<noteq> point \<longrightarrow> changes_no_content g c = Inr True))"
proof (induction g stand points rule: landed_through.induct)
  case (2 g stand point points)
  from 2(3) obtain reached where r: "known_to_reach g point stand = Inr reached" by (auto simp: ok_cases)
  show ?case
  proof (cases reached)
    case False
    with 2(1) [OF r] 2(3) r show ?thesis by auto
  next
    case True
    with 2(3) r obtain later free where f: "commits_in g (point @ ''..'' @ stand) = Inr later"
      "all_free g (filter (\<lambda>c. c \<noteq> point) later) = Inr free" by (auto simp: ok_cases)
    show ?thesis
    proof (cases free)
      case True
      with f(2) have "\<forall>c \<in> set later. c \<noteq> point \<longrightarrow> changes_no_content g c = Inr True"
        by (simp add: all_free_True)
      moreover have "p = LandingRecorded point" using 2(3) r f \<open>reached\<close> True by simp
      ultimately show ?thesis using r f(1) \<open>reached\<close> by auto
    next
      case False
      have "\<not> \<not> reached" using \<open>reached\<close> by simp
      with 2(2) [OF r this f] 2(3) r f False show ?thesis by auto
    qed
  qed
qed simp

text \<open>Where the repository shows a landing of the branch at a commit: the trailer that names it is on a
  commit of the base's history since the fork, or on the commit a landing was recorded at, which the
  base reaches.\<close>

definition names_landing :: "git \<Rightarrow> str \<Rightarrow> commit_message list \<Rightarrow> evidence \<Rightarrow> str \<Rightarrow> str \<Rightarrow> bool" where
  "names_landing g base_tip history e k point \<longleftrightarrow>
     (\<exists>c \<in> set history. point \<in> set (trailer_values (message c) k)) \<or>
     (\<exists>l m. e_landing e = Some l \<and> known_to_reach g (landing_commit l) base_tip = Ok True \<and>
        commit_message g (landing_commit l) = Ok (Some m) \<and> point \<in> set (trailer_values m k))"

lemma landing_points_named:
  "landing_points g base_tip history e k = Inr points \<Longrightarrow> point \<in> set points \<Longrightarrow>
   names_landing g base_tip history e k point"
  by (auto simp: landing_points_def names_landing_def Let_def and_then_Ok split: option.splits if_splits)

text \<open>What each proof of a copy rests on.\<close>

definition proved :: "git \<Rightarrow> str \<Rightarrow> str \<Rightarrow> evidence \<Rightarrow> str \<Rightarrow> retirement_proof \<Rightarrow> bool" where
  "proved g stand base_tip e k p \<longleftrightarrow>
     (case p of
        MergedChangeRequest change merged_at \<Rightarrow>
          e_merged e = Some (change, merged_at) \<and>
          (\<exists>fork free content_tip.
             merge_base g base_tip stand = Ok fork \<and>
             content_free_tail g stand (case fork of None \<Rightarrow> [] | Some f \<Rightarrow> f) = Ok (free, content_tip) \<and>
             known_to_reach g content_tip merged_at = Ok True)
      | LandingRecorded point \<Rightarrow>
          known_to_reach g point stand = Ok True \<and>
          (\<exists>later. commits_in g (point @ ''..'' @ stand) = Ok later \<and>
             (\<forall>c \<in> set later. c \<noteq> point \<longrightarrow> changes_no_content g c = Ok True)) \<and>
          (\<exists>fork history. merge_base g base_tip stand = Ok fork \<and>
             (case fork of Some f \<Rightarrow> log_messages g f base_tip | None \<Rightarrow> Ok []) = Ok history \<and>
             names_landing g base_tip history e k point)
      | ContentIdentical b \<Rightarrow>
          b = base_tip \<and>
          (\<exists>fork. merge_base g base_tip stand = Ok fork \<and> still_differing g stand base_tip fork = Ok []))"

lemma judge_copy_proved:
  assumes "judge_copy g stand base_tip e k = Inr j"
  shows "if at_base j then merge_base g base_tip stand = Ok (Some stand)
    else case found_proof j of
      Some p \<Rightarrow> proved g stand base_tip e k p
    | None \<Rightarrow> (\<exists>fork. merge_base g base_tip stand = Ok fork \<and>
                 still_differing g stand base_tip fork = Ok (differs_in j) \<and> differs_in j \<noteq> [])"
proof -
  from assms obtain fork where fork: "merge_base g base_tip stand = Inr fork"
    by (auto simp: judge_copy_def ok_cases)
  show ?thesis
  proof (cases "fork = Some stand")
    case True
    with assms fork have "j = judged_at_base" by (simp add: judge_copy_def)
    with True fork show ?thesis by (simp add: judged_at_base_def)
  next
    case False
    with assms fork obtain free content_tip history by_host recorded ds p where parts:
      "content_free_tail g stand (case fork of None \<Rightarrow> [] | Some f \<Rightarrow> f) = Inr (free, content_tip)"
      "(case fork of Some f \<Rightarrow> log_messages g f base_tip | None \<Rightarrow> Ok []) = Inr history"
      "merged_proof g content_tip e = Inr by_host"
      "(case by_host of Some p \<Rightarrow> Ok (Some p)
        | None \<Rightarrow> recorded_landing_proof g stand base_tip history e k) = Inr recorded"
      "(case recorded of Some p \<Rightarrow> Ok ([], Some p)
        | None \<Rightarrow> and_then (still_differing g stand base_tip fork) (\<lambda>ds.
                    Ok (ds, if ds = [] then Some (ContentIdentical base_tip) else None))) = Inr (ds, p)"
      "j = \<lparr>at_base = False, forked_at = fork, free_commits = free, differs_in = ds, found_proof = p\<rparr>"
      by (auto simp: judge_copy_def and_then_Ok split del: option.split)
    show ?thesis
    proof (cases by_host)
      case (Some q)
      then obtain change merged_at where q: "q = MergedChangeRequest change merged_at"
        "e_merged e = Some (change, merged_at)" "known_to_reach g content_tip merged_at = Inr True"
        using parts(3) by (auto simp: merged_proof_def and_then_Ok split: option.splits if_splits)
      then have "proved g stand base_tip e k q"
        unfolding proved_def q(1) retirement_proof.case using fork parts(1) by blast
      with Some parts show ?thesis by auto
    next
      case None
      show ?thesis
      proof (cases recorded)
        case (Some q)
        with None parts(4) obtain points where pts: "landing_points g base_tip history e k = Inr points"
          "landed_through g stand points = Inr (Some q)"
          by (auto simp: recorded_landing_proof_def and_then_Ok)
        from landed_through_Some [OF pts(2)] landing_points_named [OF pts(1)] fork parts(2)
        have "proved g stand base_tip e k q" by (fastforce simp: proved_def)
        with Some parts show ?thesis by auto
      next
        case None
        with parts(5) fork have "still_differing g stand base_tip fork = Inr ds"
          "p = (if ds = [] then Some (ContentIdentical base_tip) else None)" by (auto simp: and_then_Ok)
        with parts(6) fork show ?thesis by (auto simp: proved_def)
      qed
    qed
  qed
qed

section \<open>What a comparison of content shows\<close>

text \<open>What git documents of a listing held to some paths: those of them that differ, each ended by a NUL.\<close>

definition lists_among :: "git \<Rightarrow> (str \<Rightarrow> str \<rightharpoonup> 'b) \<Rightarrow> bool" where
  "lists_among g T \<longleftrightarrow>
     (\<forall>a b ps r. ps \<noteq> [] \<and> runs g (listed_args a b @ map literal ps) = Ok r \<and> exit_status r = 0 \<longrightarrow>
        (\<exists>qs. stdout r = concat (map (\<lambda>p. p @ [NUL]) qs) \<and> set qs = differing T a b \<inter> set ps \<and>
              (\<forall>q \<in> set qs. q \<noteq> [] \<and> NUL \<notin> set q)))"

lemma changed_paths_whole:
  assumes "lists_whole g T" "counts_whole g T" "changed_paths g a b = Inr ps"
  shows "set ps = differing T a b"
proof -
  obtain r where r: "runs g (listed_args a b) = Ok r" "exit_status r = 0"
    "(let paths = listed_paths (stdout r)
      in if paths \<noteq> [] \<and> read_failures r = [] then Ok paths
         else and_then (counted_files g a b) (\<lambda>n.
           if length paths \<noteq> n then Err (ListedShort (length paths) n) else Ok paths)) = Inr ps"
    using assms(3) by (auto simp: changed_paths_def ok_cases checked_Ok)
  then have ps: "ps = listed_paths (stdout r)" by (auto simp: Let_def ok_cases split: if_splits)
  consider "stdout r = []" | qs where "stdout r = concat (map (\<lambda>p. p @ [NUL]) qs)"
      "set qs = differing T a b" "\<forall>p \<in> set qs. p \<noteq> [] \<and> NUL \<notin> set p"
    using assms(1) r(1,2) unfolding lists_whole_def by blast
  then show ?thesis
  proof cases
    case 1
    then have "listed_paths (stdout r) = []" by (simp add: listed_paths_def)
    with r(3) have "counted_files g a b = Inr 0" by (auto simp: Let_def ok_cases split: if_splits)
    then have "finite (differing T a b) \<and> card (differing T a b) = 0"
      using counted_files_whole [OF assms(2)] by auto
    with ps \<open>listed_paths (stdout r) = []\<close> show ?thesis by auto
  next
    case (2 qs)
    with ps listed_paths_printed [of qs] show ?thesis by simp
  qed
qed

lemma differing_among_whole:
  assumes "lists_among g T" "differing_among g a b ps = Inr ds"
  shows "set ds = differing T a b \<inter> set ps"
proof (cases "ps = []")
  case True
  with assms(2) show ?thesis by (simp add: differing_among_def)
next
  case False
  with assms(2) obtain r where r: "runs g (listed_args a b @ map literal ps) = Ok r" "exit_status r = 0"
    "ds = sorted_list_of_set (set (listed_paths (stdout r)))"
    by (auto simp: differing_among_def ok_cases checked_Ok)
  with False assms(1) obtain qs where "stdout r = concat (map (\<lambda>p. p @ [NUL]) qs)"
    "set qs = differing T a b \<inter> set ps" "\<forall>q \<in> set qs. q \<noteq> [] \<and> NUL \<notin> set q"
    unfolding lists_among_def by blast
  with r listed_paths_printed [of qs] show ?thesis by simp
qed

lemma still_differing_whole:
  assumes "lists_whole g T" "counts_whole g T" "lists_among g T" "still_differing g stand base_tip fork = Inr ds"
  shows "set ds = {p. T stand p \<noteq> T base_tip p \<and> (\<forall>f. fork = Some f \<longrightarrow> T f p \<noteq> T stand p)}"
proof (cases fork)
  case None
  with assms changed_paths_whole [OF assms(1,2)] show ?thesis
    by (auto simp: still_differing_def differing_def)
next
  case (Some f)
  with assms(4) obtain ps where "changed_paths g f stand = Inr ps" "differing_among g stand base_tip ps = Inr ds"
    by (auto simp: still_differing_def ok_cases)
  with Some changed_paths_whole [OF assms(1,2)] differing_among_whole [OF assms(3)] show ?thesis
    by (auto simp: differing_def)
qed

section \<open>Repositories to judge\<close>

text \<open>The three trees of the history and content reads, with the history that joins them.\<close>

definition judging_git :: "(str \<Rightarrow> str \<Rightarrow> str list \<Rightarrow> git_error + ran) \<Rightarrow> git" where
  "judging_git among =
     tiny_git\<lparr>knows_commit := (\<lambda>_. Some True), runs := (\<lambda>args.
       if length args = 3 \<and> hd args = ''merge-base'' then answered 0 ''fork''
       else if args = tail_args ''commit'' then answered 0 (''commit'' @ NUL # ''t2'' @ NL @ ''fork'' @ NUL # ''t1'')
       else if length args = 5 \<and> hd args = ''log'' then answered 0 []
       else if length args > 7 \<and> take 7 args = listed_args (args ! 4) (args ! 5)
       then among (args ! 4) (args ! 5) (drop 7 args)
       else runs tiny_git args)\<rparr>"

definition reading_git :: git where
  "reading_git = judging_git (\<lambda>a b specs.
     answered 0 (concat (map (\<lambda>p. p @ [NUL]) (filter (\<lambda>p. literal p \<in> set specs) (tiny_differing a b)))))"

text \<open>The same, where the pipe of the second listing fails before anything of it is read.\<close>

definition failing_git :: git where
  "failing_git = judging_git (\<lambda>_ _ _.
     Ok \<lparr>exit_status = 0, stdout = [], stderr = [], read_failures = [''reading its standard output failed'']\<rparr>)"

lemma judging_listed: "runs (judging_git among) (listed_args a b) = runs tiny_git (listed_args a b)"
  by (simp add: judging_git_def listed_args_def tail_args_def)

lemma judging_counted:
  "runs (judging_git among) [''diff'', ''--shortstat'', ''--no-renames'', a, b, ''--''] =
     runs tiny_git [''diff'', ''--shortstat'', ''--no-renames'', a, b, ''--'']"
  by (simp add: judging_git_def tail_args_def)

lemma judging_among:
  "ps \<noteq> [] \<Longrightarrow> runs (judging_git among) (listed_args a b @ map literal ps) = among a b (map literal ps)"
  by (cases ps) (simp_all add: judging_git_def listed_args_def tail_args_def)

lemma judging_whole: "lists_whole (judging_git among) tiny_tree" "counts_whole (judging_git among) tiny_tree"
  using tiny_lists tiny_counts by (simp_all only: lists_whole_def counts_whole_def judging_listed judging_counted)

lemma literal_inject: "literal p = literal q \<longleftrightarrow> p = q"
  by (simp add: literal_def)

lemma reading_among: "lists_among reading_git tiny_tree"
  unfolding lists_among_def
proof (intro allI impI)
  fix a b and ps :: "str list" and r
  assume "ps \<noteq> [] \<and> runs reading_git (listed_args a b @ map literal ps) = Ok r \<and> exit_status r = 0"
  then have r: "stdout r = concat (map (\<lambda>p. p @ [NUL]) (filter (\<lambda>p. p \<in> set ps) (tiny_differing a b)))"
    by (auto simp: reading_git_def judging_among answered_def literal_inject image_iff)
  have "set (filter (\<lambda>p. p \<in> set ps) (tiny_differing a b)) = differing tiny_tree a b \<inter> set ps"
    using tiny_differing(1) [of a b] by auto
  moreover have "\<forall>q \<in> set (tiny_differing a b). q \<noteq> [] \<and> NUL \<notin> set q"
    by (auto simp: tiny_differing_def NUL_def)
  ultimately show "\<exists>qs. stdout r = concat (map (\<lambda>p. p @ [NUL]) qs) \<and> set qs = differing tiny_tree a b \<inter> set ps \<and>
      (\<forall>q \<in> set qs. q \<noteq> [] \<and> NUL \<notin> set q)" using r by (intro exI [of _ "filter (\<lambda>p. p \<in> set ps) (tiny_differing a b)"]) auto
qed

lemma judging_history:
  "merge_base (judging_git among) b ''commit'' = Ok (Some ''fork'')"
  "content_free_tail (judging_git among) ''commit'' ''fork'' = Ok ([], ''commit'')"
  "log_messages (judging_git among) ''fork'' b = Ok []"
  "changed_paths (judging_git among) ''fork'' ''commit'' = Ok [''a'']"
proof -
  have "trim ''fork'' = ''fork''" by code_simp
  then show "merge_base (judging_git among) b ''commit'' = Ok (Some ''fork'')"
    by (simp add: merge_base_def judging_git_def answered_def trimmed_def)
  have "lines (''commit'' @ NUL # ''t2'' @ NL @ ''fork'' @ NUL # ''t1'') =
      [''commit'' @ NUL # ''t2'', ''fork'' @ NUL # ''t1'']" by code_simp
  moreover have "split_once NUL (''commit'' @ NUL # ''t2'') = Some (''commit'', ''t2'')"
    "split_once NUL (''fork'' @ NUL # ''t1'') = Some (''fork'', ''t1'')" by code_simp+
  moreover have "runs (judging_git among) (tail_args ''commit'') =
      answered 0 (''commit'' @ NUL # ''t2'' @ NL @ ''fork'' @ NUL # ''t1'')"
    by (simp add: judging_git_def tail_args_def)
  ultimately show "content_free_tail (judging_git among) ''commit'' ''fork'' = Ok ([], ''commit'')"
    by (simp add: content_free_tail_def checked_def answered_def ran_ok_def del: append.simps)
  have "log_records [] = []" by code_simp
  then show "log_messages (judging_git among) ''fork'' b = Ok []"
    by (simp add: log_messages_def checked_def log_args_def at_tip_def judging_git_def tiny_git_def answered_def
        ran_ok_def tail_args_def)
  have d: "tiny_differing ''fork'' ''commit'' = [''a'']" by (simp add: tiny_differing_def tiny_tree_def)
  show "changed_paths (judging_git among) ''fork'' ''commit'' = Ok [''a'']"
    by (simp add: changed_paths_def checked_def judging_listed tiny_listed d answered_def ran_ok_def listed_paths_def
        NUL_def)
qed

definition no_evidence :: evidence where
  "no_evidence = \<lparr>e_change = None, e_landing = None, e_merged = None, e_changed = False\<rparr>"

definition identical_copy :: "str \<Rightarrow> judged" where
  "identical_copy b = \<lparr>at_base = False, forked_at = Some ''fork'', free_commits = [], differs_in = [],
     found_proof = Some (ContentIdentical b)\<rparr>"

lemma judging_identical:
  assumes "differing_among (judging_git among) ''commit'' b [''a''] = Ok []"
  shows "judge_copy (judging_git among) ''commit'' b no_evidence k = Ok (identical_copy b)"
  by (simp add: judge_copy_def judging_history merged_proof_def no_evidence_def recorded_landing_proof_def
      landing_points_def still_differing_def assms identical_copy_def)

section \<open>Properties\<close>



text \<open>A branch proved by content alone holds nothing its base lacks: where git lists and counts as
  it documents and both listings are read whole, every path the branch changed since the fork -
  every path at all, where the histories are unrelated - reads on the base exactly as on the
  branch.\<close>

theorem content_identical_means_carried:
  assumes "lists_whole g T" "counts_whole g T" "lists_among g T"
    "judge_copy g stand base_tip e k = Ok j" "found_proof j = Some (ContentIdentical b)"
  shows "b = base_tip \<and>
    (\<exists>fork. merge_base g base_tip stand = Ok fork \<and>
       (\<forall>p. (case fork of Some f \<Rightarrow> T f p \<noteq> T stand p | None \<Rightarrow> True) \<longrightarrow> T base_tip p = T stand p))"
proof -
  have "\<not> at_base j"
    using assms(4,5) by (auto simp: judge_copy_def judged_at_base_def and_then_Ok split: if_splits)
  with judge_copy_proved [OF assms(4)] assms(5) obtain fork where f: "b = base_tip"
    "merge_base g base_tip stand = Ok fork" "still_differing g stand base_tip fork = Ok []"
    by (auto simp: proved_def)
  from still_differing_whole [OF assms(1-3) f(3)]
  have "T base_tip p = T stand p" if "case fork of Some f \<Rightarrow> T f p \<noteq> T stand p | None \<Rightarrow> True" for p
    using that by (cases fork) (auto, metis)
  with f show ?thesis by blast
qed

theorem content_identical_means_carried_witness:
  "\<exists>fork. merge_base reading_git ''base'' ''commit'' = Ok fork \<and>
     tiny_tree ''base'' ''a'' = tiny_tree ''commit'' ''a''"
proof -
  have "tiny_differing ''commit'' ''base'' = [''b'']" by (simp add: tiny_differing_def tiny_tree_def)
  then have "differing_among reading_git ''commit'' ''base'' [''a''] = Ok []"
    using judging_among [of "[''a'']"]
    by (simp add: differing_among_def reading_git_def checked_def answered_def ran_ok_def listed_paths_def literal_def)
  from judging_identical [OF this [unfolded reading_git_def]]
  have j: "judge_copy reading_git ''commit'' ''base'' no_evidence [] = Ok (identical_copy ''base'')"
    by (simp add: reading_git_def)
  have whole: "lists_whole reading_git tiny_tree" "counts_whole reading_git tiny_tree"
    by (simp_all only: reading_git_def judging_whole)
  have "found_proof (identical_copy ''base'') = Some (ContentIdentical ''base'')" by (simp add: identical_copy_def)
  from content_identical_means_carried [OF whole reading_among j this]
  obtain fork where "merge_base reading_git ''base'' ''commit'' = Ok fork"
    "(case fork of Some f \<Rightarrow> tiny_tree f ''a'' \<noteq> tiny_tree ''commit'' ''a'' | None \<Rightarrow> True) \<longrightarrow>
       tiny_tree ''base'' ''a'' = tiny_tree ''commit'' ''a''" by blast
  then show ?thesis by (auto simp: reading_git_def judging_history tiny_tree_def)
qed


end
