(* ===== verification/Retire.thy ===== *)
theory Retire
  imports Judging Verdicts
begin

text \<open>
  Classifying a branch from where its copies stand, and deleting it everywhere where its class permits
  it (\<open>retire.rs\<close>: \<open>Census\<close>, \<open>classify\<close>, \<open>derive\<close>, \<open>conclude\<close>, \<open>consult\<close>, \<open>act\<close> and \<open>delete\<close>). What a census
  read once is a record; what is asked afresh - the repositories, the processes, the worktrees, the host
  - are reads of a world, and what is done to it are operations on it.
\<close>

section \<open>The census and the world\<close>

record place =
  place_kind :: holder_kind
  repo :: str
  slot_of :: "str option"

datatype holding = LocalCopy nat | OriginCopy

record copy =
  held :: holding
  stands :: str

record copies =
  found :: "copy list"
  unseen :: "unknown_cause list"

record session =
  token :: str
  for_identity :: str
  for_branch :: str
  clone :: str
  worktree :: str
  run_root :: str
  in_slot :: bool
  is_open :: bool

record opened_change =
  opened_url :: str
  opened_id :: "str option"
  opened_base :: "str option"

record census =
  cid :: str
  publication_at :: str
  base_branch :: "str option"
  base_tip :: "str option"
  origin_url :: "str option"
  places :: "place list"
  unlisted :: "unknown_cause list"
  unread_base :: "unknown_cause option"
  listed_heads :: "nat \<Rightarrow> str + (str \<rightharpoonup> str)"
  tracked_heads :: "str + (str \<rightharpoonup> str)"
  origin_heads :: "(str + (str \<rightharpoonup> str)) option"
  streams_whole :: bool
  sessions :: "session list"
  landed_key :: str
  stream_digest :: "str \<Rightarrow> str option"            \<comment> \<open>\<open>status::recorded_digest\<close>\<close>
  session_named :: "str \<Rightarrow> str option"            \<comment> \<open>\<open>vcs::latest_session\<close>\<close>
  recorded_for :: "str \<Rightarrow> recorded_work"
  opened_for :: "str \<Rightarrow> opened_change option"
  supersessions :: "str \<Rightarrow> supersession list"
  web :: url_reader
  runs_dir :: "str option"

record 'w world_ops =
  git_at :: "'w \<Rightarrow> str \<Rightarrow> git"
  disk_at :: "'w \<Rightarrow> str \<Rightarrow> on_disk"
  owner_running :: "'w \<Rightarrow> session \<Rightarrow> bool"
  occupied :: "'w \<Rightarrow> session \<Rightarrow> str + bool"
  worked_on :: "'w \<Rightarrow> session \<Rightarrow> bool"
  on_branch :: "'w \<Rightarrow> str \<Rightarrow> str option"
  worktrees_at :: "'w \<Rightarrow> str \<Rightarrow> str + (str \<times> str option) list"
  dirty_tree :: "'w \<Rightarrow> str \<Rightarrow> str + bool"          \<comment> \<open>a directory that is not there is clean\<close>
  host_for :: "'w \<Rightarrow> str + unit"
  host_merged :: "'w \<Rightarrow> str \<Rightarrow> str \<Rightarrow> str + merged_change option"
  host_changes :: "'w \<Rightarrow> str \<Rightarrow> str \<Rightarrow> str + str list"
  verdicts_of :: "'w \<Rightarrow> kept_verdicts"
  set_verdicts :: "kept_verdicts \<Rightarrow> 'w \<Rightarrow> 'w"
  abort_merge :: "str \<Rightarrow> 'w \<Rightarrow> 'w"
  fetch_branch :: "str \<Rightarrow> 'w \<Rightarrow> bool \<times> 'w"
  late_merge :: "str \<Rightarrow> merged_change \<Rightarrow> 'w \<Rightarrow> 'w"
  is_dir :: "'w \<Rightarrow> str \<Rightarrow> bool"
  close_clone :: "str \<Rightarrow> 'w \<Rightarrow> (str + bool) \<times> 'w"
  probe_clone :: "str \<Rightarrow> 'w \<Rightarrow> (str + bool) \<times> 'w"
  detach :: "str \<Rightarrow> 'w \<Rightarrow> (str + unit) \<times> 'w"
  delete_at :: "str \<Rightarrow> str \<Rightarrow> str \<Rightarrow> 'w \<Rightarrow> (git_error + unit) \<times> 'w"
  put_back :: "str \<Rightarrow> str \<Rightarrow> str \<Rightarrow> 'w \<Rightarrow> (git_error + unit) \<times> 'w"
  delete_origin :: "str \<Rightarrow> str \<Rightarrow> 'w \<Rightarrow> (git_error + pushed) \<times> 'w"
  close_session :: "session \<Rightarrow> 'w \<Rightarrow> (str + unit) \<times> 'w"
  say_closed :: "session \<Rightarrow> 'w \<Rightarrow> 'w"
  remove_run_root :: "str \<Rightarrow> 'w \<Rightarrow> (str + bool) \<times> 'w"
  return_slot :: "str \<Rightarrow> 'w \<Rightarrow> (str + bool) \<times> 'w"
  record_retired :: "retired_payload \<Rightarrow> bool \<Rightarrow> 'w \<Rightarrow> 'w"

record asking_for =
  may_ask_host :: bool
  fetch_objects :: bool
  reconcile :: bool
  ask_origin :: bool
  exclude :: "(str \<times> str) list"
  verdict_files :: "verdict_store option"
  abort_merges_left :: bool

datatype tips = ListedTips | TipsNow

definition cause_of :: "str \<Rightarrow> str \<Rightarrow> str \<Rightarrow> unknown_cause" where
  "cause_of op subj err = \<lparr>operation = op, about = subj, failure = err\<rparr>"

section \<open>Where the copies stand\<close>

definition local_tip_of :: "census \<Rightarrow> 'w world_ops \<Rightarrow> 'w \<Rightarrow> nat \<Rightarrow> str \<Rightarrow> tips \<Rightarrow> tip_here" where
  "local_tip_of c ops w i branch t =
     (let r = repo (places c ! i)
      in case t of
           TipsNow \<Rightarrow> local_tip (git_at ops w r) (disk_at ops w r) branch
         | ListedTips \<Rightarrow>
             (if \<not> is_there (disk_at ops w r) then LocalAbsent
              else case listed_heads c i of
                     Inl said \<Rightarrow> LocalUnreadable said
                   | Inr hs \<Rightarrow>
                       (case Option.bind (hs branch) object_id of
                          Some t \<Rightarrow> LocalAt t | None \<Rightarrow> LocalAbsent)))"

definition add_local :: "census \<Rightarrow> 'w world_ops \<Rightarrow> 'w \<Rightarrow> str \<Rightarrow> tips \<Rightarrow> nat \<Rightarrow> copies \<Rightarrow> copies" where
  "add_local c ops w branch t i cs =
     (case local_tip_of c ops w i branch t of
        LocalAt at \<Rightarrow> cs\<lparr>found := found cs @ [\<lparr>held = LocalCopy i, stands = at\<rparr>]\<rparr>
      | LocalAbsent \<Rightarrow> cs
      | LocalUnreadable said \<Rightarrow> cs\<lparr>unseen := unseen cs @ [cause_of ''copy'' (repo (places c ! i)) said]\<rparr>)"

definition origin_copy :: "str \<Rightarrow> copies \<Rightarrow> copies" where
  "origin_copy at cs = cs\<lparr>found := found cs @ [\<lparr>held = OriginCopy, stands = at\<rparr>]\<rparr>"

definition unseen_origin :: "str \<Rightarrow> str \<Rightarrow> copies \<Rightarrow> copies" where
  "unseen_origin url err cs = cs\<lparr>unseen := unseen cs @ [cause_of ''copy'' url err]\<rparr>"

definition add_origin :: "census \<Rightarrow> 'w world_ops \<Rightarrow> 'w \<Rightarrow> str \<Rightarrow> asking_for \<Rightarrow> tips \<Rightarrow> copies \<Rightarrow> copies" where
  "add_origin c ops w branch ask t cs =
     (case origin_url c of
        None \<Rightarrow> cs
      | Some url \<Rightarrow>
          (if ask_origin ask then
             (case t of
                TipsNow \<Rightarrow>
                  (case remote_tip (git_at ops w (publication_at c)) ''origin'' branch of
                     Inr (TipAt at) \<Rightarrow> origin_copy at cs
                   | Inr TipAbsent \<Rightarrow> cs
                   | Inr TipUnknown \<Rightarrow> unseen_origin url ''the origin could not be asked where the branch is'' cs
                   | Inl e \<Rightarrow> unseen_origin url (git_error_text e) cs)
              | ListedTips \<Rightarrow>
                  (case origin_heads c of
                     Some (Inr hs) \<Rightarrow> (case hs branch of Some at \<Rightarrow> origin_copy at cs | None \<Rightarrow> cs)
                   | Some (Inl said) \<Rightarrow> unseen_origin url said cs
                   | None \<Rightarrow> unseen_origin url ''the origin was not asked where the branch is'' cs))
           else
             (case tracked_heads c of
                Inr hs \<Rightarrow> (case hs branch of Some at \<Rightarrow> origin_copy at cs | None \<Rightarrow> cs)
              | Inl said \<Rightarrow> unseen_origin url (''the origin'' @ [CHR 0x27] @ ''s remote-tracking branches: '' @ said) cs)))"

definition copies_read :: "census \<Rightarrow> 'w world_ops \<Rightarrow> 'w \<Rightarrow> str \<Rightarrow> asking_for \<Rightarrow> tips \<Rightarrow> copies" where
  "copies_read c ops w branch ask t =
     add_origin c ops w branch ask t
       (fold (add_local c ops w branch t) [0..<length (places c)] \<lparr>found = [], unseen = unlisted c\<rparr>)"

definition holder_of :: "census \<Rightarrow> holding \<Rightarrow> branch_holder" where
  "holder_of c h =
     (case h of
        LocalCopy i \<Rightarrow> \<lparr>holder_kind = place_kind (places c ! i), location = repo (places c ! i)\<rparr>
      | OriginCopy \<Rightarrow> \<lparr>holder_kind = OriginHolder,
                        location = (case origin_url c of Some u \<Rightarrow> u | None \<Rightarrow> [])\<rparr>)"

definition holders_of :: "census \<Rightarrow> copies \<Rightarrow> branch_holder list" where
  "holders_of c cs = map (\<lambda>x. holder_of c (held x)) (found cs)"

definition first_tip_of :: "copies \<Rightarrow> str" where
  "first_tip_of cs = (case found cs of [] \<Rightarrow> [] | x # _ \<Rightarrow> stands x)"

definition kept :: "census \<Rightarrow> str \<Rightarrow> keep_reason \<Rightarrow> copies \<Rightarrow> retirement" where
  "kept c branch k cs =
     \<lparr>class_of = Keep, reason = Some k, cause = None, retired_identity = cid c, retired_branch = branch,
      first_tip = first_tip_of cs, judged_base = (case base_branch c of Some b \<Rightarrow> b | None \<Rightarrow> []),
      proof_of = None, content_free = [], superseding = None, differing_paths = [], holders = holders_of c cs\<rparr>"

definition unknown :: "census \<Rightarrow> str \<Rightarrow> unknown_cause \<Rightarrow> copies \<Rightarrow> retirement" where
  "unknown c branch why cs = (kept c branch UnknownReason cs)\<lparr>cause := Some why\<rparr>"

section \<open>Whether anybody works on it\<close>

fun live_holder_in :: "census \<Rightarrow> 'w world_ops \<Rightarrow> 'w \<Rightarrow> str \<Rightarrow> session list \<Rightarrow> unknown_cause + str option" where
  "live_holder_in c ops w branch [] = Ok None"
| "live_holder_in c ops w branch (s # ss) =
     (if for_identity s \<noteq> cid c \<or> \<not> is_open s \<or> \<not> list_ex (\<lambda>p. repo p = clone s) (places c)
      then live_holder_in c ops w branch ss
      else if \<not> (for_branch s = branch \<or> on_branch ops w (worktree s) = Some branch)
      then live_holder_in c ops w branch ss
      else if owner_running ops w s then Ok (Some (token s))
      else case occupied ops w s of
             Inl e \<Rightarrow> Err (cause_of ''live-holder'' (run_root s) e)
           | Inr taken \<Rightarrow>
               (if taken \<or> worked_on ops w s then Ok (Some (token s)) else live_holder_in c ops w branch ss))"

definition live_holder :: "census \<Rightarrow> 'w world_ops \<Rightarrow> 'w \<Rightarrow> str \<Rightarrow> unknown_cause + str option" where
  "live_holder c ops w branch = live_holder_in c ops w branch (sessions c)"

definition holding_places :: "census \<Rightarrow> copies \<Rightarrow> place list" where
  "holding_places c cs = filter_map (\<lambda>x. case held x of LocalCopy i \<Rightarrow> Some (places c ! i) | OriginCopy \<Rightarrow> None) (found cs)"

definition worktrees_for :: "'w world_ops \<Rightarrow> 'w \<Rightarrow> str \<Rightarrow> unknown_cause + (str \<times> str option) list" where
  "worktrees_for ops w r = map_sum (cause_of ''worked-in'' r) (\<lambda>x. x) (worktrees_at ops w r)"

fun checked_out_in :: "'w world_ops \<Rightarrow> 'w \<Rightarrow> str \<Rightarrow> place list \<Rightarrow> unknown_cause + str option" where
  "checked_out_in ops w branch [] = Ok None"
| "checked_out_in ops w branch (p # ps) =
     (if place_kind p \<noteq> CheckoutHolder then checked_out_in ops w branch ps
      else and_then (worktrees_for ops w (repo p)) (\<lambda>ts.
        case List.find (\<lambda>(_, b). b = Some branch) ts of
          Some (t, _) \<Rightarrow> Ok (Some t) | None \<Rightarrow> checked_out_in ops w branch ps))"

fun dirty_among :: "'w world_ops \<Rightarrow> 'w \<Rightarrow> str \<Rightarrow> str \<Rightarrow> (str \<times> str option) list \<Rightarrow> unknown_cause + str option" where
  "dirty_among ops w branch r [] = Ok None"
| "dirty_among ops w branch r ((t, b) # ts) =
     (if b \<noteq> Some branch \<or> t = r then dirty_among ops w branch r ts
      else case dirty_tree ops w t of
             Inl e \<Rightarrow> Err (cause_of ''worked-in'' t e)
           | Inr dirty \<Rightarrow> if dirty then Ok (Some t) else dirty_among ops w branch r ts)"

fun dirty_in :: "'w world_ops \<Rightarrow> 'w \<Rightarrow> str \<Rightarrow> place list \<Rightarrow> unknown_cause + str option" where
  "dirty_in ops w branch [] = Ok None"
| "dirty_in ops w branch (p # ps) =
     (if place_kind p = CheckoutHolder then dirty_in ops w branch ps
      else and_then (worktrees_for ops w (repo p)) (\<lambda>ts.
           and_then (dirty_among ops w branch (repo p) ts) (\<lambda>d.
             case d of Some t \<Rightarrow> Ok (Some t) | None \<Rightarrow> dirty_in ops w branch ps)))"

definition worked_in :: "census \<Rightarrow> 'w world_ops \<Rightarrow> 'w \<Rightarrow> str \<Rightarrow> copies \<Rightarrow> unknown_cause + keep_reason option" where
  "worked_in c ops w branch cs =
     and_then (checked_out_in ops w branch (holding_places c cs)) (\<lambda>out.
       if out \<noteq> None then Ok (Some CheckedOut)
       else and_then (dirty_in ops w branch (holding_places c cs)) (\<lambda>d.
         Ok (if d \<noteq> None then Some DirtyWorktree else None)))"

definition abort_merges :: "census \<Rightarrow> 'w world_ops \<Rightarrow> str \<Rightarrow> copies \<Rightarrow> 'w \<Rightarrow> 'w" where
  "abort_merges c ops branch cs w =
     fold (\<lambda>p w. if place_kind p = CheckoutHolder then w
                 else case worktrees_at ops w (repo p) of
                   Inl _ \<Rightarrow> w
                 | Inr ts \<Rightarrow> fold (\<lambda>(t, b) w. if b = Some branch \<and> t \<noteq> repo p then abort_merge ops t w else w) ts w)
       (holding_places c cs) w"

section \<open>Judging every copy\<close>

definition readable ::
    "census \<Rightarrow> 'w world_ops \<Rightarrow> str \<Rightarrow> asking_for \<Rightarrow> copy \<Rightarrow> 'w \<Rightarrow> str option \<times> 'w" where
  "readable c ops branch ask x w =
     (case held x of
        LocalCopy i \<Rightarrow> (Some (repo (places c ! i)), w)
      | OriginCopy \<Rightarrow>
          (case List.find (\<lambda>i. local_tip_of c ops w i branch ListedTips = LocalAt (stands x)) [0..<length (places c)] of
             Some i \<Rightarrow> (Some (repo (places c ! i)), w)
           | None \<Rightarrow>
               (case List.find (\<lambda>p. is_there (disk_at ops w (repo p)) \<and> has_commit (git_at ops w (repo p)) (stands x))
                       (places c) of
                  Some p \<Rightarrow> (Some (repo p), w)
                | None \<Rightarrow>
                    (if \<not> fetch_objects ask then (None, w)
                     else let (fetched, w) = fetch_branch ops branch w
                          in (if fetched \<and> has_commit (git_at ops w (publication_at c)) (stands x)
                              then Some (publication_at c) else None, w)))))"

fun judge_all ::
    "census \<Rightarrow> 'w world_ops \<Rightarrow> str \<Rightarrow> str \<Rightarrow> evidence \<Rightarrow> asking_for \<Rightarrow> copy list \<Rightarrow> 'w \<Rightarrow>
     (unknown_cause + (copy \<times> judged) list) \<times> 'w" where
  "judge_all c ops branch bt e ask [] w = (Ok [], w)"
| "judge_all c ops branch bt e ask (x # xs) w =
     (case readable c ops branch ask x w of
        (None, w) \<Rightarrow>
          (Err (cause_of ''judge'' (location (holder_of c (held x)))
                 (''no repository on this host has its commit '' @ stands x)), w)
      | (Some r, w) \<Rightarrow>
          (case judge_copy (git_at ops w r) (stands x) bt e (landed_key c) of
             Inl err \<Rightarrow> (Err (cause_of ''judge'' r (git_error_text err)), w)
           | Inr j \<Rightarrow>
               (case judge_all c ops branch bt e ask xs w of
                  (Inl why, w) \<Rightarrow> (Err why, w)
                | (Inr js, w) \<Rightarrow> (Ok ((x, j) # js), w))))"

record summed =
  all_free_commits :: "str list"
  all_differing :: "str list"
  first_proof :: "retirement_proof option"
  first_uncovered :: "(copy \<times> str option) option"

definition add_free :: "str list \<Rightarrow> str list \<Rightarrow> str list" where
  "add_free extra free = fold (\<lambda>c free. if c \<in> set free then free else free @ [c]) extra free"

definition sum_copy :: "copy \<times> judged \<Rightarrow> summed \<Rightarrow> summed" where
  "sum_copy xj s =
     (let j = snd xj; s = s\<lparr>all_free_commits := add_free (free_commits j) (all_free_commits s)\<rparr>
      in if at_base j then s
         else case found_proof j of
           Some p \<Rightarrow> s\<lparr>first_proof := (case first_proof s of None \<Rightarrow> Some p | Some q \<Rightarrow> Some q)\<rparr>
         | None \<Rightarrow>
             s\<lparr>all_differing := all_differing s @ differs_in j,
               first_uncovered := (case first_uncovered s of
                                     None \<Rightarrow> Some (fst xj, forked_at j) | Some u \<Rightarrow> Some u)\<rparr>)"

definition sum_up :: "(copy \<times> judged) list \<Rightarrow> summed" where
  "sum_up js = fold sum_copy js
     \<lparr>all_free_commits = [], all_differing = [], first_proof = None, first_uncovered = None\<rparr>"

definition landing_reached ::
    "census \<Rightarrow> git \<Rightarrow> str \<Rightarrow> str \<Rightarrow> str option \<Rightarrow> supersession \<Rightarrow> git_error + bool" where
  "landing_reached c g bt stand fork s =
     (case s_landing s of
        LandedCommit k \<Rightarrow> known_to_reach g k bt
      | LandedChange u \<Rightarrow>
          and_then (case fork of Some f \<Rightarrow> Ok f
                    | None \<Rightarrow> and_then (merge_base g bt stand) (\<lambda>m. Ok (case m of None \<Rightarrow> [] | Some f \<Rightarrow> f)))
            (\<lambda>since. and_then (if since = [] then Ok [] else log_messages g since bt) (\<lambda>history.
               Ok (names_the_change (web c) history u (s_by s) \<noteq> None))))"

fun superseded_in ::
    "census \<Rightarrow> git \<Rightarrow> str \<Rightarrow> str \<Rightarrow> str option \<Rightarrow> supersession list \<Rightarrow> git_error + superseded_by option" where
  "superseded_in c g bt stand fork [] = Ok None"
| "superseded_in c g bt stand fork (s # ss) =
     and_then (landing_reached c g bt stand fork s) (\<lambda>reached.
       if reached
       then Ok (Some \<lparr>by_branch = s_by s, by_landing = superseding_landing_str (s_landing s), by_labels = s_labels s\<rparr>)
       else superseded_in c g bt stand fork ss)"

definition conclude ::
    "census \<Rightarrow> 'w world_ops \<Rightarrow> str \<Rightarrow> str \<Rightarrow> copies \<Rightarrow> (copy \<times> judged) list \<Rightarrow> asking_for \<Rightarrow> 'w \<Rightarrow>
     (unknown_cause + retirement) \<times> 'w" where
  "conclude c ops branch bt cs js ask w =
     (let s = sum_up js;
          base_r = (kept c branch UnmergedUniqueCommits cs)\<lparr>content_free := all_free_commits s\<rparr>
      in case first_uncovered s of
           None \<Rightarrow>
             (Ok (base_r\<lparr>class_of := Retirable, reason := None,
                         proof_of := Some (case first_proof s of Some p \<Rightarrow> p | None \<Rightarrow> ContentIdentical bt)\<rparr>), w)
         | Some (x, fork) \<Rightarrow>
             (let (r, w) = readable c ops branch ask x w;
                  r = (case r of None \<Rightarrow> [] | Some r \<Rightarrow> r);
                  left = base_r\<lparr>differing_paths := sorted_list_of_set (set (all_differing s))\<rparr>
              in case superseded_in c (git_at ops w r) bt (stands x) fork (rev (supersessions c branch)) of
                   Inl err \<Rightarrow> (Err (cause_of ''supersession'' r (git_error_text err)), w)
                 | Inr None \<Rightarrow> (Ok left, w)
                 | Inr (Some by) \<Rightarrow>
                     (Ok (left\<lparr>class_of := SupersededWithChanges, reason := None, superseding := Some by\<rparr>), w)))"

section \<open>Asking the host\<close>

definition unanswered :: "opened_change \<Rightarrow> str \<Rightarrow> unknown_cause" where
  "unanswered o' err = cause_of ''host-consult'' (opened_url o') err"

definition merged_reply ::
    "'w world_ops \<Rightarrow> 'w \<Rightarrow> str \<Rightarrow> str \<Rightarrow> host_answer option \<Rightarrow> merged_change option reply \<times> str" where
  "merged_reply ops w i at_head replies =
     (case map_option merged replies of
        Some (Answered m) \<Rightarrow> (Answered m, [])
      | _ \<Rightarrow> (case host_merged ops w i at_head of Inr m \<Rightarrow> (Answered m, []) | Inl said \<Rightarrow> (ReplyFailed, said)))"

definition open_reply ::
    "'w world_ops \<Rightarrow> 'w \<Rightarrow> str \<Rightarrow> str \<Rightarrow> str \<Rightarrow> host_answer option \<Rightarrow> change_state reply \<times> str" where
  "open_reply ops w branch onto url replies =
     (case map_option still_open replies of
        Some (Answered st) \<Rightarrow> (Answered st, [])
      | _ \<Rightarrow> (case host_changes ops w branch onto of
                Inr urls \<Rightarrow> (Answered (if url \<in> set urls then IsOpen else NotOpen), [])
              | Inl said \<Rightarrow> (ReplyFailed, said)))"

definition take_merge ::
    "census \<Rightarrow> 'w world_ops \<Rightarrow> str \<Rightarrow> asking_for \<Rightarrow> str \<Rightarrow> str option \<Rightarrow> opened_change \<Rightarrow> merged_change \<Rightarrow> evidence \<Rightarrow>
     'w \<Rightarrow> evidence \<times> 'w" where
  "take_merge c ops branch ask at_head r o' m e w =
     (let carried = (case r of None \<Rightarrow> False
                     | Some r \<Rightarrow> carries_content_of (git_at ops w r) (merged_head m) at_head = Ok True);
          w = (if carried \<and> reconcile ask then late_merge ops branch m w else w);
          e = (case object_id (merged_head m) of
                 None \<Rightarrow> e | Some h \<Rightarrow> e\<lparr>e_merged := Some (opened_url o', h), e_changed := True\<rparr>)
      in (e, w))"

definition consult ::
    "census \<Rightarrow> 'w world_ops \<Rightarrow> str \<Rightarrow> evidence \<Rightarrow> str \<Rightarrow> str option \<Rightarrow> asking_for \<Rightarrow> host_answer option \<Rightarrow> 'w \<Rightarrow>
     host_answer \<times> (unknown_cause + keep_reason option) \<times> evidence \<times> 'w" where
  "consult c ops branch e at_head r ask replies w =
     (if \<not> may_ask_host ask then (not_asked, Ok (Some OpenChangeRequest), e, w)
      else case opened_for c branch of
        None \<Rightarrow> (not_asked, Ok (Some OpenChangeRequest), e, w)
      | Some o' \<Rightarrow>
          (case (opened_id o', opened_base o') of
             (Some i, Some onto) \<Rightarrow>
               (case host_for ops w of
                  Inl said \<Rightarrow> (not_asked, Err (unanswered o' said), e, w)
                | Inr _ \<Rightarrow>
                    (let (m, said) = merged_reply ops w i at_head replies; heard = not_asked\<lparr>merged := m\<rparr>
                     in case m of
                          Answered (Some change) \<Rightarrow>
                            (let (e, w) = take_merge c ops branch ask at_head r o' change e w
                             in (heard, Ok None, e, w))
                        | ReplyFailed \<Rightarrow> (heard, Err (unanswered o' (''whether it merged: '' @ said)), e, w)
                        | _ \<Rightarrow>
                            (let (st, said) = open_reply ops w branch onto (opened_url o') replies;
                                 heard = heard\<lparr>still_open := st\<rparr>
                             in (heard,
                                 (case st of
                                    Answered IsOpen \<Rightarrow> Ok (Some OpenChangeRequest)
                                  | Answered NotOpen \<Rightarrow> Ok (Some ClosedChangeRequest)
                                  | ReplyFailed \<Rightarrow> Err (unanswered o' (''whether it is still open: '' @ said))
                                  | NotAsked \<Rightarrow> Err (unanswered o' ''whether it is still open was not asked'')),
                                 e, w))))
           | _ \<Rightarrow>
               (not_asked,
                Err (unanswered o' (''its opening is recorded without the change request'' @ [CHR 0x27] @ ''s id or base'')),
                e, w)))"

definition is_merge_proof :: "retirement_proof option \<Rightarrow> bool" where
  "is_merge_proof p = (case p of Some (MergedChangeRequest _ _) \<Rightarrow> True | _ \<Rightarrow> False)"

definition readable_first ::
    "census \<Rightarrow> 'w world_ops \<Rightarrow> str \<Rightarrow> asking_for \<Rightarrow> copy list \<Rightarrow> 'w \<Rightarrow> str option \<times> 'w" where
  "readable_first c ops branch ask xs w =
     (case xs of [] \<Rightarrow> (None, w) | x # _ \<Rightarrow> readable c ops branch ask x w)"

definition ask_open_change ::
    "census \<Rightarrow> 'w world_ops \<Rightarrow> str \<Rightarrow> evidence \<Rightarrow> (copy \<times> judged) list \<Rightarrow> asking_for \<Rightarrow> host_answer option \<Rightarrow> 'w \<Rightarrow>
     (unknown_cause + keep_reason option) \<times> bool \<times> host_answer \<times> evidence \<times> 'w" where
  "ask_open_change c ops branch e js ask replies w =
     (if e_change e = None \<or>
         e_merged e \<noteq> None \<and> list_all (\<lambda>(_, j). at_base j \<or> is_merge_proof (found_proof j)) js
      then (Ok None, False, not_asked, e, w)
      else let at_head = (case js of [] \<Rightarrow> [] | (x, _) # _ \<Rightarrow> stands x);
               (r, w) = readable_first c ops branch ask (map fst js) w;
               (heard, keeps, e, w) = consult c ops branch e at_head r ask replies w
           in (keeps, True, heard, e, w))"

section \<open>Deriving, reusing and classifying\<close>

definition derive ::
    "census \<Rightarrow> 'w world_ops \<Rightarrow> str \<Rightarrow> str \<Rightarrow> copies \<Rightarrow> asking_for \<Rightarrow> host_answer option \<Rightarrow> 'w \<Rightarrow> verdict \<times> 'w" where
  "derive c ops branch bt cs ask replies w =
     (let e = evidence_of (recorded_for c branch);
          early = (\<lambda>r asked heard. \<lparr>retirement = r, reached = Early, consulted = asked, host = heard\<rparr>)
      in case judge_all c ops branch bt e ask (found cs) w of
           (Inl why, w) \<Rightarrow> (early (unknown c branch why cs) False not_asked, w)
         | (Inr js, w) \<Rightarrow>
             (if list_all (\<lambda>(_, j). at_base j) js then (early (kept c branch IsBase cs) False not_asked, w)
              else case ask_open_change c ops branch e js ask replies w of
                (Inl why, asked, heard, e, w) \<Rightarrow> (early (unknown c branch why cs) asked heard, w)
              | (Inr (Some k), asked, heard, e, w) \<Rightarrow> (early (kept c branch k cs) asked heard, w)
              | (Inr None, asked, heard, e, w) \<Rightarrow>
                  (let ended = (\<lambda>r. \<lparr>retirement = r, reached = Concluded, consulted = asked, host = heard\<rparr>);
                       (again, w) = (if e_changed e then judge_all c ops branch bt e ask (found cs) w else (Ok js, w))
                   in case again of
                        Inl why \<Rightarrow> (ended (unknown c branch why cs), w)
                      | Inr js \<Rightarrow>
                          (case conclude c ops branch bt cs js ask w of
                             (Inl why, w) \<Rightarrow> (ended (unknown c branch why cs), w)
                           | (Inr r, w) \<Rightarrow> (ended r, w)))))"

datatype derivation = Derived | Reused

definition key_for :: "census \<Rightarrow> str \<Rightarrow> str \<Rightarrow> str \<Rightarrow> copies \<Rightarrow> asking_for \<Rightarrow> key option" where
  "key_for c branch b bt cs ask =
     (if \<not> streams_whole c then None
      else map_option (\<lambda>records.
        \<lparr>k_identity = cid c, k_branch = branch, k_base = b, k_base_tip = bt,
         k_copies = map (\<lambda>x. \<lparr>keyed_kind = holder_kind (holder_of c (held x)),
                              keyed_location = location (holder_of c (held x)), keyed_tip = stands x\<rparr>) (found cs),
         k_unreadable = map cause_unreadable (unseen cs), k_records = records, k_session = session_named c branch,
         k_landed_trailer = landed_key c, k_asking = (if may_ask_host ask then AskingHost else AskingRecords)\<rparr>)
        (stream_digest c branch))"

definition describes :: "census \<Rightarrow> retirement \<Rightarrow> str \<Rightarrow> str \<Rightarrow> copies \<Rightarrow> bool" where
  "describes c r branch b cs \<longleftrightarrow>
     retired_identity r = cid c \<and> retired_branch r = branch \<and> judged_base r = b \<and>
     first_tip r = first_tip_of cs \<and> holders r = holders_of c cs"

definition derive_and_keep ::
    "census \<Rightarrow> 'w world_ops \<Rightarrow> str \<Rightarrow> str \<Rightarrow> copies \<Rightarrow> asking_for \<Rightarrow> (verdict_store \<times> key) option \<Rightarrow>
     host_answer option \<Rightarrow> 'w \<Rightarrow> verdict \<times> derivation \<times> 'w" where
  "derive_and_keep c ops branch bt cs ask recorded replies w =
     (let (v, w) = derive c ops branch bt cs ask replies w
      in case recorded of
           Some (st, k) \<Rightarrow>
             (v, Derived,
              if reason (retirement v) \<noteq> Some UnknownReason \<and> \<not> answer_failed (host v)
              then set_verdicts ops (verdict_write st k v (verdicts_of ops w)) w else w)
         | None \<Rightarrow> (v, Derived, w))"

definition verdict_for ::
    "census \<Rightarrow> 'w world_ops \<Rightarrow> str \<Rightarrow> str \<Rightarrow> str \<Rightarrow> copies \<Rightarrow> asking_for \<Rightarrow> 'w \<Rightarrow> verdict \<times> derivation \<times> 'w" where
  "verdict_for c ops branch b bt cs ask w =
     (let recorded = Option.bind (verdict_files ask) (\<lambda>st. map_option (Pair st) (key_for c branch b bt cs ask))
      in case Option.bind recorded (\<lambda>(st, k). case verdict_read st (verdicts_of ops w) k of
                 Some v \<Rightarrow> if describes c (retirement v) branch b cs then Some v else None | None \<Rightarrow> None) of
           None \<Rightarrow> derive_and_keep c ops branch bt cs ask recorded None w
         | Some v \<Rightarrow>
             (if \<not> consulted v then (v, Reused, w)
              else
                let (r, w) = readable_first c ops branch ask (found cs) w;
                    (heard, _, _, w) = consult c ops branch (evidence_of (recorded_for c branch)) (first_tip_of cs) r ask None w
                in if \<not> answer_failed heard \<and> same_as heard (host v) then (v, Reused, w)
                   else derive_and_keep c ops branch bt cs ask recorded (Some heard) w))"

definition classify ::
    "census \<Rightarrow> 'w world_ops \<Rightarrow> str \<Rightarrow> copies \<Rightarrow> asking_for \<Rightarrow> 'w \<Rightarrow> retirement \<times> derivation \<times> 'w" where
  "classify c ops branch cs ask w =
     (case (base_branch c, base_tip c) of
        (Some b, Some bt) \<Rightarrow>
          (if branch = b then (kept c branch IsBase cs, Derived, w)
           else case live_holder c ops w branch of
             Inl why \<Rightarrow> (unknown c branch why cs, Derived, w)
           | Inr (Some _) \<Rightarrow> (kept c branch HeldByLiveSession cs, Derived, w)
           | Inr None \<Rightarrow>
               (if (cid c, branch) \<in> set (exclude ask) then (kept c branch Excluded cs, Derived, w)
                else
                  let w = (if abort_merges_left ask then abort_merges c ops branch cs w else w)
                  in case unseen cs of
                       why # _ \<Rightarrow> (unknown c branch why cs, Derived, w)
                     | [] \<Rightarrow>
                         (let (v, d, w) = verdict_for c ops branch b bt cs ask w
                          in if reached v = Early then (retirement v, d, w)
                             else case worked_in c ops w branch cs of
                               Inr (Some k) \<Rightarrow> (kept c branch k cs, d, w)
                             | Inr None \<Rightarrow> (retirement v, d, w)
                             | Inl why \<Rightarrow> (unknown c branch why cs, d, w))))
      | _ \<Rightarrow>
          (unknown c branch
             (case unread_base c of Some why \<Rightarrow> why
              | None \<Rightarrow> cause_of ''census'' (publication_at c) ''the base could not be read'') cs, Derived, w))"

section \<open>Deleting\<close>

datatype deletion = MovedUnder | DeletedFrom "branch_holder list" "failed_holder list"

type_synonym done_so_far = "(branch_holder \<times> (str \<times> str) option) list"

definition put_all_back :: "'w world_ops \<Rightarrow> str \<Rightarrow> done_so_far \<Rightarrow> 'w \<Rightarrow> 'w" where
  "put_all_back ops branch ds w =
     fold (\<lambda>(_, place) w. case place of None \<Rightarrow> w | Some (r, t) \<Rightarrow> snd (put_back ops r branch t w)) ds w"

fun detach_all :: "'w world_ops \<Rightarrow> str \<Rightarrow> (str \<times> str option) list \<Rightarrow> 'w \<Rightarrow> (str + unit) \<times> 'w" where
  "detach_all ops branch [] w = (Ok (), w)"
| "detach_all ops branch ((t, b) # ts) w =
     (if b \<noteq> Some branch then detach_all ops branch ts w
      else case detach ops t w of
             (Inl e, w) \<Rightarrow> (Err e, w)
           | (Inr _, w) \<Rightarrow> detach_all ops branch ts w)"

definition stand_off :: "'w world_ops \<Rightarrow> str \<Rightarrow> str \<Rightarrow> 'w \<Rightarrow> (str + unit) \<times> 'w" where
  "stand_off ops r branch w =
     (case worktrees_at ops w r of Inl e \<Rightarrow> (Err e, w) | Inr ts \<Rightarrow> detach_all ops branch ts w)"

definition failed_at :: "branch_holder \<Rightarrow> str \<Rightarrow> failed_holder" where
  "failed_at h e = \<lparr>failed_kind = holder_kind h, failed_location = location h, failed_error = e\<rparr>"

definition working_in_it :: str where
  "working_in_it = ''a read or teardown is working in it right now''"

text \<open>What one local deletion comes to: nothing left to do with the copy, a failure, or the copy moved.\<close>

datatype one_end = GoneFrom "(str \<times> str) option" | NotGone str | MovedAway

definition delete_one :: "'w world_ops \<Rightarrow> str \<Rightarrow> str \<Rightarrow> str \<Rightarrow> 'w \<Rightarrow> one_end \<times> 'w" where
  "delete_one ops r branch t w =
     (case probe_clone ops r w of
        (Inl e, w) \<Rightarrow> (NotGone e, w)
      | (Inr False, w) \<Rightarrow> (NotGone working_in_it, w)
      | (Inr True, w) \<Rightarrow>
          (case stand_off ops r branch w of
             (Inl e, w) \<Rightarrow> (NotGone e, w)
           | (Inr _, w) \<Rightarrow>
               (case delete_at ops r branch t w of
                  (Inr _, w) \<Rightarrow> (GoneFrom (Some (r, t)), w)
                | (Inl e, w) \<Rightarrow>
                    (case local_tip (git_at ops w r) (disk_at ops w r) branch of
                       LocalAt now \<Rightarrow> if now \<noteq> t then (MovedAway, w) else (NotGone (git_error_text e), w)
                     | LocalAbsent \<Rightarrow> (GoneFrom None, w)
                     | LocalUnreadable _ \<Rightarrow> (NotGone (git_error_text e), w)))))"

fun delete_locals ::
    "census \<Rightarrow> 'w world_ops \<Rightarrow> str \<Rightarrow> copy list \<Rightarrow> done_so_far \<Rightarrow> failed_holder list \<Rightarrow> 'w \<Rightarrow>
     (done_so_far \<times> failed_holder list) option \<times> 'w" where
  "delete_locals c ops branch [] ds fs w = (Some (ds, fs), w)"
| "delete_locals c ops branch (x # xs) ds fs w =
     (case held x of
        OriginCopy \<Rightarrow> delete_locals c ops branch xs ds fs w
      | LocalCopy i \<Rightarrow>
          (let h = holder_of c (held x)
           in case delete_one ops (repo (places c ! i)) branch (stands x) w of
                (GoneFrom place, w) \<Rightarrow> delete_locals c ops branch xs (ds @ [(h, place)]) fs w
              | (NotGone e, w) \<Rightarrow> delete_locals c ops branch xs ds (fs @ [failed_at h e]) w
              | (MovedAway, w) \<Rightarrow> (None, put_all_back ops branch ds w)))"

definition refusal_of :: "git_error + pushed \<Rightarrow> str option" where
  "refusal_of p =
     (case p of
        Inl e \<Rightarrow> Some (git_error_text e)
      | Inr (Accepted _) \<Rightarrow> None
      | Inr (Refused said refs) \<Rightarrow>
          Some (case refusal (Refused said refs) of Some why \<Rightarrow> why | None \<Rightarrow> trim said))"

definition delete :: "census \<Rightarrow> 'w world_ops \<Rightarrow> str \<Rightarrow> copies \<Rightarrow> 'w \<Rightarrow> deletion \<times> 'w" where
  "delete c ops branch cs w =
     (case delete_locals c ops branch (found cs) [] [] w of
        (None, w) \<Rightarrow> (MovedUnder, w)
      | (Some (ds, fs), w) \<Rightarrow>
          (case List.find (\<lambda>x. held x = OriginCopy) (found cs) of
             None \<Rightarrow> (DeletedFrom (map fst ds) fs, w)
           | Some x \<Rightarrow>
               (let h = holder_of c OriginCopy; (answered, w) = delete_origin ops branch (stands x) w
                in case refusal_of answered of
                     None \<Rightarrow> (DeletedFrom (map fst ds @ [h]) fs, w)
                   | Some why \<Rightarrow>
                       (case remote_tip (git_at ops w (publication_at c)) ''origin'' branch of
                          Inr TipAbsent \<Rightarrow> (DeletedFrom (map fst ds @ [h]) fs, w)
                        | Inr (TipAt now) \<Rightarrow>
                            (if now \<noteq> stands x then (MovedUnder, put_all_back ops branch ds w)
                             else (DeletedFrom (map fst ds) (fs @ [failed_at h why]), w))
                        | _ \<Rightarrow> (DeletedFrom (map fst ds) (fs @ [failed_at h why]), w)))))"

section \<open>Retiring\<close>

record plan =
  closing :: "session list"
  roots :: "str list"
  slots :: "str list"

definition path_under :: "str \<Rightarrow> str \<Rightarrow> bool" where
  "path_under p d \<longleftrightarrow> p = d \<or> starts_with (d @ ''/'') p"

definition add_slot :: "str \<Rightarrow> str list \<Rightarrow> str list" where
  "add_slot s ss = (if s \<in> set ss then ss else ss @ [s])"

definition plan_for :: "census \<Rightarrow> 'w world_ops \<Rightarrow> 'w \<Rightarrow> str \<Rightarrow> copies \<Rightarrow> plan" where
  "plan_for c ops w branch cs =
     (let ended = filter (\<lambda>s. for_identity s = cid c \<and> for_branch s = branch \<and> \<not> owner_running ops w s) (sessions c);
          of_copies = fold (\<lambda>p ss. case slot_of p of None \<Rightarrow> ss | Some s \<Rightarrow> add_slot s ss) (holding_places c cs) [];
          all = fold (\<lambda>p ss. case slot_of p of None \<Rightarrow> ss
                        | Some s \<Rightarrow> if on_branch ops w (path_join s ''worktree'') = Some branch then add_slot s ss else ss)
                  (places c) of_copies
      in \<lparr>closing = ended,
          roots = map run_root (filter (\<lambda>s. \<not> in_slot s \<and> is_dir ops w (run_root s) \<and>
            (case runs_dir c of None \<Rightarrow> False | Some d \<Rightarrow> path_under (run_root s) d)) ended),
          slots = all\<rparr>)"

datatype retire_outcome = RetiredAll | WouldRetire | AlreadyRetired | KeptIt | Incomplete

record retired =
  retirement_of :: retirement
  outcome :: retire_outcome
  deleted :: "branch_holder list"
  failed :: "failed_holder list"
  slots_returned :: "str list"
  run_roots_removed :: "str list"
  sessions_closed :: "str list"
  derivation_of :: derivation

definition nothing_retired :: "retirement \<Rightarrow> retire_outcome \<Rightarrow> retired" where
  "nothing_retired r o' = \<lparr>retirement_of = r, outcome = o', deleted = [], failed = [], slots_returned = [],
     run_roots_removed = [], sessions_closed = [], derivation_of = Derived\<rparr>"

fun close_sessions ::
    "'w world_ops \<Rightarrow> session list \<Rightarrow> str list \<Rightarrow> failed_holder list \<Rightarrow> 'w \<Rightarrow> str list \<times> failed_holder list \<times> 'w" where
  "close_sessions ops [] closed fs w = (closed, fs, w)"
| "close_sessions ops (s # ss) closed fs w =
     (if \<not> is_open s then close_sessions ops ss closed fs w
      else case close_session ops s w of
        (Inl e, w) \<Rightarrow>
          close_sessions ops ss closed
            (fs @ [\<lparr>failed_kind = (if in_slot s then SlotHolder else RunCloneHolder), failed_location = run_root s,
                   failed_error = ''its session record '' @ token s @ '' could not be closed: '' @ e\<rparr>]) w
      | (Inr _, w) \<Rightarrow> close_sessions ops ss (closed @ [token s]) fs (say_closed ops s w))"

text \<open>A run root removed or a slot returned: a guard on its clone first, then the operation.\<close>

definition guarded ::
    "(str \<Rightarrow> 'w \<Rightarrow> (str + bool) \<times> 'w) \<Rightarrow> (str \<Rightarrow> 'w \<Rightarrow> (str + bool) \<times> 'w) \<Rightarrow> str \<Rightarrow> 'w \<Rightarrow> (str + bool) \<times> 'w" where
  "guarded guard act p w =
     (case guard (path_join p ''clone'') w of
        (Inl e, w) \<Rightarrow> (Err e, w)
      | (Inr False, w) \<Rightarrow> (Err working_in_it, w)
      | (Inr True, w) \<Rightarrow> act p w)"

fun each_path ::
    "(str \<Rightarrow> 'w \<Rightarrow> (str + bool) \<times> 'w) \<Rightarrow> holder_kind \<Rightarrow> str list \<Rightarrow> str list \<Rightarrow> failed_holder list \<Rightarrow> 'w \<Rightarrow>
     str list \<times> failed_holder list \<times> 'w" where
  "each_path act k [] out fs w = (out, fs, w)"
| "each_path act k (p # ps) out fs w =
     (case act p w of
        (Inr True, w) \<Rightarrow> each_path act k ps (out @ [p]) fs w
      | (Inr False, w) \<Rightarrow> each_path act k ps out fs w
      | (Inl e, w) \<Rightarrow> each_path act k ps out (fs @ [\<lparr>failed_kind = k, failed_location = p, failed_error = e\<rparr>]) w)"

definition payload_of :: "retired \<Rightarrow> str \<Rightarrow> acting \<Rightarrow> trigger \<Rightarrow> retired_payload" where
  "payload_of rd branch acting trigger =
     (let r = retirement_of rd
      in \<lparr>p_identity = retired_identity r, p_branch = branch, p_tip = first_tip r, p_class = class_of r,
          p_reason = reason r, p_proof = proof_of r, p_superseded_by = superseding r,
          p_differing_paths = differing_paths r, p_mode = acting, p_trigger = trigger, p_deleted = deleted rd,
          p_failed = failed rd, p_slots_returned = slots_returned rd, p_run_roots_removed = run_roots_removed rd,
          p_sessions_closed = sessions_closed rd\<rparr>)"

definition finish ::
    "'w world_ops \<Rightarrow> str \<Rightarrow> retirement \<Rightarrow> plan \<Rightarrow> branch_holder list \<Rightarrow> failed_holder list \<Rightarrow> acting \<Rightarrow> trigger \<Rightarrow> 'w \<Rightarrow>
     retired \<times> 'w" where
  "finish ops branch r p ds fs acting trigger w =
     (let (closed, fs, w) = close_sessions ops (closing p) [] fs w;
          (removed, fs, w) = each_path (guarded (close_clone ops) (remove_run_root ops)) RunCloneHolder (roots p) [] fs w;
          (returned, fs, w) = each_path (guarded (probe_clone ops) (return_slot ops)) SlotHolder (slots p) [] fs w;
          rd = \<lparr>retirement_of = r, outcome = (if fs = [] then RetiredAll else Incomplete), deleted = ds, failed = fs,
                slots_returned = returned, run_roots_removed = removed, sessions_closed = closed,
                derivation_of = Derived\<rparr>
      in (rd, record_retired ops (payload_of rd branch acting trigger) (outcome rd \<noteq> Incomplete) w))"

definition RECLASSIFICATIONS :: nat where "RECLASSIFICATIONS = 3"

definition gave_up :: "str \<Rightarrow> retirement \<Rightarrow> retirement" where
  "gave_up branch r =
     r\<lparr>class_of := Keep, reason := Some UnknownReason,
       cause := Some (cause_of ''copy'' branch
         (''a copy of it moved on each of 3 reads made immediately before deleting it'')),
       proof_of := None, superseding := None, differing_paths := []\<rparr>"

text \<open>The loop of \<open>act\<close> with the attempts that are left.\<close>

fun act_from ::
    "nat \<Rightarrow> census \<Rightarrow> 'w world_ops \<Rightarrow> str \<Rightarrow> copies \<Rightarrow> acting \<Rightarrow> trigger \<Rightarrow> bool \<Rightarrow> asking_for \<Rightarrow> 'w \<Rightarrow> retired \<times> 'w" where
  "act_from left c ops branch cs acting trigger dry_run ask w =
     (let (r, d, w) = classify c ops branch cs ask w
      in if \<not> permits acting (class_of r) (reason r) then ((nothing_retired r KeptIt)\<lparr>derivation_of := d\<rparr>, w)
         else let p = plan_for c ops w branch cs
         in if dry_run then
              (\<lparr>retirement_of = r, outcome = WouldRetire, deleted = holders_of c cs, failed = [],
                slots_returned = slots p, run_roots_removed = roots p, sessions_closed = map token (closing p),
                derivation_of = d\<rparr>, w)
            else
              let (ended, w) = (if copies_read c ops w branch ask TipsNow \<noteq> cs then (MovedUnder, w)
                                else delete c ops branch cs w)
              in case ended of
                   DeletedFrom ds fs \<Rightarrow>
                     (let (rd, w) = finish ops branch r p ds fs acting trigger w
                      in (rd\<lparr>derivation_of := d\<rparr>,
                          case verdict_files ask of
                            Some st \<Rightarrow>
                              if outcome rd = RetiredAll
                              then set_verdicts ops (verdict_forget st (cid c) branch (verdicts_of ops w)) w else w
                          | None \<Rightarrow> w))
                 | MovedUnder \<Rightarrow>
                     (case left of
                        Suc (Suc n) \<Rightarrow>
                          act_from (Suc n) c ops branch (copies_read c ops w branch ask TipsNow) acting trigger dry_run ask w
                      | _ \<Rightarrow> (nothing_retired (gave_up branch r) KeptIt, w)))"

definition act ::
    "census \<Rightarrow> 'w world_ops \<Rightarrow> str \<Rightarrow> copies \<Rightarrow> acting \<Rightarrow> trigger \<Rightarrow> bool \<Rightarrow> asking_for \<Rightarrow> 'w \<Rightarrow> retired \<times> 'w" where
  "act = act_from RECLASSIFICATIONS"

end
