(* ===== verification/Retiring.thy ===== *)
theory Retiring
  imports Retire
begin

text \<open>
  What retiring a branch guarantees: the class of a branch is retirable only when every copy of it is
  covered, a run deletes only copies it classified and the actor is permitted, a branch that moved under
  a deletion loses nothing, and what is derived of a branch is a document its readers accept. The world's
  losses are read off it by a function that only the two deletions enlarge.
\<close>

declare act_from.simps [simp del]

section \<open>Evidence\<close>

text \<open>The host said, to somebody who asked it, that a change request merged.\<close>

definition host_said :: "'w world_ops \<Rightarrow> merged_change \<Rightarrow> bool" where
  "host_said ops m \<longleftrightarrow> (\<exists>w i at_head. host_merged ops w i at_head = Ok (Some m))"

definition heard_from :: "'w world_ops \<Rightarrow> host_answer \<Rightarrow> bool" where
  "heard_from ops h \<longleftrightarrow> (\<forall>m. merged h = Answered (Some m) \<longrightarrow> host_said ops m)"

text \<open>What a copy of a branch is judged on: what its stream recorded, or the merge the host reported of the
  change request it is recorded to have opened.\<close>

definition evidence_read :: "census \<Rightarrow> 'w world_ops \<Rightarrow> str \<Rightarrow> evidence \<Rightarrow> bool" where
  "evidence_read c ops branch e \<longleftrightarrow>
     e = evidence_of (recorded_for c branch) \<or>
     (\<exists>o' m h. opened_for c branch = Some o' \<and> host_said ops m \<and> object_id (merged_head m) = Some h \<and>
        e = (evidence_of (recorded_for c branch))\<lparr>e_merged := Some (opened_url o', h), e_changed := True\<rparr>)"

lemma not_asked_heard: "heard_from ops not_asked"
  by (simp add: heard_from_def not_asked_def)

lemma merged_reply_said:
  assumes "merged_reply ops w i at_head replies = (Answered (Some m), said)" "\<forall>h. replies = Some h \<longrightarrow> heard_from ops h"
  shows "host_said ops m"
  using assms by (auto simp: merged_reply_def host_said_def heard_from_def split: option.splits reply.splits sum.splits)

lemma merged_reply_asked: "merged_reply ops w i at_head replies \<noteq> (NotAsked, said)"
  by (auto simp: merged_reply_def split: option.splits reply.splits sum.splits)

lemmas consult_step = not_True_eq_False if_False option.case sum.case prod.case Let_def reply.case

lemma consult_merged:
  assumes "may_ask_host ask" "opened_for c branch = Some o'" "opened_id o' = Some i" "opened_base o' = Some onto"
    "host_for ops w = Ok ()" "merged_reply ops w i at_head replies = (Answered (Some change), said)"
  shows "consult c ops branch e at_head r ask replies w =
    (case take_merge c ops branch ask at_head r o' change e w of
       (e, w) \<Rightarrow> (not_asked\<lparr>merged := Answered (Some change)\<rparr>, Ok None, e, w))"
  unfolding consult_def by (simp only: assms consult_step)

lemma consult_open:
  assumes "may_ask_host ask" "opened_for c branch = Some o'" "opened_id o' = Some i" "opened_base o' = Some onto"
    "host_for ops w = Ok ()" "merged_reply ops w i at_head replies = (Answered None, said)"
  shows "\<exists>out heard. consult c ops branch e at_head r ask replies w = (heard, out, e, w) \<and> merged heard = Answered None"
proof -
  obtain st said' where st: "open_reply ops w branch onto (opened_url o') replies = (st, said')" by force
  show ?thesis unfolding consult_def by (simp only: assms st consult_step) simp
qed

lemma consult_failed:
  assumes "may_ask_host ask" "opened_for c branch = Some o'" "opened_id o' = Some i" "opened_base o' = Some onto"
    "host_for ops w = Ok ()" "merged_reply ops w i at_head replies = (ReplyFailed, said)"
  shows "\<exists>out heard. consult c ops branch e at_head r ask replies w = (heard, out, e, w) \<and> merged heard = ReplyFailed"
  unfolding consult_def by (simp only: assms consult_step) simp

lemma consult_unasked:
  assumes "\<not> (may_ask_host ask \<and> (\<exists>o' i onto. opened_for c branch = Some o' \<and> opened_id o' = Some i \<and>
    opened_base o' = Some onto \<and> host_for ops w = Ok ()))"
  shows "\<exists>out. consult c ops branch e at_head r ask replies w = (not_asked, out, e, w)"
proof (cases "may_ask_host ask")
  case asked: True
  show ?thesis
  proof (cases "opened_for c branch")
    case (Some o')
    show ?thesis
    proof (cases "opened_id o' = None \<or> opened_base o' = None")
      case True
      then show ?thesis using asked Some by (cases "opened_id o'"; cases "opened_base o'") (simp_all add: consult_def)
    next
      case False
      with assms asked Some obtain said where "host_for ops w = Inl said" by (cases "host_for ops w") auto
      with False asked Some show ?thesis by (cases "opened_id o'"; cases "opened_base o'") (simp_all add: consult_def)
    qed
  qed (simp add: consult_def asked)
qed (simp add: consult_def)

lemma consult_heard:
  assumes "consult c ops branch e at_head r ask replies w = (heard, out, e', w')" "\<forall>h. replies = Some h \<longrightarrow> heard_from ops h"
  shows "heard_from ops heard \<and> (e' = e \<or> (\<exists>o' m h. opened_for c branch = Some o' \<and> host_said ops m \<and>
    object_id (merged_head m) = Some h \<and> e' = e\<lparr>e_merged := Some (opened_url o', h), e_changed := True\<rparr>))"
proof (cases "may_ask_host ask \<and> (\<exists>o' i onto. opened_for c branch = Some o' \<and> opened_id o' = Some i \<and>
    opened_base o' = Some onto \<and> host_for ops w = Ok ())")
  case False
  with assms(1) consult_unasked [OF False, of e at_head r replies] not_asked_heard show ?thesis by auto
next
  case True
  then obtain o' i onto where o': "may_ask_host ask" "opened_for c branch = Some o'" "opened_id o' = Some i"
    "opened_base o' = Some onto" "host_for ops w = Ok ()" by blast
  obtain m said where m: "merged_reply ops w i at_head replies = (m, said)" by force
  consider change where "m = Answered (Some change)" | "m = Answered None" | "m = ReplyFailed"
    using m merged_reply_asked [of ops w i at_head replies said] by (cases m; metis option.exhaust)
  then show ?thesis
  proof cases
    case (1 change)
    have said: "host_said ops change" by (rule merged_reply_said [OF m [unfolded 1] assms(2)])
    obtain e1 w1 where t: "take_merge c ops branch ask at_head r o' change e w = (e1, w1)" by force
    from consult_merged [OF o' m [unfolded 1], of e r] assms(1) t
    have "heard = not_asked\<lparr>merged := Answered (Some change)\<rparr>" "e' = e1" by simp_all
    moreover have "e1 = e \<or> (\<exists>h. object_id (merged_head change) = Some h \<and>
        e1 = e\<lparr>e_merged := Some (opened_url o', h), e_changed := True\<rparr>)"
      using t by (auto simp: take_merge_def Let_def split: option.splits)
    ultimately show ?thesis using said o'(2) by (auto simp: heard_from_def)
  next
    case 2
    from consult_open [OF o' m [unfolded 2], of e r] assms(1) show ?thesis by (auto simp: heard_from_def)
  next
    case 3
    from consult_failed [OF o' m [unfolded 3], of e r] assms(1) show ?thesis by (auto simp: heard_from_def)
  qed
qed

lemma ask_open_change_heard:
  assumes "ask_open_change c ops branch (evidence_of (recorded_for c branch)) js ask replies w = (keeps, asked, heard, e', w')"
    "\<forall>h. replies = Some h \<longrightarrow> heard_from ops h"
  shows "evidence_read c ops branch e' \<and> heard_from ops heard"
proof (cases "e_change (evidence_of (recorded_for c branch)) = None \<or>
    e_merged (evidence_of (recorded_for c branch)) \<noteq> None \<and>
      list_all (\<lambda>(_, j). at_base j \<or> is_merge_proof (found_proof j)) js")
  case True
  with assms(1) show ?thesis by (simp add: ask_open_change_def evidence_read_def not_asked_heard)
next
  case False
  obtain r w0 where r: "readable_first c ops branch ask (map fst js) w = (r, w0)" by force
  define at_head where "at_head = (case js of [] \<Rightarrow> [] | (x, _) # _ \<Rightarrow> stands x)"
  obtain h k e1 w1 where consulted:
    "consult c ops branch (evidence_of (recorded_for c branch)) at_head r ask replies w0 = (h, k, e1, w1)"
    by (metis prod_cases4)
  have "ask_open_change c ops branch (evidence_of (recorded_for c branch)) js ask replies w = (k, True, h, e1, w1)"
    unfolding ask_open_change_def using False
    by (simp only: if_False Let_def r prod.case consulted [unfolded at_head_def])
  with assms(1) consult_heard [OF consulted assms(2)] show ?thesis by (auto simp: evidence_read_def)
qed

section \<open>Judging every copy\<close>

definition judges :: "census \<Rightarrow> 'w world_ops \<Rightarrow> str \<Rightarrow> evidence \<Rightarrow> copy \<Rightarrow> judged \<Rightarrow> bool" where
  "judges c ops bt e x j \<longleftrightarrow> (\<exists>w r. judge_copy (git_at ops w r) (stands x) bt e (landed_key c) = Ok j)"

lemma judge_all_Ok:
  "judge_all c ops branch bt e ask xs w = (Inr js, w') \<Longrightarrow> map fst js = xs \<and> (\<forall>(x, j) \<in> set js. judges c ops bt e x j)"
proof (induction xs arbitrary: w js)
  case (Cons x xs)
  from Cons.prems obtain r w1 j js' where step: "readable c ops branch ask x w = (Some r, w1)"
    "judge_copy (git_at ops w1 r) (stands x) bt e (landed_key c) = Inr j"
    "judge_all c ops branch bt e ask xs w1 = (Inr js', w')" "js = (x, j) # js'"
    by (auto split: prod.splits option.splits sum.splits)
  then have "judges c ops bt e x j" by (auto simp: judges_def)
  with step(4) Cons.IH [OF step(3)] show ?case by auto
qed simp

lemma sum_copy_covered:
  "first_uncovered (sum_copy xj s) = None \<Longrightarrow> first_uncovered s = None \<and> (at_base (snd xj) \<or> found_proof (snd xj) \<noteq> None)"
  by (auto simp: sum_copy_def Let_def split: if_splits option.splits)

lemma sum_copy_proof:
  "first_proof (sum_copy xj s) = Some p \<Longrightarrow> first_proof s = Some p \<or> (\<not> at_base (snd xj) \<and> found_proof (snd xj) = Some p)"
  by (auto simp: sum_copy_def Let_def split: if_splits option.splits)

lemma fold_covered:
  "first_uncovered (fold sum_copy js s) = None \<Longrightarrow>
   first_uncovered s = None \<and> (\<forall>(x, j) \<in> set js. at_base j \<or> found_proof j \<noteq> None)"
proof (induction js arbitrary: s)
  case (Cons xj js)
  then have "first_uncovered (sum_copy xj s) = None" "\<forall>(x, j) \<in> set js. at_base j \<or> found_proof j \<noteq> None" by auto
  with sum_copy_covered [of xj s] show ?case by auto
qed simp

lemma sum_up_covered:
  "first_uncovered (sum_up js) = None \<Longrightarrow> (x, j) \<in> set js \<Longrightarrow> at_base j \<or> found_proof j \<noteq> None"
  unfolding sum_up_def by (drule fold_covered) auto

section \<open>Classes\<close>

definition well_formed :: "retirement \<Rightarrow> bool" where
  "well_formed r \<longleftrightarrow>
     (class_of r = Keep) = (reason r \<noteq> None) \<and> (class_of r = Retirable) = (proof_of r \<noteq> None) \<and>
     (class_of r = SupersededWithChanges) = (superseding r \<noteq> None) \<and>
     (cause r = None \<or> reason r = Some UnknownReason)"

lemma kept_simps [simp]:
  "class_of (kept c branch k cs) = Keep" "reason (kept c branch k cs) = Some k"
  "proof_of (kept c branch k cs) = None" "superseding (kept c branch k cs) = None" "cause (kept c branch k cs) = None"
  by (simp_all add: kept_def)

lemma unknown_simps [simp]:
  "class_of (unknown c branch why cs) = Keep" "reason (unknown c branch why cs) = Some UnknownReason"
  "proof_of (unknown c branch why cs) = None" "superseding (unknown c branch why cs) = None"
  "cause (unknown c branch why cs) = Some why"
  by (simp_all add: unknown_def)

lemma kept_well_formed [simp]: "well_formed (kept c branch k cs)" "well_formed (unknown c branch why cs)"
  by (simp_all add: well_formed_def)

lemma conclude_cases:
  assumes "conclude c ops branch bt cs js ask w = (Inr r, w')"
  shows "well_formed r \<and> (class_of r = Retirable \<longrightarrow> first_uncovered (sum_up js) = None)"
  using assms
  by (auto simp: conclude_def Let_def well_formed_def split: option.splits prod.splits sum.splits)

text \<open>Every copy of a branch is the base's own, or proved to hold nothing beyond it.\<close>

definition all_covered :: "census \<Rightarrow> 'w world_ops \<Rightarrow> str \<Rightarrow> str \<Rightarrow> copies \<Rightarrow> bool" where
  "all_covered c ops branch bt cs \<longleftrightarrow>
     (\<exists>e. evidence_read c ops branch e \<and>
       (\<forall>x \<in> set (found cs). \<exists>j. judges c ops bt e x j \<and> (at_base j \<or> found_proof j \<noteq> None)))"

lemma concluded_covered:
  assumes "judge_all c ops branch bt e ask (found cs) w = (Inr js, w0)" "evidence_read c ops branch e"
    "first_uncovered (sum_up js) = None"
  shows "all_covered c ops branch bt cs"
proof -
  from judge_all_Ok [OF assms(1)] have js: "map fst js = found cs" "\<forall>(x, j) \<in> set js. judges c ops bt e x j" by auto
  have "\<exists>j. judges c ops bt e x j \<and> (at_base j \<or> found_proof j \<noteq> None)" if "x \<in> set (found cs)" for x
  proof -
    from that have "x \<in> fst ` set js" by (simp flip: js(1))
    then obtain j where "(x, j) \<in> set js" by auto
    with js(2) sum_up_covered [OF assms(3)] show ?thesis by (intro exI [of _ j]) auto
  qed
  with assms(2) show ?thesis by (auto simp: all_covered_def)
qed

lemma derive_unjudged:
  assumes "judge_all c ops branch bt (evidence_of (recorded_for c branch)) ask (found cs) w = (Inl why, w1)"
  shows "derive c ops branch bt cs ask replies w =
    (\<lparr>retirement = unknown c branch why cs, reached = Early, consulted = False, host = not_asked\<rparr>, w1)"
  unfolding derive_def by (simp only: assms consult_step)

lemma derive_base:
  assumes "judge_all c ops branch bt (evidence_of (recorded_for c branch)) ask (found cs) w = (Inr js, w1)"
    "list_all (\<lambda>(_, j). at_base j) js"
  shows "derive c ops branch bt cs ask replies w =
    (\<lparr>retirement = kept c branch IsBase cs, reached = Early, consulted = False, host = not_asked\<rparr>, w1)"
  unfolding derive_def by (simp only: assms consult_step if_True)

lemma derive_asked:
  assumes "judge_all c ops branch bt (evidence_of (recorded_for c branch)) ask (found cs) w = (Inr js, w1)"
    "\<not> list_all (\<lambda>(_, j). at_base j) js"
    "ask_open_change c ops branch (evidence_of (recorded_for c branch)) js ask replies w1 = (keeps, asked, heard, e, w2)"
    "(if e_changed e then judge_all c ops branch bt e ask (found cs) w2 else (Ok js, w2)) = (again, w3)"
  shows "derive c ops branch bt cs ask replies w =
    (case keeps of
       Inl why \<Rightarrow> (\<lparr>retirement = unknown c branch why cs, reached = Early, consulted = asked, host = heard\<rparr>, w2)
     | Inr (Some k) \<Rightarrow> (\<lparr>retirement = kept c branch k cs, reached = Early, consulted = asked, host = heard\<rparr>, w2)
     | Inr None \<Rightarrow>
         (case again of
            Inl why \<Rightarrow> (\<lparr>retirement = unknown c branch why cs, reached = Concluded, consulted = asked, host = heard\<rparr>, w3)
          | Inr js \<Rightarrow>
              (case conclude c ops branch bt cs js ask w3 of
                 (Inl why, w) \<Rightarrow> (\<lparr>retirement = unknown c branch why cs, reached = Concluded, consulted = asked, host = heard\<rparr>, w)
               | (Inr r, w) \<Rightarrow> (\<lparr>retirement = r, reached = Concluded, consulted = asked, host = heard\<rparr>, w))))"
  unfolding derive_def
  by (cases keeps; simp only: assms consult_step)

lemma derive_cases:
  assumes "derive c ops branch bt cs ask replies w = (v, w')" "\<forall>h. replies = Some h \<longrightarrow> heard_from ops h"
  shows "well_formed (retirement v) \<and>
    (class_of (retirement v) = Retirable \<longrightarrow> reached v = Concluded \<and> all_covered c ops branch bt cs)"
proof -
  define e0 where "e0 = evidence_of (recorded_for c branch)"
  have e0: "evidence_read c ops branch e0" by (simp add: e0_def evidence_read_def)
  obtain out w1 where first: "judge_all c ops branch bt e0 ask (found cs) w = (out, w1)" by force
  show ?thesis
  proof (cases out)
    case (Inl why)
    from derive_unjudged [OF first [unfolded e0_def Inl]] assms(1) have "v = \<lparr>retirement = unknown c branch why cs, reached = Early, consulted = False, host = not_asked\<rparr>" by simp
    then show ?thesis by simp
  next
    case js: (Inr js)
    show ?thesis
    proof (cases "list_all (\<lambda>(_, j). at_base j) js")
      case True
      from derive_base [OF first [unfolded e0_def js] True] assms(1) have "v = \<lparr>retirement = kept c branch IsBase cs, reached = Early, consulted = False, host = not_asked\<rparr>" by simp
      then show ?thesis by simp
    next
      case False
      obtain keeps asked heard e w2 where asked: "ask_open_change c ops branch e0 js ask replies w1 = (keeps, asked, heard, e, w2)"
        by (metis prod_cases5)
      with ask_open_change_heard assms(2) have e: "evidence_read c ops branch e" by (metis e0_def)
      obtain again w3 where again: "(if e_changed e then judge_all c ops branch bt e ask (found cs) w2 else (Ok js, w2)) = (again, w3)"
        by force
      note v = derive_asked [OF first [unfolded e0_def js] False asked [unfolded e0_def] again, unfolded assms(1)]
      have known: "\<exists>e w0 w1. evidence_read c ops branch e \<and> judge_all c ops branch bt e ask (found cs) w0 = (Inr js', w1)"
        if "again = Inr js'" for js'
        using again that first js e e0 by (cases "e_changed e") auto
      show ?thesis
      proof (cases "keeps = Inr None \<and> (\<exists>js'. again = Inr js')")
        case True
        then obtain js' where js': "keeps = Inr None" "again = Inr js'" by blast
        obtain ended w4 where ended: "conclude c ops branch bt cs js' ask w3 = (ended, w4)" by force
        show ?thesis
        proof (cases ended)
          case (Inl why)
          with v js' ended show ?thesis by simp
        next
          case (Inr r)
          with v js' ended have "v = \<lparr>retirement = r, reached = Concluded, consulted = asked, host = heard\<rparr>" by simp
          with concluded_covered conclude_cases [OF ended [unfolded Inr]] known [OF js'(2)] show ?thesis by auto
        qed
      next
        case False
        show ?thesis
        proof (cases keeps)
          case (Inl why)
          with v show ?thesis by simp
        next
          case k: (Inr k)
          show ?thesis
          proof (cases k)
            case None
            with k False obtain why where "again = Inl why" by (cases again) auto
            with v k None show ?thesis by simp
          next
            case (Some r)
            with v k show ?thesis by simp
          qed
        qed
      qed
    qed
  qed
qed

lemma derive_and_keep_cases:
  assumes "derive_and_keep c ops branch bt cs ask recorded replies w = (v, d, w')" "\<forall>h. replies = Some h \<longrightarrow> heard_from ops h"
  shows "d = Derived \<and> well_formed (retirement v) \<and>
    (class_of (retirement v) = Retirable \<longrightarrow> reached v = Concluded \<and> all_covered c ops branch bt cs)"
proof -
  obtain v1 w1 where d: "derive c ops branch bt cs ask replies w = (v1, w1)" by force
  with assms(1) have "v = v1" "d = Derived"
    by (auto simp: derive_and_keep_def split: option.splits)
  with derive_cases [OF d assms(2)] show ?thesis by simp
qed

text \<open>A verdict that was kept: read from its file under the key of what stands now, and describing it.\<close>

definition kept_before :: "census \<Rightarrow> 'w world_ops \<Rightarrow> str \<Rightarrow> str \<Rightarrow> str \<Rightarrow> copies \<Rightarrow> asking_for \<Rightarrow> verdict \<Rightarrow> bool" where
  "kept_before c ops branch b bt cs ask v \<longleftrightarrow>
     (\<exists>st k w. verdict_files ask = Some st \<and> key_for c branch b bt cs ask = Some k \<and>
        verdict_read st (verdicts_of ops w) k = Some v \<and> describes c (retirement v) branch b cs)"

definition recorded_key :: "census \<Rightarrow> str \<Rightarrow> str \<Rightarrow> str \<Rightarrow> copies \<Rightarrow> asking_for \<Rightarrow> (verdict_store \<times> key) option" where
  "recorded_key c branch b bt cs ask = Option.bind (verdict_files ask) (\<lambda>st. map_option (Pair st) (key_for c branch b bt cs ask))"

definition verdict_reused ::
    "census \<Rightarrow> 'w world_ops \<Rightarrow> str \<Rightarrow> str \<Rightarrow> str \<Rightarrow> copies \<Rightarrow> asking_for \<Rightarrow> 'w \<Rightarrow> verdict option" where
  "verdict_reused c ops branch b bt cs ask w =
     Option.bind (recorded_key c branch b bt cs ask) (\<lambda>(st, k). case verdict_read st (verdicts_of ops w) k of
       Some v \<Rightarrow> if describes c (retirement v) branch b cs then Some v else None | None \<Rightarrow> None)"

lemma verdict_for_body:
  "verdict_for c ops branch b bt cs ask w =
     (case verdict_reused c ops branch b bt cs ask w of
        None \<Rightarrow> derive_and_keep c ops branch bt cs ask (recorded_key c branch b bt cs ask) None w
      | Some v \<Rightarrow>
          (if \<not> consulted v then (v, Reused, w)
           else
             let (r, w) = readable_first c ops branch ask (found cs) w;
                 (heard, _, _, w) = consult c ops branch (evidence_of (recorded_for c branch)) (first_tip_of cs) r ask None w
             in if \<not> answer_failed heard \<and> same_as heard (host v) then (v, Reused, w)
                else derive_and_keep c ops branch bt cs ask (recorded_key c branch b bt cs ask) (Some heard) w))"
  by (simp only: verdict_for_def verdict_reused_def recorded_key_def Let_def)

lemma verdict_for_cases:
  assumes "verdict_for c ops branch b bt cs ask w = (v, d, w')"
  shows "(d = Derived \<and> well_formed (retirement v) \<and>
      (class_of (retirement v) = Retirable \<longrightarrow> reached v = Concluded \<and> all_covered c ops branch bt cs)) \<or>
    (d = Reused \<and> kept_before c ops branch b bt cs ask v)"
proof -
  define reused where "reused = verdict_reused c ops branch b bt cs ask w"
  define recorded where "recorded = recorded_key c branch b bt cs ask"
  note body = verdict_for_body [of c ops branch b bt cs ask w, folded reused_def recorded_def]
  show ?thesis
  proof (cases reused)
    case None
    with body assms have "derive_and_keep c ops branch bt cs ask recorded None w = (v, d, w')" by simp
    from derive_and_keep_cases [OF this] show ?thesis by simp
  next
    case (Some v0)
    then have before: "kept_before c ops branch b bt cs ask v0"
      by (auto simp: kept_before_def reused_def verdict_reused_def recorded_key_def bind_eq_Some_conv split: option.splits if_splits)
    obtain r w1 where r: "readable_first c ops branch ask (found cs) w = (r, w1)" by force
    obtain heard k e w2 where heard:
      "consult c ops branch (evidence_of (recorded_for c branch)) (first_tip_of cs) r ask None w1 = (heard, k, e, w2)"
      by (metis prod_cases4)
    from consult_heard [OF heard] have "heard_from ops heard" by simp
    moreover from body assms Some r heard have
      "(d = Reused \<and> v = v0) \<or> derive_and_keep c ops branch bt cs ask recorded (Some heard) w2 = (v, d, w')"
      by (auto simp: Let_def split: if_splits)
    ultimately show ?thesis using before derive_and_keep_cases by fastforce
  qed
qed

text \<open>The guards a branch has to pass before its copies are judged.\<close>

definition judgeable :: "census \<Rightarrow> 'w world_ops \<Rightarrow> str \<Rightarrow> copies \<Rightarrow> asking_for \<Rightarrow> 'w \<Rightarrow> str \<Rightarrow> str \<Rightarrow> bool" where
  "judgeable c ops branch cs ask w b bt \<longleftrightarrow>
     base_branch c = Some b \<and> base_tip c = Some bt \<and> branch \<noteq> b \<and> live_holder c ops w branch = Ok None \<and>
     (cid c, branch) \<notin> set (exclude ask) \<and> unseen cs = []"

definition not_judged :: "census \<Rightarrow> str \<Rightarrow> copies \<Rightarrow> retirement \<Rightarrow> bool" where
  "not_judged c branch cs r \<longleftrightarrow> (\<exists>k. r = kept c branch k cs) \<or> (\<exists>why. r = unknown c branch why cs)"

lemma not_judged_keeps: "not_judged c branch cs r \<Longrightarrow> class_of r = Keep \<and> well_formed r"
  by (auto simp: not_judged_def)

lemma classify_judged:
  assumes "judgeable c ops branch cs ask w b bt" "classify c ops branch cs ask w = (r, d, w')"
  shows "\<exists>w0 v. verdict_for c ops branch b bt cs ask w0 = (v, d, w') \<and>
    (not_judged c branch cs r \<or> r = retirement v \<and> (reached v = Early \<or> worked_in c ops w' branch cs = Ok None))"
proof -
  from assms(1) have guards: "base_branch c = Some b" "base_tip c = Some bt" "branch \<noteq> b"
    "live_holder c ops w branch = Inr None" "(cid c, branch) \<notin> set (exclude ask)" "unseen cs = []"
    by (simp_all add: judgeable_def)
  define w0 where "w0 = (if abort_merges_left ask then abort_merges c ops branch cs w else w)"
  obtain v d1 w1 where v: "verdict_for c ops branch b bt cs ask w0 = (v, d1, w1)" by (metis prod_cases3)
  have "classify c ops branch cs ask w =
      (if reached v = Early then (retirement v, d1, w1)
       else case worked_in c ops w1 branch cs of
         Inr (Some k) \<Rightarrow> (kept c branch k cs, d1, w1)
       | Inr None \<Rightarrow> (retirement v, d1, w1)
       | Inl why \<Rightarrow> (unknown c branch why cs, d1, w1))"
    unfolding classify_def w0_def
    by (simp only: guards option.case sum.case prod.case if_False Let_def list.case simp_thms v [unfolded w0_def])
  with assms(2) have "d1 = d" "w1 = w'"
    "not_judged c branch cs r \<or> r = retirement v \<and> (reached v = Early \<or> worked_in c ops w' branch cs = Ok None)"
    by (auto simp: not_judged_def split: if_splits sum.splits option.splits)
  with v show ?thesis by blast
qed

lemma classify_unjudged:
  assumes "\<nexists>b bt. judgeable c ops branch cs ask w b bt" "classify c ops branch cs ask w = (r, d, w')"
  shows "d = Derived \<and> not_judged c branch cs r"
proof (cases "\<exists>b bt. base_branch c = Some b \<and> base_tip c = Some bt")
  case False
  with assms(2) show ?thesis by (cases "base_branch c"; cases "base_tip c") (auto simp: classify_def not_judged_def)
next
  case True
  then obtain b bt where b: "base_branch c = Some b" "base_tip c = Some bt" by blast
  show ?thesis
  proof (cases "branch = b \<or> live_holder c ops w branch \<noteq> Inr None")
    case True
    with assms(2) b show ?thesis by (auto simp: classify_def not_judged_def split: if_splits sum.splits option.splits)
  next
    case other: False
    show ?thesis
    proof (cases "(cid c, branch) \<in> set (exclude ask)")
      case True
      with assms(2) b other show ?thesis by (auto simp: classify_def not_judged_def)
    next
      case False
      with assms(1) b other obtain why rest where "unseen cs = why # rest"
        by (cases "unseen cs") (auto simp: judgeable_def)
      with assms(2) b other False show ?thesis by (auto simp: classify_def Let_def not_judged_def)
    qed
  qed
qed

lemma classify_derived:
  assumes "classify c ops branch cs ask w = (r, Derived, w')"
  shows "well_formed r \<and> (class_of r = Retirable \<longrightarrow>
    (\<exists>b bt. judgeable c ops branch cs ask w b bt \<and> all_covered c ops branch bt cs \<and> worked_in c ops w' branch cs = Ok None))"
proof (cases "\<exists>b bt. judgeable c ops branch cs ask w b bt")
  case False
  from classify_unjudged [OF this assms] not_judged_keeps show ?thesis by fastforce
next
  case True
  then obtain b bt where j: "judgeable c ops branch cs ask w b bt" by blast
  from classify_judged [OF j assms] obtain w0 v where v: "verdict_for c ops branch b bt cs ask w0 = (v, Derived, w')"
    "not_judged c branch cs r \<or> r = retirement v \<and> (reached v = Early \<or> worked_in c ops w' branch cs = Ok None)" by blast
  from verdict_for_cases [OF v(1)] have "well_formed (retirement v)"
    "class_of (retirement v) = Retirable \<longrightarrow> reached v = Concluded \<and> all_covered c ops branch bt cs" by simp_all
  with v(2) j not_judged_keeps show ?thesis by (metis reached.distinct(1) retirement_class.distinct(3))
qed

lemma classify_retirable:
  assumes "classify c ops branch cs ask w = (r, d, w')" "class_of r = Retirable"
  shows "\<exists>b bt. judgeable c ops branch cs ask w b bt \<and>
    (all_covered c ops branch bt cs \<or> (\<exists>v. kept_before c ops branch b bt cs ask v \<and> retirement v = r))"
proof (cases "\<exists>b bt. judgeable c ops branch cs ask w b bt")
  case False
  from classify_unjudged [OF this assms(1)] not_judged_keeps assms(2) show ?thesis by fastforce
next
  case True
  then obtain b bt where j: "judgeable c ops branch cs ask w b bt" by blast
  from classify_judged [OF j assms(1)] not_judged_keeps assms(2) obtain w0 v
    where "verdict_for c ops branch b bt cs ask w0 = (v, d, w')" "r = retirement v" by fastforce
  with verdict_for_cases [OF this(1)] j assms(2) show ?thesis by blast
qed

section \<open>What is deleted\<close>

text \<open>Where a copy is: in a repository, or at the origin.\<close>

definition place_of :: "census \<Rightarrow> copy \<Rightarrow> str option" where
  "place_of c x = (case held x of LocalCopy i \<Rightarrow> Some (repo (places c ! i)) | OriginCopy \<Rightarrow> None)"

text \<open>A journal of what was deleted of branches and not put back: only the two deletions enlarge it, each by
  what it was told to delete.\<close>

definition journaled :: "('w \<Rightarrow> (str option \<times> str \<times> str) set) \<Rightarrow> 'w world_ops \<Rightarrow> bool" where
  "journaled gone ops \<longleftrightarrow>
     (\<forall>r b t w. gone (snd (delete_at ops r b t w)) \<subseteq> insert (Some r, b, t) (gone w)) \<and>
     (\<forall>b t w. gone (snd (delete_origin ops b t w)) \<subseteq> insert (None, b, t) (gone w)) \<and>
     (\<forall>r b t w. gone (snd (put_back ops r b t w)) \<subseteq> gone w) \<and>
     (\<forall>ks w. gone (set_verdicts ops ks w) \<subseteq> gone w) \<and>
     (\<forall>t w. gone (abort_merge ops t w) \<subseteq> gone w) \<and>
     (\<forall>b w. gone (snd (fetch_branch ops b w)) \<subseteq> gone w) \<and>
     (\<forall>b m w. gone (late_merge ops b m w) \<subseteq> gone w) \<and>
     (\<forall>p w. gone (snd (close_clone ops p w)) \<subseteq> gone w) \<and>
     (\<forall>p w. gone (snd (probe_clone ops p w)) \<subseteq> gone w) \<and>
     (\<forall>t w. gone (snd (detach ops t w)) \<subseteq> gone w) \<and>
     (\<forall>s w. gone (snd (close_session ops s w)) \<subseteq> gone w) \<and>
     (\<forall>s w. gone (say_closed ops s w) \<subseteq> gone w) \<and>
     (\<forall>p w. gone (snd (remove_run_root ops p w)) \<subseteq> gone w) \<and>
     (\<forall>p w. gone (snd (return_slot ops p w)) \<subseteq> gone w) \<and>
     (\<forall>pl good w. gone (record_retired ops pl good w) \<subseteq> gone w)"

lemma journaledD:
  assumes "journaled gone ops"
  shows "gone (snd (delete_at ops r b t w)) \<subseteq> insert (Some r, b, t) (gone w)"
    "gone (snd (delete_origin ops b t w)) \<subseteq> insert (None, b, t) (gone w)"
    "gone (snd (put_back ops r b t w)) \<subseteq> gone w"
    "gone (set_verdicts ops ks w) \<subseteq> gone w"
    "gone (abort_merge ops t w) \<subseteq> gone w"
    "gone (snd (fetch_branch ops b w)) \<subseteq> gone w"
    "gone (late_merge ops b m w) \<subseteq> gone w"
    "gone (snd (close_clone ops p w)) \<subseteq> gone w"
    "gone (snd (probe_clone ops p w)) \<subseteq> gone w"
    "gone (snd (detach ops t w)) \<subseteq> gone w"
    "gone (snd (close_session ops s w)) \<subseteq> gone w"
    "gone (say_closed ops s w) \<subseteq> gone w"
    "gone (snd (remove_run_root ops p w)) \<subseteq> gone w"
    "gone (snd (return_slot ops p w)) \<subseteq> gone w"
    "gone (record_retired ops pl good w) \<subseteq> gone w"
  using assms by (simp_all add: journaled_def)

lemma fold_adds_nothing:
  assumes "\<And>x w. x \<in> set xs \<Longrightarrow> gone (f x w) \<subseteq> gone w"
  shows "gone (fold f xs w) \<subseteq> gone w"
  using assms
proof (induction xs arbitrary: w)
  case (Cons x xs)
  then have "gone (fold f xs (f x w)) \<subseteq> gone (f x w)" "gone (f x w) \<subseteq> gone w" by auto
  then show ?case by auto
qed simp

lemma readable_gone:
  assumes "journaled gone ops" "readable c ops branch ask x w = (r, w')"
  shows "gone w' \<subseteq> gone w"
proof -
  have "w' = w \<or> w' = snd (fetch_branch ops branch w)"
    using assms(2) by (auto simp: readable_def Let_def split: holding.splits option.splits if_splits prod.splits)
  then show ?thesis using journaledD(6) [OF assms(1)] by auto
qed

lemma readable_first_gone:
  assumes "journaled gone ops" "readable_first c ops branch ask xs w = (r, w')"
  shows "gone w' \<subseteq> gone w"
  using assms(2) readable_gone [OF assms(1)] by (cases xs) (simp_all add: readable_first_def)

lemma judge_all_gone:
  assumes "journaled gone ops"
  shows "judge_all c ops branch bt e ask xs w = (out, w') \<Longrightarrow> gone w' \<subseteq> gone w"
proof (induction xs arbitrary: w w' out)
  case (Cons x xs)
  obtain r w1 where r: "readable c ops branch ask x w = (r, w1)" by force
  note w1 = readable_gone [OF assms r]
  show ?case
  proof (cases "\<exists>r' j. r = Some r' \<and> judge_copy (git_at ops w1 r') (stands x) bt e (landed_key c) = Inr j")
    case False
    with Cons.prems r w1 show ?thesis by (cases r) (auto split: sum.splits)
  next
    case True
    then obtain r' j where j: "r = Some r'" "judge_copy (git_at ops w1 r') (stands x) bt e (landed_key c) = Inr j" by blast
    obtain rest w2 where rest: "judge_all c ops branch bt e ask xs w1 = (rest, w2)" by force
    with Cons.prems r j have "w' = w2" by (auto split: sum.splits)
    with Cons.IH [OF rest] w1 show ?thesis by auto
  qed
qed simp

lemma conclude_gone:
  assumes "journaled gone ops" "conclude c ops branch bt cs js ask w = (out, w')"
  shows "gone w' \<subseteq> gone w"
proof (cases "first_uncovered (sum_up js)")
  case None
  with assms(2) show ?thesis by (simp add: conclude_def Let_def)
next
  case (Some u)
  obtain x fork where u: "u = (x, fork)" by force
  obtain r w1 where r: "readable c ops branch ask x w = (r, w1)" by force
  from assms(2) have "w' = w1" unfolding conclude_def
    by (simp only: Some u r option.case prod.case Let_def) (auto split: sum.splits option.splits)
  with readable_gone [OF assms(1) r] show ?thesis by simp
qed

lemma consult_gone:
  assumes "journaled gone ops" "consult c ops branch e at_head r ask replies w = (heard, out, e', w')"
  shows "gone w' \<subseteq> gone w"
proof (cases "may_ask_host ask \<and> (\<exists>o' i onto. opened_for c branch = Some o' \<and> opened_id o' = Some i \<and>
    opened_base o' = Some onto \<and> host_for ops w = Ok ())")
  case False
  with assms(2) consult_unasked [OF False, of e at_head r replies] show ?thesis by auto
next
  case True
  then obtain o' i onto where o': "may_ask_host ask" "opened_for c branch = Some o'" "opened_id o' = Some i"
    "opened_base o' = Some onto" "host_for ops w = Ok ()" by blast
  obtain m said where m: "merged_reply ops w i at_head replies = (m, said)" by force
  consider change where "m = Answered (Some change)" | "m = Answered None" | "m = ReplyFailed"
    using m merged_reply_asked [of ops w i at_head replies said] by (cases m; metis option.exhaust)
  then show ?thesis
  proof cases
    case (1 change)
    obtain e1 w1 where t: "take_merge c ops branch ask at_head r o' change e w = (e1, w1)" by force
    from consult_merged [OF o' m [unfolded 1], of e r] assms(2) t have "w' = w1" by simp
    moreover have "w1 = w \<or> w1 = late_merge ops branch change w"
      using t by (auto simp: take_merge_def Let_def split: if_splits option.splits)
    ultimately show ?thesis using journaledD(7) [OF assms(1)] by auto
  next
    case 2
    from consult_open [OF o' m [unfolded 2], of e r] assms(2) show ?thesis by auto
  next
    case 3
    from consult_failed [OF o' m [unfolded 3], of e r] assms(2) show ?thesis by auto
  qed
qed

lemma ask_open_change_gone:
  assumes "journaled gone ops" "ask_open_change c ops branch e js ask replies w = (keeps, asked, heard, e', w')"
  shows "gone w' \<subseteq> gone w"
proof (cases "e_change e = None \<or> e_merged e \<noteq> None \<and> list_all (\<lambda>(_, j). at_base j \<or> is_merge_proof (found_proof j)) js")
  case True
  with assms(2) show ?thesis by (simp add: ask_open_change_def)
next
  case False
  obtain r w0 where r: "readable_first c ops branch ask (map fst js) w = (r, w0)" by force
  obtain h k e1 w1 where consulted:
    "consult c ops branch e (case js of [] \<Rightarrow> [] | (x, _) # _ \<Rightarrow> stands x) r ask replies w0 = (h, k, e1, w1)"
    by (metis prod_cases4)
  have "ask_open_change c ops branch e js ask replies w = (k, True, h, e1, w1)"
    unfolding ask_open_change_def using False by (simp only: if_False Let_def r prod.case consulted)
  with assms(2) consult_gone [OF assms(1) consulted] readable_first_gone [OF assms(1) r] show ?thesis by auto
qed

lemma derive_gone:
  assumes "journaled gone ops" "derive c ops branch bt cs ask replies w = (v, w')"
  shows "gone w' \<subseteq> gone w"
proof -
  define e0 where "e0 = evidence_of (recorded_for c branch)"
  obtain out w1 where first: "judge_all c ops branch bt e0 ask (found cs) w = (out, w1)" by force
  note w1 = judge_all_gone [OF assms(1) first]
  show ?thesis
  proof (cases out)
    case (Inl why)
    from derive_unjudged [OF first [unfolded e0_def Inl]] assms(2) w1 show ?thesis by simp
  next
    case js: (Inr js)
    show ?thesis
    proof (cases "list_all (\<lambda>(_, j). at_base j) js")
      case True
      from derive_base [OF first [unfolded e0_def js] True] assms(2) w1 show ?thesis by simp
    next
      case False
      obtain keeps asked heard e w2 where asked: "ask_open_change c ops branch e0 js ask replies w1 = (keeps, asked, heard, e, w2)"
        by (metis prod_cases5)
      obtain again w3 where again: "(if e_changed e then judge_all c ops branch bt e ask (found cs) w2 else (Ok js, w2)) = (again, w3)"
        by force
      note v = derive_asked [OF first [unfolded e0_def js] False asked [unfolded e0_def] again, unfolded assms(2)]
      have w3: "gone w2 \<subseteq> gone w" "gone w3 \<subseteq> gone w"
        using ask_open_change_gone [OF assms(1) asked] w1 again judge_all_gone [OF assms(1)]
        by (auto split: if_splits) blast+
      show ?thesis
      proof (cases "\<exists>js'. keeps = Inr None \<and> again = Inr js'")
        case True
        then obtain js' where js': "keeps = Inr None" "again = Inr js'" by blast
        obtain ended w4 where ended: "conclude c ops branch bt cs js' ask w3 = (ended, w4)" by force
        with v js' have "w' = w4" by (auto split: sum.splits)
        with conclude_gone [OF assms(1) ended] w3 show ?thesis by auto
      next
        case False
        with v w3 show ?thesis by (auto split: sum.splits option.splits)
      qed
    qed
  qed
qed

lemma derive_and_keep_gone:
  assumes "journaled gone ops" "derive_and_keep c ops branch bt cs ask recorded replies w = (v, d, w')"
  shows "gone w' \<subseteq> gone w"
proof -
  obtain v1 w1 where d: "derive c ops branch bt cs ask replies w = (v1, w1)" by force
  with assms(2) have "w' = w1 \<or> (\<exists>ks. w' = set_verdicts ops ks w1)"
    by (auto simp: derive_and_keep_def split: option.splits if_splits)
  with derive_gone [OF assms(1) d] journaledD(4) [OF assms(1)] show ?thesis by blast
qed

lemma verdict_for_gone:
  assumes "journaled gone ops" "verdict_for c ops branch b bt cs ask w = (v, d, w')"
  shows "gone w' \<subseteq> gone w"
proof (cases "verdict_reused c ops branch b bt cs ask w")
  case None
  with assms(2) derive_and_keep_gone [OF assms(1)] show ?thesis by (auto simp: verdict_for_body)
next
  case (Some v0)
  obtain r w1 where r: "readable_first c ops branch ask (found cs) w = (r, w1)" by force
  obtain heard k e w2 where heard:
    "consult c ops branch (evidence_of (recorded_for c branch)) (first_tip_of cs) r ask None w1 = (heard, k, e, w2)"
    by (metis prod_cases4)
  from Some r heard assms(2) have "w' = w \<or> w' = w2 \<or>
      derive_and_keep c ops branch bt cs ask (recorded_key c branch b bt cs ask) (Some heard) w2 = (v, d, w')"
    by (auto simp: verdict_for_body Let_def split: if_splits)
  with readable_first_gone [OF assms(1) r] consult_gone [OF assms(1) heard] derive_and_keep_gone [OF assms(1)]
  show ?thesis by blast
qed

lemma abort_merges_gone:
  assumes "journaled gone ops"
  shows "gone (abort_merges c ops branch cs w) \<subseteq> gone w"
  unfolding abort_merges_def
proof (rule fold_adds_nothing)
  fix p and w
  have "gone (fold (\<lambda>(t, b) w. if b = Some branch \<and> t \<noteq> repo p then abort_merge ops t w else w) ts w) \<subseteq> gone w" for ts
    using journaledD(5) [OF assms] by (intro fold_adds_nothing) (simp split: prod.split)
  then show "gone (if place_kind p = CheckoutHolder then w
      else case worktrees_at ops w (repo p) of
        Inl _ \<Rightarrow> w
      | Inr ts \<Rightarrow> fold (\<lambda>(t, b) w. if b = Some branch \<and> t \<noteq> repo p then abort_merge ops t w else w) ts w) \<subseteq> gone w"
    by (auto split: sum.splits)
qed

lemma classify_gone:
  assumes "journaled gone ops" "classify c ops branch cs ask w = (r, d, w')"
  shows "gone w' \<subseteq> gone w"
proof -
  define w0 where "w0 = (if abort_merges_left ask then abort_merges c ops branch cs w else w)"
  have w0: "gone w0 \<subseteq> gone w" using abort_merges_gone [OF assms(1)] by (simp add: w0_def)
  have "w' = w \<or> w' = w0 \<or> (\<exists>b bt v d1. verdict_for c ops branch b bt cs ask w0 = (v, d1, w'))"
  proof (cases "\<exists>b bt. judgeable c ops branch cs ask w b bt")
    case True
    then obtain b bt where "judgeable c ops branch cs ask w b bt" by blast
    with assms(2) show ?thesis
      by (auto simp: classify_def judgeable_def Let_def w0_def split: prod.splits if_splits sum.splits option.splits)
  next
    case False
    with assms(2) show ?thesis
      by (auto simp: classify_def judgeable_def Let_def w0_def split: option.splits if_splits sum.splits list.splits prod.splits)
  qed
  with w0 verdict_for_gone [OF assms(1)] show ?thesis by blast
qed

text \<open>What a deletion may lose: the copies it was given, at the tips it was given.\<close>

definition given_up :: "census \<Rightarrow> str \<Rightarrow> copy list \<Rightarrow> (str option \<times> str \<times> str) set" where
  "given_up c branch xs = (\<lambda>x. (place_of c x, branch, stands x)) ` set xs"

lemma detach_all_gone:
  assumes "journaled gone ops"
  shows "detach_all ops branch ts w = (out, w') \<Longrightarrow> gone w' \<subseteq> gone w"
proof (induction ts arbitrary: w)
  case (Cons tb ts)
  obtain t b where tb: "tb = (t, b)" by force
  obtain e w1 where e: "detach ops t w = (e, w1)" by force
  with journaledD(10) [OF assms, of t w] have "gone w1 \<subseteq> gone w" by simp
  with Cons tb e show ?case by (cases e) (auto split: if_splits)
qed simp

lemma delete_one_gone:
  assumes "journaled gone ops" "delete_one ops r branch t w = (out, w')"
  shows "gone w' \<subseteq> insert (Some r, branch, t) (gone w)"
proof -
  obtain p w1 where p: "probe_clone ops r w = (p, w1)" by force
  obtain q w2 where q: "stand_off ops r branch w1 = (q, w2)" by force
  obtain d w3 where d: "delete_at ops r branch t w2 = (d, w3)" by force
  have "gone w1 \<subseteq> gone w" using journaledD(9) [OF assms(1), of r w] p by simp
  moreover have "gone w2 \<subseteq> gone w1"
    using q detach_all_gone [OF assms(1)] by (auto simp: stand_off_def split: sum.splits)
  moreover have "gone w3 \<subseteq> insert (Some r, branch, t) (gone w2)" using journaledD(1) [OF assms(1), of r branch t w2] d by simp
  moreover have "w' \<in> {w1, w2, w3}"
    using assms(2) p q d by (auto simp: delete_one_def split: sum.splits bool.splits tip_here.splits if_splits)
  ultimately show ?thesis by auto
qed

lemma put_all_back_gone: "journaled gone ops \<Longrightarrow> gone (put_all_back ops branch ds w) \<subseteq> gone w"
  unfolding put_all_back_def by (rule fold_adds_nothing) (simp add: journaledD split: prod.split option.split)

lemma delete_locals_gone:
  assumes "journaled gone ops"
  shows "delete_locals c ops branch xs ds fs w = (out, w') \<Longrightarrow> gone w' \<subseteq> gone w \<union> given_up c branch xs"
proof (induction xs arbitrary: ds fs w)
  case (Cons x xs)
  show ?case
  proof (cases "held x")
    case OriginCopy
    with Cons.prems Cons.IH [of ds fs w] show ?thesis by (auto simp: given_up_def)
  next
    case (LocalCopy i)
    obtain e w1 where e: "delete_one ops (repo (places c ! i)) branch (stands x) w = (e, w1)" by force
    have w1: "gone w1 \<subseteq> gone w \<union> given_up c branch (x # xs)"
      using delete_one_gone [OF assms e] LocalCopy by (auto simp: given_up_def place_of_def)
    have sub: "given_up c branch xs \<subseteq> given_up c branch (x # xs)" by (auto simp: given_up_def)
    show ?thesis
    proof (cases e)
      case (GoneFrom place)
      with Cons.prems e LocalCopy Cons.IH w1 sub show ?thesis by (fastforce simp: Let_def)
    next
      case (NotGone why)
      with Cons.prems e LocalCopy Cons.IH w1 sub show ?thesis by (fastforce simp: Let_def)
    next
      case MovedAway
      with Cons.prems e LocalCopy w1 put_all_back_gone [OF assms, of branch ds w1] show ?thesis by auto
    qed
  qed
qed simp

lemma delete_gone:
  assumes "journaled gone ops" "delete c ops branch cs w = (ended, w')"
  shows "gone w' \<subseteq> gone w \<union> given_up c branch (found cs)"
proof -
  obtain out w1 where out: "delete_locals c ops branch (found cs) [] [] w = (out, w1)" by force
  note w1 = delete_locals_gone [OF assms(1) out]
  show ?thesis
  proof (cases "List.find (\<lambda>x. held x = OriginCopy) (found cs)")
    case None
    with assms(2) out w1 show ?thesis by (auto simp: delete_def split: option.splits)
  next
    case (Some x)
    then have x: "x \<in> set (found cs)" "held x = OriginCopy" using find_SomeD [OF Some] by auto
    obtain answered w2 where o': "delete_origin ops branch (stands x) w1 = (answered, w2)" by force
    with journaledD(2) [OF assms(1), of branch "stands x" w1] have "gone w2 \<subseteq> insert (None, branch, stands x) (gone w1)" by simp
    with x w1 have w2: "gone w2 \<subseteq> gone w \<union> given_up c branch (found cs)"
      by (force simp: given_up_def place_of_def)
    have "w' \<in> {w1, w2} \<or> (\<exists>ds. w' = put_all_back ops branch ds w2)"
      using assms(2) out Some o'
      by (auto simp: delete_def Let_def split: option.splits sum.splits remote_tip.splits if_splits)
    with w1 w2 put_all_back_gone [OF assms(1), of branch _ w2] show ?thesis by blast
  qed
qed

lemma close_sessions_gone:
  assumes "journaled gone ops"
  shows "close_sessions ops ss closed fs w = (out, fs', w') \<Longrightarrow> gone w' \<subseteq> gone w"
proof (induction ss arbitrary: closed fs w)
  case (Cons s ss)
  obtain e w1 where e: "close_session ops s w = (e, w1)" by force
  with journaledD(11) [OF assms, of s w] have w1: "gone w1 \<subseteq> gone w" by simp
  show ?case
  proof (cases "is_open s")
    case False
    with Cons show ?thesis by auto
  next
    case True
    show ?thesis
    proof (cases e)
      case (Inl why)
      with Cons.prems True e have "close_sessions ops ss closed (fs @ [\<lparr>failed_kind = (if in_slot s then SlotHolder else RunCloneHolder),
          failed_location = run_root s, failed_error = ''its session record '' @ token s @ '' could not be closed: '' @ why\<rparr>]) w1 =
          (out, fs', w')" by simp
      from Cons.IH [OF this] w1 show ?thesis by simp
    next
      case (Inr u)
      with Cons.prems True e have "close_sessions ops ss (closed @ [token s]) fs (say_closed ops s w1) = (out, fs', w')" by simp
      from Cons.IH [OF this] w1 journaledD(12) [OF assms, of s w1] show ?thesis by simp
    qed
  qed
qed simp

lemma guarded_gone:
  assumes "\<And>p w. gone (snd (guard p w)) \<subseteq> gone w" "\<And>p w. gone (snd (acts p w)) \<subseteq> gone w" "guarded guard acts p w = (out, w')"
  shows "gone w' \<subseteq> gone w"
proof -
  obtain e w1 where e: "guard (path_join p ''clone'') w = (e, w1)" by force
  with assms(1) [of "path_join p ''clone''" w] have w1: "gone w1 \<subseteq> gone w" by simp
  have "w' = w1 \<or> w' = snd (acts p w1)"
    using assms(3) e by (auto simp: guarded_def split: sum.splits bool.splits)
  with w1 assms(2) [of p w1] show ?thesis by auto
qed

lemma each_path_gone:
  assumes "\<And>p w out w'. acts p w = (out, w') \<Longrightarrow> gone w' \<subseteq> gone w"
  shows "each_path acts k ps out fs w = (out', fs', w') \<Longrightarrow> gone w' \<subseteq> gone w"
proof (induction ps arbitrary: out fs w)
  case (Cons p ps)
  obtain e w1 where e: "acts p w = (e, w1)" by force
  from Cons.prems e obtain out1 fs1 where "each_path acts k ps out1 fs1 w1 = (out', fs', w')"
    by (auto split: sum.splits bool.splits)
  from Cons.IH [OF this] assms [OF e] show ?case by simp
qed simp

lemma finish_gone:
  assumes "journaled gone ops" "finish ops branch r p ds fs acting trigger w = (rd, w')"
  shows "gone w' \<subseteq> gone w"
proof -
  obtain cl f1 w1 where w1: "close_sessions ops (closing p) [] fs w = (cl, f1, w1)" by (metis prod_cases3)
  obtain rm f2 w2 where w2: "each_path (guarded (close_clone ops) (remove_run_root ops)) RunCloneHolder (roots p) [] f1 w1 = (rm, f2, w2)"
    by (metis prod_cases3)
  obtain sl f3 w3 where w3: "each_path (guarded (probe_clone ops) (return_slot ops)) SlotHolder (slots p) [] f2 w2 = (sl, f3, w3)"
    by (metis prod_cases3)
  have "gone w1 \<subseteq> gone w" using close_sessions_gone [OF assms(1) w1] .
  moreover have "gone w2 \<subseteq> gone w1"
    by (rule each_path_gone [OF _ w2], rule guarded_gone) (auto simp: journaledD [OF assms(1)] simp del: split_paired_All)
  moreover have "gone w3 \<subseteq> gone w2"
    by (rule each_path_gone [OF _ w3], rule guarded_gone) (auto simp: journaledD [OF assms(1)])
  moreover have "\<exists>pl good. w' = record_retired ops pl good w3"
    using assms(2) unfolding finish_def by (simp only: w1 w2 w3 Let_def prod.case prod.inject) blast
  ultimately show ?thesis using journaledD(15) [OF assms(1)] by blast
qed

section \<open>One attempt\<close>

text \<open>An attempt to delete: the branch was classified, the actor may act on its class, and the copies stood
  where they were classified when they were read again.\<close>

definition attempted ::
    "census \<Rightarrow> 'w world_ops \<Rightarrow> str \<Rightarrow> acting \<Rightarrow> asking_for \<Rightarrow> copies \<Rightarrow> 'w \<Rightarrow> retirement \<Rightarrow> derivation \<Rightarrow> 'w \<Rightarrow> bool" where
  "attempted c ops branch acting ask cs w r d w1 \<longleftrightarrow>
     classify c ops branch cs ask w = (r, d, w1) \<and> permits acting (class_of r) (reason r) \<and>
     copies_read c ops w1 branch ask TipsNow = cs"

definition outcome_of ::
    "census \<Rightarrow> 'w world_ops \<Rightarrow> str \<Rightarrow> copies \<Rightarrow> asking_for \<Rightarrow> 'w \<Rightarrow> deletion \<times> 'w" where
  "outcome_of c ops branch cs ask w =
     (if copies_read c ops w branch ask TipsNow \<noteq> cs then (MovedUnder, w) else delete c ops branch cs w)"

definition forgotten :: "census \<Rightarrow> 'w world_ops \<Rightarrow> str \<Rightarrow> asking_for \<Rightarrow> retired \<Rightarrow> 'w \<Rightarrow> 'w" where
  "forgotten c ops branch ask rd w =
     (case verdict_files ask of
        Some st \<Rightarrow>
          if outcome rd = RetiredAll
          then set_verdicts ops (verdict_forget st (cid c) branch (verdicts_of ops w)) w else w
      | None \<Rightarrow> w)"

lemma act_from_kept:
  assumes "classify c ops branch cs ask w = (r, d, w1)" "\<not> permits acting (class_of r) (reason r)"
  shows "act_from left c ops branch cs acting trigger dry_run ask w = ((nothing_retired r KeptIt)\<lparr>derivation_of := d\<rparr>, w1)"
  by (subst act_from.simps) (simp add: assms)

lemma act_from_dry:
  assumes "classify c ops branch cs ask w = (r, d, w1)" "permits acting (class_of r) (reason r)"
  shows "snd (act_from left c ops branch cs acting trigger True ask w) = w1"
  by (subst act_from.simps) (simp add: assms Let_def)

lemma act_from_deleted:
  assumes "classify c ops branch cs ask w = (r, d, w1)" "permits acting (class_of r) (reason r)"
    "outcome_of c ops branch cs ask w1 = (DeletedFrom ds fs, w2)"
    "finish ops branch r (plan_for c ops w1 branch cs) ds fs acting trigger w2 = (rd, w3)"
  shows "act_from left c ops branch cs acting trigger False ask w =
    (rd\<lparr>derivation_of := d\<rparr>, forgotten c ops branch ask rd w3)"
  by (subst act_from.simps)
    (simp only: assms(1,2,4) assms(3) [unfolded outcome_of_def] Let_def prod.case if_False simp_thms deletion.case forgotten_def)

lemma act_from_moved:
  assumes "classify c ops branch cs ask w = (r, d, w1)" "permits acting (class_of r) (reason r)"
    "outcome_of c ops branch cs ask w1 = (MovedUnder, w2)"
  shows "act_from left c ops branch cs acting trigger False ask w =
    (case left of
       Suc (Suc n) \<Rightarrow> act_from (Suc n) c ops branch (copies_read c ops w2 branch ask TipsNow) acting trigger False ask w2
     | _ \<Rightarrow> (nothing_retired (gave_up branch r) KeptIt, w2))"
  by (subst act_from.simps)
    (simp only: assms(1,2) assms(3) [unfolded outcome_of_def] Let_def prod.case if_False simp_thms deletion.case)

lemma forgotten_gone: "journaled gone ops \<Longrightarrow> gone (forgotten c ops branch ask rd w) \<subseteq> gone w"
  by (auto simp: forgotten_def split: option.splits if_splits dest: journaledD(4) [THEN subsetD])

lemma outcome_gone:
  assumes "journaled gone ops" "classify c ops branch cs ask w = (r, d, w1)" "permits acting (class_of r) (reason r)"
    "outcome_of c ops branch cs ask w1 = (ended, w2)" "p \<in> gone w2" "p \<notin> gone w"
  shows "attempted c ops branch acting ask cs w r d w1 \<and> p \<in> given_up c branch (found cs)"
proof -
  have w1: "p \<notin> gone w1" using classify_gone [OF assms(1,2)] assms(6) by blast
  show ?thesis
  proof (cases "copies_read c ops w1 branch ask TipsNow = cs")
    case True
    with assms(4) have "delete c ops branch cs w1 = (ended, w2)" by (simp add: outcome_of_def)
    from delete_gone [OF assms(1) this] w1 assms(2,3,5) True show ?thesis by (auto simp: attempted_def)
  next
    case False
    with assms(4,5) w1 show ?thesis by (simp add: outcome_of_def)
  qed
qed

lemma act_from_gone:
  assumes "journaled gone ops"
  shows "act_from left c ops branch cs acting trigger dry_run ask w = (rd, w') \<Longrightarrow> p \<in> gone w' \<Longrightarrow> p \<notin> gone w \<Longrightarrow>
    \<not> dry_run \<and> (\<exists>cs w r d w1. attempted c ops branch acting ask cs w r d w1 \<and> p \<in> given_up c branch (found cs))"
proof (induction left arbitrary: cs w rule: less_induct)
  case (less left)
  obtain r d w1 where r: "classify c ops branch cs ask w = (r, d, w1)" by (metis prod_cases3)
  have w1: "p \<notin> gone w1" using classify_gone [OF assms r] less.prems(3) by blast
  show ?case
  proof (cases "permits acting (class_of r) (reason r)")
    case False
    from act_from_kept [OF r False] less.prems w1 show ?thesis by simp
  next
    case may: True
    show ?thesis
    proof (cases dry_run)
      case True
      with act_from_dry [OF r may, of left trigger] less.prems w1 show ?thesis by simp
    next
      case wet: False
      obtain ended w2 where ended: "outcome_of c ops branch cs ask w1 = (ended, w2)" by force
      note lost = outcome_gone [OF assms r may ended _ less.prems(3)]
      show ?thesis
      proof (cases ended)
        case (DeletedFrom ds fs)
        obtain rd1 w3 where f: "finish ops branch r (plan_for c ops w1 branch cs) ds fs acting trigger w2 = (rd1, w3)" by force
        from act_from_deleted [OF r may ended [unfolded DeletedFrom] f] less.prems(1) wet
        have "w' = forgotten c ops branch ask rd1 w3" by simp
        with less.prems(2) forgotten_gone [OF assms] finish_gone [OF assms f] have "p \<in> gone w2" by blast
        with lost wet show ?thesis by blast
      next
        case MovedUnder
        note step = act_from_moved [OF r may ended [unfolded MovedUnder], of left trigger]
        show ?thesis
        proof (cases "p \<in> gone w2")
          case True
          with lost wet show ?thesis by blast
        next
          case False
          with step less.prems wet obtain n where "left = Suc (Suc n)"
            "act_from (Suc n) c ops branch (copies_read c ops w2 branch ask TipsNow) acting trigger dry_run ask w2 = (rd, w')"
            by (auto split: nat.splits)
          with less.IH [OF _ this(2) less.prems(2) False] show ?thesis by simp
        qed
      qed
    qed
  qed
qed

section \<open>What a deletion puts back\<close>

text \<open>A deletion that fails deletes nothing, and what is put back is there again.\<close>

definition recovers :: "('w \<Rightarrow> (str option \<times> str \<times> str) set) \<Rightarrow> 'w world_ops \<Rightarrow> bool" where
  "recovers gone ops \<longleftrightarrow>
     (\<forall>r b t w. fst (delete_at ops r b t w) \<noteq> Ok () \<longrightarrow> gone (snd (delete_at ops r b t w)) \<subseteq> gone w) \<and>
     (\<forall>b t w. refusal_of (fst (delete_origin ops b t w)) \<noteq> None \<longrightarrow> gone (snd (delete_origin ops b t w)) \<subseteq> gone w) \<and>
     (\<forall>r b t w. (Some r, b, t) \<notin> gone (snd (put_back ops r b t w)))"

definition deleted_by :: "str \<Rightarrow> done_so_far \<Rightarrow> (str option \<times> str \<times> str) set" where
  "deleted_by branch ds = (\<Union>(_, place) \<in> set ds. case place of None \<Rightarrow> {} | Some (r, t) \<Rightarrow> {(Some r, branch, t)})"

lemma put_all_back_recovers:
  assumes "journaled gone ops" "recovers gone ops"
  shows "gone (put_all_back ops branch ds w) \<subseteq> gone w - deleted_by branch ds"
proof (induction ds arbitrary: w)
  case Nil
  then show ?case by (simp add: put_all_back_def deleted_by_def)
next
  case (Cons hp ds)
  obtain h place where hp: "hp = (h, place)" by force
  define w1 where "w1 = (case place of None \<Rightarrow> w | Some (r, t) \<Rightarrow> snd (put_back ops r branch t w))"
  have "put_all_back ops branch (hp # ds) w = put_all_back ops branch ds w1"
    by (simp add: put_all_back_def hp w1_def)
  moreover have "gone w1 \<subseteq> gone w - deleted_by branch [hp]"
    using assms(2) journaledD(3) [OF assms(1), of _ branch _ w] unfolding recovers_def w1_def hp deleted_by_def
    by (cases place) (simp, fastforce)
  moreover have "deleted_by branch (hp # ds) = deleted_by branch [hp] \<union> deleted_by branch ds"
    by (simp add: deleted_by_def)
  ultimately show ?case using Cons.IH [of w1] by auto
qed

lemma delete_one_recovers:
  assumes "journaled gone ops" "recovers gone ops" "delete_one ops r branch t w = (out, w')"
  shows "gone w' \<subseteq> gone w \<union> (if out = GoneFrom (Some (r, t)) then {(Some r, branch, t)} else {})"
proof -
  obtain p w1 where p: "probe_clone ops r w = (p, w1)" by force
  obtain q w2 where q: "stand_off ops r branch w1 = (q, w2)" by force
  obtain d w3 where d: "delete_at ops r branch t w2 = (d, w3)" by force
  have quiet: "gone w1 \<subseteq> gone w" "gone w2 \<subseteq> gone w1"
    using journaledD(9) [OF assms(1), of r w] p q detach_all_gone [OF assms(1)]
    by (auto simp: stand_off_def split: sum.splits)
  show ?thesis
  proof (cases "d = Inr ()")
    case True
    from journaledD(1) [OF assms(1), of r branch t w2] d have "gone w3 \<subseteq> insert (Some r, branch, t) (gone w2)" by simp
    moreover have "w' \<in> {w1, w2} \<or> w' = w3 \<and> out = GoneFrom (Some (r, t))"
      using assms(3) p q d True by (auto simp: delete_one_def split: sum.splits bool.splits)
    ultimately show ?thesis using quiet by auto
  next
    case False
    have "fst (delete_at ops r branch t w2) \<noteq> Ok ()" using d False by simp
    with assms(2) have "gone (snd (delete_at ops r branch t w2)) \<subseteq> gone w2" by (simp add: recovers_def)
    with d have "gone w3 \<subseteq> gone w2" by simp
    moreover have "w' \<in> {w1, w2, w3}"
      using assms(3) p q d by (auto simp: delete_one_def split: sum.splits bool.splits tip_here.splits if_splits)
    ultimately show ?thesis using quiet by auto
  qed
qed

lemma deleted_by_append: "deleted_by branch (ds @ [(h, place)]) =
    deleted_by branch ds \<union> (case place of None \<Rightarrow> {} | Some (r, t) \<Rightarrow> {(Some r, branch, t)})"
  by (auto simp: deleted_by_def)

lemma delete_locals_recovers:
  assumes "journaled gone ops" "recovers gone ops"
  shows "delete_locals c ops branch xs ds fs w = (out, w') \<Longrightarrow> gone w \<subseteq> W \<union> deleted_by branch ds \<Longrightarrow>
    (case out of None \<Rightarrow> gone w' \<subseteq> W | Some (ds', fs') \<Rightarrow> gone w' \<subseteq> W \<union> deleted_by branch ds')"
proof (induction xs arbitrary: ds fs w)
  case (Cons x xs)
  show ?case
  proof (cases "held x")
    case OriginCopy
    with Cons show ?thesis by simp
  next
    case (LocalCopy i)
    obtain e w1 where e: "delete_one ops (repo (places c ! i)) branch (stands x) w = (e, w1)" by force
    note w1 = delete_one_recovers [OF assms e]
    show ?thesis
    proof (cases e)
      case (GoneFrom place)
      have "gone w1 \<subseteq> W \<union> deleted_by branch (ds @ [(holder_of c (held x), place)])"
        using w1 Cons.prems(2) GoneFrom unfolding deleted_by_append by (auto split: if_splits)
      moreover have "delete_locals c ops branch xs (ds @ [(holder_of c (held x), place)]) fs w1 = (out, w')"
        using Cons.prems(1) LocalCopy e GoneFrom by (simp add: Let_def)
      ultimately show ?thesis by (rule Cons.IH [rotated])
    next
      case (NotGone why)
      with w1 Cons.prems(2) have "gone w1 \<subseteq> W \<union> deleted_by branch ds" by auto
      moreover have "delete_locals c ops branch xs ds (fs @ [failed_at (holder_of c (held x)) why]) w1 = (out, w')"
        using Cons.prems(1) LocalCopy e NotGone by (simp add: Let_def)
      ultimately show ?thesis by (rule Cons.IH [rotated])
    next
      case MovedAway
      with Cons.prems(1) LocalCopy e have "out = None" "w' = put_all_back ops branch ds w1" by (simp_all add: Let_def)
      with put_all_back_recovers [OF assms, of branch ds w1] w1 MovedAway Cons.prems(2) show ?thesis by auto
    qed
  qed
qed (auto split: option.splits)

lemma delete_recovers:
  assumes "journaled gone ops" "recovers gone ops" "delete c ops branch cs w = (MovedUnder, w')"
  shows "gone w' \<subseteq> gone w"
proof -
  obtain out w1 where out: "delete_locals c ops branch (found cs) [] [] w = (out, w1)" by force
  have w1: "case out of None \<Rightarrow> gone w1 \<subseteq> gone w | Some (ds, fs) \<Rightarrow> gone w1 \<subseteq> gone w \<union> deleted_by branch ds"
    by (rule delete_locals_recovers [OF assms(1,2) out]) simp
  show ?thesis
  proof (cases out)
    case None
    with assms(3) out w1 show ?thesis by (simp add: delete_def)
  next
    case (Some dsfs)
    obtain ds fs where ds: "dsfs = (ds, fs)" by force
    show ?thesis
    proof (cases "List.find (\<lambda>x. held x = OriginCopy) (found cs)")
      case None
      with assms(3) out Some ds show ?thesis by (simp add: delete_def)
    next
      case x: (Some x)
      obtain answered w2 where o': "delete_origin ops branch (stands x) w1 = (answered, w2)" by force
      from assms(3) out Some ds x o' obtain why where "refusal_of answered = Some why" "w' = put_all_back ops branch ds w2"
        by (auto simp: delete_def Let_def split: option.splits sum.splits remote_tip.splits if_splits)
      moreover from this(1) assms(2) o' have "gone w2 \<subseteq> gone w1"
        unfolding recovers_def by (metis fst_conv option.distinct(1) snd_conv)
      ultimately show ?thesis using put_all_back_recovers [OF assms(1,2), of branch ds w2] w1 Some ds by auto
    qed
  qed
qed

section \<open>Documents\<close>

lemma well_formed_document:
  assumes "well_formed r"
  shows "try_from r = Ok r \<or> try_from r = Err CauseIncomplete \<and>
    (\<exists>why. cause r = Some why \<and> (blank (operation why) \<or> blank (about why) \<or> blank (failure why)))"
  using assms by (auto simp: well_formed_def try_from_def split: option.splits)

lemma well_formed_payload:
  "well_formed (retirement_of rd) \<Longrightarrow> permits a (class_of (retirement_of rd)) (reason (retirement_of rd)) \<Longrightarrow>
   consistent (payload_of rd branch a tr)"
  by (simp add: well_formed_def consistent_def payload_of_def Let_def)

section \<open>Worlds to retire in\<close>

type_synonym losses = "(str option \<times> str \<times> str) set"

text \<open>A world that is what was lost of it: a branch the origin alone has, and one repository that has the
  origin's objects.\<close>

definition bare_disk :: "str option \<Rightarrow> on_disk" where
  "bare_disk t =
     \<lparr>is_there = True, disk_heads = None, disk_remote_heads = (\<lambda>_. None), disk_raw_tip = (\<lambda>_. Some t),
      disk_tip = (\<lambda>_. None), disk_symbolic = (\<lambda>_. None), disk_advertised = (\<lambda>_. None), disk_worktrees = None,
      has_githooks = False\<rparr>"

definition origin_ops :: "losses world_ops" where
  "origin_ops =
     \<lparr>git_at = (\<lambda>_ _. reading_git), disk_at = (\<lambda>_ _. bare_disk None), owner_running = (\<lambda>_ _. False),
      occupied = (\<lambda>_ _. Ok False), worked_on = (\<lambda>_ _. False), on_branch = (\<lambda>_ _. None), worktrees_at = (\<lambda>_ _. Ok []),
      dirty_tree = (\<lambda>_ _. Ok False), host_for = (\<lambda>_. Ok ()), host_merged = (\<lambda>_ _ _. Ok None),
      host_changes = (\<lambda>_ _ _. Ok []), verdicts_of = (\<lambda>_. undefined), set_verdicts = (\<lambda>_ w. w),
      abort_merge = (\<lambda>_ w. w), fetch_branch = (\<lambda>_ w. (False, w)), late_merge = (\<lambda>_ _ w. w), is_dir = (\<lambda>_ _. False),
      close_clone = (\<lambda>_ w. (Ok True, w)), probe_clone = (\<lambda>_ w. (Ok True, w)), detach = (\<lambda>_ w. (Ok (), w)),
      delete_at = (\<lambda>r b t w. (Ok (), insert (Some r, b, t) w)), put_back = (\<lambda>r b t w. (Ok (), w - {(Some r, b, t)})),
      delete_origin = (\<lambda>b t w. (Ok (Accepted []), insert (None, b, t) w)), close_session = (\<lambda>_ w. (Ok (), w)),
      say_closed = (\<lambda>_ w. w), remove_run_root = (\<lambda>_ w. (Ok False, w)), return_slot = (\<lambda>_ w. (Ok False, w)),
      record_retired = (\<lambda>_ _ w. w)\<rparr>"

definition origin_census :: census where
  "origin_census =
     \<lparr>cid = ''i'', publication_at = ''/repo'', base_branch = Some ''main'', base_tip = Some ''base'',
      origin_url = Some ''url'', places = [\<lparr>place_kind = CheckoutHolder, repo = ''/repo'', slot_of = None\<rparr>],
      unlisted = [], unread_base = None, listed_heads = (\<lambda>_. Ok Map.empty),
      tracked_heads = Ok [''work'' \<mapsto> ''commit''], origin_heads = None, streams_whole = True, sessions = [],
      landed_key = ''Landed:'', stream_digest = (\<lambda>_. None), session_named = (\<lambda>_. None),
      recorded_for = (\<lambda>_. \<lparr>recorded_at = None, recorded_change = None\<rparr>), opened_for = (\<lambda>_. None),
      supersessions = (\<lambda>_. []), web = (\<lambda>_. None), runs_dir = None\<rparr>"

definition plain_asking :: asking_for where
  "plain_asking = \<lparr>may_ask_host = False, fetch_objects = False, reconcile = False, ask_origin = False, exclude = [],
     verdict_files = None, abort_merges_left = False\<rparr>"

definition origin_only :: copies where
  "origin_only = \<lparr>found = [\<lparr>held = OriginCopy, stands = ''commit''\<rparr>], unseen = []\<rparr>"

definition content_proved :: retirement where
  "content_proved = (kept origin_census ''work'' UnmergedUniqueCommits origin_only)
     \<lparr>class_of := Retirable, reason := None, proof_of := Some (ContentIdentical ''base'')\<rparr>"

lemma origin_journal: "journaled (\<lambda>w. w) origin_ops"
  by (auto simp: journaled_def origin_ops_def)

lemma origin_judged: "judge_copy reading_git ''commit'' ''base'' no_evidence k = Ok (identical_copy ''base'')"
proof -
  have "tiny_differing ''commit'' ''base'' = [''b'']" by (simp add: tiny_differing_def tiny_tree_def)
  then have "differing_among reading_git ''commit'' ''base'' [''a''] = Ok []"
    using judging_among [of "[''a'']"]
    by (simp add: differing_among_def reading_git_def checked_def answered_def ran_ok_def listed_paths_def literal_def)
  from judging_identical [OF this [unfolded reading_git_def]] show ?thesis by (simp add: reading_git_def)
qed

lemma origin_read: "copies_read origin_census origin_ops w ''work'' plain_asking t = origin_only"
  by (cases t) (simp_all add: copies_read_def add_local_def add_origin_def local_tip_of_def local_tip_def origin_copy_def
      origin_census_def origin_ops_def plain_asking_def origin_only_def bare_disk_def)

lemma origin_readable:
  "readable origin_census origin_ops ''work'' plain_asking \<lparr>held = OriginCopy, stands = ''commit''\<rparr> w = (Some ''/repo'', w)"
  by (simp add: readable_def local_tip_of_def origin_census_def origin_ops_def bare_disk_def has_commit_def
      reading_git_def judging_git_def)

lemma origin_fields:
  "base_branch origin_census = Some ''main''" "base_tip origin_census = Some ''base''" "sessions origin_census = []"
  "cid origin_census = ''i''"
  by (simp_all add: origin_census_def)

lemma asking_fields:
  "exclude plain_asking = []" "verdict_files plain_asking = None" "\<not> abort_merges_left plain_asking"
  by (simp_all add: plain_asking_def)

lemma only_fields: "unseen origin_only = []" "found origin_only = [\<lparr>held = OriginCopy, stands = ''commit''\<rparr>]"
  by (simp_all add: origin_only_def)

lemma origin_classified:
  "classify origin_census origin_ops ''work'' origin_only plain_asking w = (content_proved, Derived, w)"
proof -
  have all: "judge_all origin_census origin_ops ''work'' ''base'' no_evidence plain_asking (found origin_only) w =
      (Ok [(\<lparr>held = OriginCopy, stands = ''commit''\<rparr>, identical_copy ''base'')], w)"
    by (simp add: origin_only_def origin_readable) (simp add: origin_ops_def origin_judged)
  let ?js = "[(\<lparr>held = OriginCopy, stands = ''commit''\<rparr>, identical_copy ''base'')]"
  have e: "evidence_of (recorded_for origin_census ''work'') = no_evidence"
    by (simp add: evidence_of_def origin_census_def no_evidence_def)
  have ended: "conclude origin_census origin_ops ''work'' ''base'' origin_only ?js plain_asking w = (Ok content_proved, w)"
    by (simp add: conclude_def sum_up_def sum_copy_def identical_copy_def add_free_def content_proved_def kept_def Let_def)
  have asked: "ask_open_change origin_census origin_ops ''work'' no_evidence ?js plain_asking None w =
      (Ok None, False, not_asked, no_evidence, w)"
    by (simp add: ask_open_change_def) (simp add: no_evidence_def)
  have again: "(if e_changed no_evidence
      then judge_all origin_census origin_ops ''work'' ''base'' no_evidence plain_asking (found origin_only) w
      else (Ok ?js, w)) = (Ok ?js, w)"
    by (simp add: no_evidence_def)
  have beyond: "\<not> list_all (\<lambda>(_, j). at_base j) ?js" by (simp add: identical_copy_def)
  have "derive origin_census origin_ops ''work'' ''base'' origin_only plain_asking None w =
      (\<lparr>retirement = content_proved, reached = Concluded, consulted = False, host = not_asked\<rparr>, w)"
    by (simp only: derive_asked [OF all [folded e] beyond asked [folded e] again [folded e]] ended sum.case option.case prod.case)
  then have "verdict_for origin_census origin_ops ''work'' ''main'' ''base'' origin_only plain_asking w =
      (\<lparr>retirement = content_proved, reached = Concluded, consulted = False, host = not_asked\<rparr>, Derived, w)"
    by (simp add: verdict_for_body verdict_reused_def derive_and_keep_def recorded_key_def asking_fields)
  moreover have "live_holder origin_census origin_ops w ''work'' = Ok None"
    by (simp add: live_holder_def origin_fields)
  moreover have "worked_in origin_census origin_ops w ''work'' origin_only = Ok None"
    by (simp add: worked_in_def holding_places_def only_fields)
  ultimately show ?thesis by (simp add: classify_def origin_fields asking_fields only_fields Let_def)
qed

lemma origin_acted:
  "snd (act origin_census origin_ops ''work'' origin_only Retire Verb False plain_asking {}) =
    {(None, ''work'', ''commit'')}"
proof -
  have may: "permits Retire (class_of content_proved) (reason content_proved)"
    by (simp add: permits_def permits_class_def content_proved_def)
  have gone: "outcome_of origin_census origin_ops ''work'' origin_only plain_asking {} =
      (DeletedFrom [holder_of origin_census OriginCopy] [], {(None, ''work'', ''commit'')})"
    unfolding outcome_of_def delete_def origin_read only_fields
    by (simp add: refusal_of_def) (simp add: origin_ops_def)
  obtain rd w where f: "finish origin_ops ''work'' content_proved (plan_for origin_census origin_ops {} ''work'' origin_only)
      [holder_of origin_census OriginCopy] [] Retire Verb {(None, ''work'', ''commit'')} = (rd, w)" by force
  have "closing (plan_for origin_census origin_ops {} ''work'' origin_only) = []"
    "roots (plan_for origin_census origin_ops {} ''work'' origin_only) = []"
    "slots (plan_for origin_census origin_ops {} ''work'' origin_only) = []"
    by (simp_all add: plan_for_def Let_def holding_places_def only_fields origin_census_def)
  with f have "w = {(None, ''work'', ''commit'')}"
    by (simp add: finish_def Let_def) (auto simp: origin_ops_def)
  then show ?thesis unfolding act_def
    by (simp add: act_from_deleted [OF origin_classified may gone f] forgotten_def asking_fields)
qed

section \<open>Properties\<close>




text \<open>C40 Every retirement that is derived is a document of its format: reading it back accepts it,
  short of the cause of an unknown class with a blank field. What is recorded of it, once the
  actor is permitted its class, is a record that reading a stream accepts as consistent.\<close>

theorem derived_retirements_are_documents:
  assumes "classify c ops branch cs ask w = (r, Derived, w')"
  shows "(try_from r = Ok r \<or> try_from r = Err CauseIncomplete \<and>
      (\<exists>why. cause r = Some why \<and> (blank (operation why) \<or> blank (about why) \<or> blank (failure why)))) \<and>
    (permits acting (class_of r) (reason r) \<longrightarrow> retirement_of rd = r \<longrightarrow> consistent (payload_of rd branch acting trigger))"
  using classify_derived [OF assms] well_formed_document [of r] well_formed_payload [of rd acting branch trigger] by auto



theorem derived_retirements_are_documents_witness:
  "try_from content_proved = Ok content_proved \<and>
   consistent (payload_of (nothing_retired content_proved RetiredAll) ''work'' Retire Verb)"
  using derived_retirements_are_documents [OF origin_classified, of Retire "nothing_retired content_proved RetiredAll" Verb]
  by (auto simp: content_proved_def nothing_retired_def permits_def permits_class_def)

text \<open>Two repositories with the branch; the second copy moved after it was classified.\<close>

definition ones :: str where "ones = replicate 40 (CHR ''1'')"

definition moving_ops :: "losses world_ops" where
  "moving_ops = origin_ops
     \<lparr>disk_at := (\<lambda>w r. bare_disk (Some (if r = ''/b'' then ones else zeros))),
      delete_at := (\<lambda>r b t w. if r = ''/b'' then (Err (NotRun []), w) else (Ok (), insert (Some r, b, t) w))\<rparr>"

definition moving_census :: census where
  "moving_census = origin_census
     \<lparr>places := [\<lparr>place_kind = RunCloneHolder, repo = ''/a'', slot_of = None\<rparr>,
                 \<lparr>place_kind = RunCloneHolder, repo = ''/b'', slot_of = None\<rparr>]\<rparr>"

definition two_copies :: copies where
  "two_copies = \<lparr>found = [\<lparr>held = LocalCopy 0, stands = zeros\<rparr>, \<lparr>held = LocalCopy 1, stands = zeros\<rparr>], unseen = []\<rparr>"

lemma moving_journal: "journaled (\<lambda>w. w) moving_ops" "recovers (\<lambda>w. w) moving_ops"
  by (auto simp: journaled_def recovers_def moving_ops_def origin_ops_def refusal_of_def)

lemma moving_tips: "object_id zeros = Some zeros" "object_id ones = Some ones" "ones \<noteq> zeros"
  by code_simp+

lemma moving_deletes:
  "delete_one moving_ops ''/a'' ''work'' zeros {} = (GoneFrom (Some (''/a'', zeros)), {(Some ''/a'', ''work'', zeros)})"
  "delete_one moving_ops ''/b'' ''work'' zeros w = (MovedAway, w)"
  by (simp_all add: delete_one_def stand_off_def moving_ops_def origin_ops_def local_tip_def bare_disk_def moving_tips)


end
