(* ===== verification/Closing.thy ===== *)
theory Closing
  imports Json GitReads "HOL-Library.AList"
begin

text \<open>
  The issue-closing references a squash carries forward (\<open>closing.rs\<close>): reading them from messages,
  writing them back as lines of the squash's message (\<open>publish::compose_squash\<close>), the \<open>closes\<close> a landing
  event reports, and what a read of a merge heard from the host. Which characters beyond ASCII are
  alphanumeric, and their lower case, are parameters.
\<close>

section \<open>References\<close>

definition KEYWORDS :: "str list" where
  "KEYWORDS = [''close'', ''closes'', ''closed'', ''fix'', ''fixes'', ''fixed'', ''resolve'', ''resolves'', ''resolved'']"

record closing_reference =
  keyword :: str
  refers_to :: str       \<comment> \<open>\<open>reference\<close>\<close>

definition closing_line :: "closing_reference \<Rightarrow> str" where
  "closing_line c = keyword c @ '' '' @ refers_to c"

definition is_alpha :: "char \<Rightarrow> bool" where
  "is_alpha c \<longleftrightarrow> is_upper c \<or> is_lower c"

definition is_issue_number :: "str \<Rightarrow> bool" where
  "is_issue_number s \<longleftrightarrow> s \<noteq> [] \<and> list_all is_digit s"

definition is_owner :: "str \<Rightarrow> bool" where
  "is_owner s \<longleftrightarrow> s \<noteq> [] \<and> list_all (\<lambda>c. is_alnum c \<or> c = CHR ''-'') s"

definition is_repo_name :: "str \<Rightarrow> bool" where
  "is_repo_name s \<longleftrightarrow> s \<noteq> [] \<and> list_all (\<lambda>c. is_alnum c \<or> c \<in> {CHR ''-'', CHR ''_'', CHR ''.''}) s"

definition capitalised :: "str \<Rightarrow> str" where
  "capitalised w =
     (case to_ascii_lowercase w of
        [] \<Rightarrow> []
      | c # cs \<Rightarrow> (if is_lower c then char_of (code c - 32) else c) # cs)"

definition short_form :: "str \<Rightarrow> str \<Rightarrow> str \<Rightarrow> str" where
  "short_form o' n k = o' @ ''/'' @ n @ ''#'' @ k"

definition issue_at_url :: "str \<Rightarrow> str \<Rightarrow> str option" where
  "issue_at_url token url =
     (case split_on (CHR ''/'') url of
        [h, o', n, kind, k] \<Rightarrow>
          (if kind \<noteq> ''issues'' \<or> \<not> is_owner o' \<or> \<not> is_repo_name n \<or> \<not> is_issue_number k then None
           else if to_ascii_lowercase h = ''github.com'' then Some (short_form o' n k) else Some token)
      | _ \<Rightarrow> None)"

definition url_after_scheme :: "str \<Rightarrow> str option" where
  "url_after_scheme token =
     (case strip_prefix ''https://'' token of Some u \<Rightarrow> Some u | None \<Rightarrow> strip_prefix ''http://'' token)"

definition issue_named :: "str \<Rightarrow> str option" where
  "issue_named token =
     (case strip_prefix ''#'' token of
        Some k \<Rightarrow> if is_issue_number k then Some (''#'' @ k) else None
      | None \<Rightarrow>
     (case url_after_scheme token of
        Some url \<Rightarrow> issue_at_url token url
      | None \<Rightarrow>
          Option.bind (split_once (CHR ''#'') token) (\<lambda>(r, k).
          Option.bind (split_once (CHR ''/'') r) (\<lambda>(o', n).
            if is_owner o' \<and> is_repo_name n \<and> is_issue_number k then Some (short_form o' n k) else None))))"

text \<open>What ends a reference: white space, or a delimiter.\<close>

definition delimiters :: str where
  "delimiters = '',;)]>'' @ [CHR 0x22]"

fun until_end :: "str \<Rightarrow> str" where
  "until_end [] = []"
| "until_end (c # s) = (if ws_front (c # s) > 0 \<or> c \<in> set delimiters then [] else c # until_end s)"

definition trim_punctuation :: "str \<Rightarrow> str" where
  "trim_punctuation t = rev (dropWhile (\<lambda>c. c \<in> set ''.:!?'') (rev t))"

definition reference_after :: "str \<Rightarrow> (str \<times> nat) option" where
  "reference_after after =
     (let colon = (if starts_with '':'' after then 1 else 0);
          spaced = length (drop colon after) - length (trim_start (drop colon after))
      in if colon + spaced = 0 then None
         else let token = trim_punctuation (until_end (drop (colon + spaced) after))
              in map_option (\<lambda>r. (r, colon + spaced + length token)) (issue_named token))"

definition word_len :: "str \<Rightarrow> nat" where
  "word_len s = length (takeWhile is_alpha s)"

text \<open>The bytes of the character a text starts with.\<close>

definition char_len :: "str \<Rightarrow> nat" where
  "char_len s =
     (case s of
        [] \<Rightarrow> 1
      | c # _ \<Rightarrow> if code c < 128 then 1 else if code c < 224 then 2 else if code c < 240 then 3 else 4)"

definition starts_a_word :: "(str \<Rightarrow> bool) \<Rightarrow> str \<Rightarrow> bool" where
  "starts_a_word wide before \<longleftrightarrow>
     before = [] \<or>
     (if is_ascii (last before) then \<not> is_alnum (last before) \<and> last before \<noteq> CHR ''_'' else \<not> wide before)"

function in_line_from :: "(str \<Rightarrow> bool) \<Rightarrow> str \<Rightarrow> str \<Rightarrow> closing_reference list" where
  "in_line_from wide before rest =
     (if rest = [] then []
      else
        let n = word_len rest
        in if n > 0 \<and> starts_a_word wide before then
             (let word = take n rest
              in case (if to_ascii_lowercase word \<in> set KEYWORDS then reference_after (drop n rest) else None) of
                   Some (r, used) \<Rightarrow>
                     \<lparr>keyword = capitalised word, refers_to = r\<rparr> #
                     in_line_from wide (before @ take (n + used) rest) (drop (n + used) rest)
                 | None \<Rightarrow> in_line_from wide (before @ word) (drop n rest))
           else in_line_from wide (before @ take (char_len rest) rest) (drop (char_len rest) rest))"
  by pat_completeness auto
termination
  by (relation "measure (\<lambda>(_, _, rest). length rest)")
    (auto simp: char_len_def split: list.splits)

declare in_line_from.simps [simp del]

definition in_line :: "(str \<Rightarrow> bool) \<Rightarrow> str \<Rightarrow> closing_reference list" where
  "in_line wide l = in_line_from wide [] l"

text \<open>Each once, by a key: the loop over a set of what was seen.\<close>

fun once_by :: "('a \<Rightarrow> 'k) \<Rightarrow> 'k list \<Rightarrow> 'a list \<Rightarrow> 'a list" where
  "once_by f seen [] = []"
| "once_by f seen (x # xs) =
     (if f x \<in> set seen then once_by f seen xs else x # once_by f (f x # seen) xs)"

definition references :: "(str \<Rightarrow> bool) \<Rightarrow> (str \<Rightarrow> str) \<Rightarrow> str list \<Rightarrow> closing_reference list" where
  "references wide lower messages =
     once_by (\<lambda>c. lower (refers_to c)) []
       (concat (map (\<lambda>m. concat (map (in_line wide) (lines m))) messages))"

section \<open>Issues\<close>

record issue =
  issue_owner :: str
  issue_name :: str
  issue_number :: nat

definition new_issue :: "str \<Rightarrow> str \<Rightarrow> nat \<Rightarrow> issue option" where
  "new_issue o' n k =
     (if k = 0 \<or> \<not> is_owner o' \<or> \<not> is_repo_name n then None
      else Some \<lparr>issue_owner = o', issue_name = n, issue_number = k\<rparr>)"

definition show_issue :: "issue \<Rightarrow> str" where
  "show_issue i = short_form (issue_owner i) (issue_name i) (show_nat (issue_number i))"

definition issue_of :: "closing_reference \<Rightarrow> str option \<Rightarrow> issue option" where
  "issue_of c own =
     (if contains ''://'' (refers_to c) then None
      else
        Option.bind
          (case strip_prefix ''#'' (refers_to c) of
             Some k \<Rightarrow> map_option (\<lambda>o'. (o', k)) own
           | None \<Rightarrow> split_once (CHR ''#'') (refers_to c))
          (\<lambda>(r, k). Option.bind (split_once (CHR ''/'') r) (\<lambda>(o', n).
             Option.bind (parse_uint 64 k) (new_issue o' n))))"

definition issues_of :: "closing_reference list \<Rightarrow> str option \<Rightarrow> issue list" where
  "issues_of cs own = filter_map (\<lambda>c. issue_of c own) cs"

definition report_closes :: "(str \<Rightarrow> str) \<Rightarrow> (str \<times> json) list \<Rightarrow> issue list \<Rightarrow> (str \<times> json) list" where
  "report_closes lower payload is =
     AList.update ''closes'' (Array (map Str (once_by lower [] (map show_issue is)))) payload"

datatype closes_error = NotAList | NotText | NotAnIssue str

definition spells_an_issue :: "str \<Rightarrow> bool" where
  "spells_an_issue s \<longleftrightarrow>
     (case Option.bind (split_once (CHR ''#'') s) (\<lambda>(r, k). Option.bind (split_once (CHR ''/'') r) (\<lambda>(o', n).
             Option.bind (parse_uint 64 k) (new_issue o' n))) of
        None \<Rightarrow> False | Some i \<Rightarrow> show_issue i = s)"

definition reported_closes :: "(str \<times> json) list \<Rightarrow> closes_error + str list" where
  "reported_closes payload =
     (case map_of payload ''closes'' of
        None \<Rightarrow> Ok []
      | Some (Array items) \<Rightarrow>
          collect_res (\<lambda>i. case as_str i of
              None \<Rightarrow> Err NotText
            | Some s \<Rightarrow> if spells_an_issue s then Ok s else Err (NotAnIssue s)) items
      | Some _ \<Rightarrow> Err NotAList)"

section \<open>What the host said\<close>

datatype unread_closes = NoClosingReferences | NeitherListNorConnection | NamesNoIssue json

definition json_pointer :: "str list \<Rightarrow> json \<Rightarrow> json option" where
  "json_pointer ks v = fold (\<lambda>k acc. Option.bind acc (get k)) ks (Some v)"

definition node_issue :: "json \<Rightarrow> issue option" where
  "node_issue v =
     (case (Option.bind (json_pointer [''repository'', ''owner'', ''login''] v) as_str,
            Option.bind (json_pointer [''repository'', ''name''] v) as_str,
            Option.bind (get ''number'' v) as_u64) of
        (Some o', Some n, Some k) \<Rightarrow> new_issue o' n k
      | _ \<Rightarrow> None)"

definition from_host :: "json option \<Rightarrow> unread_closes + issue list" where
  "from_host a =
     and_then
       (case a of
          Some (Array nodes) \<Rightarrow> Ok nodes
        | Some connection \<Rightarrow> ok_or (Option.bind (get ''nodes'' connection) as_array) NeitherListNorConnection
        | None \<Rightarrow> Err NoClosingReferences)
       (collect_res (\<lambda>v. ok_or (node_issue v) (NamesNoIssue v)))"

datatype heard = Issues "issue list" | Unanswered

definition heard_issues :: "heard \<Rightarrow> issue list" where
  "heard_issues h = (case h of Issues is \<Rightarrow> is | Unanswered \<Rightarrow> [])"

type_synonym heard_map = "str \<rightharpoonup> heard"

definition hear :: "str \<Rightarrow> json option \<Rightarrow> heard_map \<Rightarrow> heard_map" where
  "hear url a m = m(url \<mapsto> (case from_host a of Inr is \<Rightarrow> Issues is | Inl _ \<Rightarrow> Unanswered))"

definition unanswered_read :: "str \<Rightarrow> heard_map \<Rightarrow> heard_map" where
  "unanswered_read url m = m(url \<mapsto> Unanswered)"

definition heard_of :: "str \<Rightarrow> heard_map \<Rightarrow> heard option" where
  "heard_of url m = m url"

section \<open>The squash's message\<close>

definition compose_message :: "str \<Rightarrow> str list \<Rightarrow> str" where
  "compose_message subject ts = (if ts = [] then subject else subject @ NL @ NL @ join_with NL ts)"

definition compose_squash :: "str \<Rightarrow> closing_reference list \<Rightarrow> str list \<Rightarrow> str" where
  "compose_squash subject cs ts =
     (if cs = [] then compose_message subject ts
      else compose_message (subject @ NL @ NL @ join_with NL (map closing_line cs)) ts)"

section \<open>Reading a reference back\<close>

text \<open>A reference as it is written back: nothing in it ends it, and it ends with a digit.\<close>

definition settled_text :: "str \<Rightarrow> bool" where
  "settled_text r \<longleftrightarrow>
     r \<noteq> [] \<and> until_end r = r \<and> is_digit (last r) \<and> issue_named r = Some r"

lemma until_end_prefix: "\<exists>s. t = until_end t @ s"
  by (induction t rule: until_end.induct) auto

lemma ws_front_more: "ws_front v > 0 \<Longrightarrow> ws_front (v @ x) > 0"
  by (cases v rule: ws_front.cases; cases x rule: ws_front.cases) (auto split: if_splits)

lemma until_end_take: "until_end (a @ b) = a @ b \<Longrightarrow> until_end a = a"
proof (induction a)
  case (Cons c a)
  then have "\<not> ws_front (c # a @ b) > 0 \<and> c \<notin> set delimiters" "until_end (a @ b) = a @ b"
    by (auto split: if_splits)
  with Cons.IH ws_front_more [of "c # a" b] show ?case by auto
qed simp

lemma until_end_again: "until_end (until_end t) = until_end t"
proof (induction t rule: until_end.induct)
  case (2 c s)
  show ?case
  proof (cases "ws_front (c # s) > 0 \<or> c \<in> set delimiters")
    case False
    obtain r where "s = until_end s @ r" using until_end_prefix by blast
    with False ws_front_more [of "c # until_end s" r] have "\<not> ws_front (c # until_end s) > 0" by auto
    with False 2 show ?thesis by simp
  qed simp
qed simp

lemma plain_until_end: "list_all (\<lambda>c. plain_char c \<and> c \<notin> set delimiters) t \<Longrightarrow> until_end t = t"
  by (induction t) (auto simp: ws_front_plain plain_char_def)

lemma trim_punctuation_prefix: "\<exists>s. t = trim_punctuation t @ s"
proof -
  have "rev t = takeWhile (\<lambda>c. c \<in> set ''.:!?'') (rev t) @ dropWhile (\<lambda>c. c \<in> set ''.:!?'') (rev t)" by simp
  then have "t = trim_punctuation t @ rev (takeWhile (\<lambda>c. c \<in> set ''.:!?'') (rev t))"
    unfolding trim_punctuation_def by (metis rev_append rev_rev_ident)
  then show ?thesis by blast
qed

lemma trim_punctuation_digit: "r \<noteq> [] \<Longrightarrow> is_digit (last r) \<Longrightarrow> trim_punctuation r = r"
  by (cases r rule: rev_cases) (auto simp: trim_punctuation_def char_classes)

lemma digit_settles: "list_all is_digit k \<Longrightarrow> list_all (\<lambda>c. plain_char c \<and> c \<notin> set delimiters) k"
  by (auto simp: list_all_iff plain_char_def ws1_def delimiters_def char_classes)

lemma owner_settles: "is_owner o' \<Longrightarrow> list_all (\<lambda>c. plain_char c \<and> c \<notin> set delimiters) o'"
  by (auto simp: is_owner_def list_all_iff plain_char_def ws1_def delimiters_def char_classes)

lemma name_settles: "is_repo_name n \<Longrightarrow> list_all (\<lambda>c. plain_char c \<and> c \<notin> set delimiters) n"
  by (auto simp: is_repo_name_def list_all_iff plain_char_def ws1_def delimiters_def char_classes)

lemma last_digit: "is_issue_number k \<Longrightarrow> is_digit (last k)"
  by (auto simp: is_issue_number_def list_all_iff)

lemma parts_free:
  "is_owner o' \<Longrightarrow> CHR ''/'' \<notin> set o' \<and> CHR ''#'' \<notin> set o' \<and> CHR '':'' \<notin> set o'"
  "is_repo_name n \<Longrightarrow> CHR ''/'' \<notin> set n \<and> CHR ''#'' \<notin> set n"
  by (auto simp: is_owner_def is_repo_name_def list_all_iff char_classes)

lemma short_form_named:
  assumes "is_owner o'" "is_repo_name n" "is_issue_number k"
  shows "issue_named (short_form o' n k) = Some (short_form o' n k)"
proof -
  have "strip_prefix ''#'' (short_form o' n k) = None"
    using assms(1) by (cases o') (auto simp: short_form_def strip_prefix_None is_owner_def char_classes)
  moreover have "strip_prefix ''https://'' (short_form o' n k) = None" "strip_prefix ''http://'' (short_form o' n k) = None"
  proof -
    have "CHR '':'' \<notin> set o'" using parts_free(1) assms(1) by blast
    have "\<not> (\<exists>r. short_form o' n k = (p @ ''://'') @ r)" if "CHR ''/'' \<notin> set p" for p
    proof
      assume "\<exists>r. short_form o' n k = (p @ ''://'') @ r"
      then obtain r where "o' @ CHR ''/'' # (n @ ''#'' @ k) = (p @ '':'') @ CHR ''/'' # (''/'' @ r)"
        by (auto simp: short_form_def)
      moreover have "CHR ''/'' \<notin> set o'" "CHR ''/'' \<notin> set (p @ '':'')" using parts_free(1) assms(1) that by auto
      ultimately have "o' = p @ '':''" by (metis Pair_inject option.inject split_once_append)
      with \<open>CHR '':'' \<notin> set o'\<close> show False by simp
    qed
    from this [of "''https''"] this [of "''http''"]
    show "strip_prefix ''https://'' (short_form o' n k) = None" "strip_prefix ''http://'' (short_form o' n k) = None"
      by (simp_all add: strip_prefix_None)
  qed
  moreover have "split_once (CHR ''#'') (short_form o' n k) = Some (o' @ ''/'' @ n, k)"
    using parts_free assms(1,2) by (simp add: split_once_Some short_form_def)
  ultimately show ?thesis using assms parts_free(1)
    by (simp add: issue_named_def url_after_scheme_def)
qed

lemma short_form_settled:
  assumes "is_owner o'" "is_repo_name n" "is_issue_number k"
  shows "settled_text (short_form o' n k)"
proof -
  have "k \<noteq> []" "list_all is_digit k" using assms(3) by (auto simp: is_issue_number_def)
  then have "list_all (\<lambda>c. plain_char c \<and> c \<notin> set delimiters) (short_form o' n k)"
    using owner_settles assms(1) name_settles assms(2) digit_settles
    by (auto simp: short_form_def plain_char_def ws1_def delimiters_def code_def)
  from plain_until_end [OF this] \<open>k \<noteq> []\<close> last_digit [OF assms(3)] short_form_named [OF assms] show ?thesis
    by (auto simp: settled_text_def short_form_def)
qed

lemma number_settled: "is_issue_number k \<Longrightarrow> settled_text (''#'' @ k)"
proof -
  assume k: "is_issue_number k"
  then have "k \<noteq> []" "list_all is_digit k" by (auto simp: is_issue_number_def)
  then have "until_end (''#'' @ k) = ''#'' @ k"
    using digit_settles [of k] by (intro plain_until_end) (auto simp: plain_char_def ws1_def delimiters_def code_def)
  moreover have "issue_named (''#'' @ k) = Some (''#'' @ k)"
    unfolding issue_named_def strip_prefix_append(1) using k by simp
  ultimately show ?thesis using last_digit [OF k] \<open>k \<noteq> []\<close> by (simp add: settled_text_def)
qed

lemma issue_at_url_settled:
  assumes "issue_at_url token url = Some r" "token = scheme @ url" "until_end token = token"
    "issue_named token = issue_at_url token url"
  shows "settled_text r"
proof -
  from assms(1) obtain h o' n k where url: "split_on (CHR ''/'') url = [h, o', n, ''issues'', k]"
    and parts: "is_owner o'" "is_repo_name n" "is_issue_number k"
    and r: "r = short_form o' n k \<or> r = token"
    by (auto simp: issue_at_url_def split: list.splits if_splits)
  from r show ?thesis
  proof
    assume "r = token"
    have "url = join_with ''/'' [h, o', n, ''issues'', k]" using join_split_on [of "CHR ''/''" url] url by simp
    then have "\<exists>a. token = a @ k" using assms(2) by auto
    moreover have "k \<noteq> []" using parts(3) by (simp add: is_issue_number_def)
    ultimately have "token \<noteq> []" "is_digit (last token)" using last_digit [OF parts(3)] by auto
    with \<open>r = token\<close> assms show ?thesis by (simp add: settled_text_def)
  qed (simp add: short_form_settled [OF parts])
qed

lemma issue_named_settled:
  assumes "issue_named t = Some r" "until_end t = t"
  shows "settled_text r"
proof (cases "strip_prefix ''#'' t")
  case (Some k)
  with assms(1) number_settled show ?thesis by (auto simp: issue_named_def split: if_splits)
next
  case none: None
  show ?thesis
  proof (cases "url_after_scheme t")
    case None
    with none assms(1) obtain q o' n k where "split_once (CHR ''#'') t = Some (q, k)" "split_once (CHR ''/'') q = Some (o', n)"
      "is_owner o'" "is_repo_name n" "is_issue_number k" "r = short_form o' n k"
      by (auto simp: issue_named_def bind_eq_Some_conv split: if_splits)
    with short_form_settled show ?thesis by simp
  next
    case (Some url)
    then obtain scheme where "t = scheme @ url"
      by (auto simp: url_after_scheme_def strip_prefix_Some split: option.splits)
    with issue_at_url_settled none Some assms show ?thesis by (simp add: issue_named_def)
  qed
qed

lemma reference_after_settled:
  assumes "reference_after after = Some (r, used)"
  shows "settled_text r"
proof -
  from assms obtain rest where "issue_named (trim_punctuation (until_end rest)) = Some r"
    by (auto simp: reference_after_def Let_def split: if_splits)
  moreover have "until_end (trim_punctuation (until_end rest)) = trim_punctuation (until_end rest)"
    using trim_punctuation_prefix [of "until_end rest"] until_end_again [of rest] until_end_take by metis
  ultimately show ?thesis by (rule issue_named_settled)
qed

lemma reference_after_space:
  assumes "settled_text r"
  shows "reference_after (CHR '' '' # r) = Some (r, Suc (length r))"
proof -
  obtain c s where r: "r = c # s" using assms by (cases r) (auto simp: settled_text_def)
  with assms have "ws_front r = 0" by (auto simp: settled_text_def split: if_splits)
  then have "trim_start r = r" by (subst trim_start_def, subst drop_ws.simps) simp
  moreover have "\<not> starts_with '':'' (CHR '' '' # r)" by (simp add: starts_with_def)
  ultimately show ?thesis using assms trim_punctuation_digit [of r]
    by (simp add: reference_after_def settled_text_def Let_def)
qed

text \<open>A closing reference as \<open>references\<close> answers it.\<close>

definition written_back :: "closing_reference \<Rightarrow> bool" where
  "written_back c \<longleftrightarrow> keyword c \<in> set (map capitalised KEYWORDS) \<and> settled_text (refers_to c)"

lemma lowercase_again: "to_ascii_lowercase (to_ascii_lowercase w) = to_ascii_lowercase w"
  by (auto simp: to_ascii_lowercase_def char_classes)

definition keyword_hit :: "str \<Rightarrow> (str \<times> nat) option" where
  "keyword_hit rest =
     (if to_ascii_lowercase (take (word_len rest) rest) \<in> set KEYWORDS
      then reference_after (drop (word_len rest) rest) else None)"

lemma in_line_from_nil [simp]: "in_line_from wide before [] = []"
  by (subst in_line_from.simps) simp

lemma in_line_from_word:
  assumes "rest \<noteq> []" "word_len rest > 0" "starts_a_word wide before"
  shows "in_line_from wide before rest =
    (case keyword_hit rest of
       Some (r, used) \<Rightarrow>
         \<lparr>keyword = capitalised (take (word_len rest) rest), refers_to = r\<rparr> #
         in_line_from wide (before @ take (word_len rest + used) rest) (drop (word_len rest + used) rest)
     | None \<Rightarrow> in_line_from wide (before @ take (word_len rest) rest) (drop (word_len rest) rest))"
  by (subst in_line_from.simps) (simp only: assms keyword_hit_def Let_def if_False if_True simp_thms)

lemma in_line_from_other:
  assumes "rest \<noteq> []" "\<not> (word_len rest > 0 \<and> starts_a_word wide before)"
  shows "in_line_from wide before rest =
    in_line_from wide (before @ take (char_len rest) rest) (drop (char_len rest) rest)"
  by (subst in_line_from.simps) (simp only: assms Let_def if_False)

lemma keyword_hit_written:
  assumes "keyword_hit rest = Some (r, used)"
  shows "written_back \<lparr>keyword = capitalised (take (word_len rest) rest), refers_to = r\<rparr>"
  using assms reference_after_settled lowercase_again [of "take (word_len rest) rest"]
  by (auto simp: keyword_hit_def written_back_def capitalised_def split: if_splits
      intro!: image_eqI [of _ _ "to_ascii_lowercase (take (word_len rest) rest)"])

lemma in_line_from_written: "c \<in> set (in_line_from wide before rest) \<Longrightarrow> written_back c"
proof (induction "length rest" arbitrary: before rest rule: less_induct)
  case less
  show ?case
  proof (cases "rest = []")
    case True
    with less.prems show ?thesis by simp
  next
    case False
    show ?thesis
    proof (cases "word_len rest > 0 \<and> starts_a_word wide before")
      case True
      note body = in_line_from_word [OF False, of wide before]
      show ?thesis
      proof (cases "keyword_hit rest")
        case None
        with less.prems True body have "c \<in> set (in_line_from wide (before @ take (word_len rest) rest) (drop (word_len rest) rest))"
          by simp
        from less.hyps [OF _ this] True False show ?thesis by simp
      next
        case (Some ru)
        obtain r used where "ru = (r, used)" by force
        with less.prems True body Some have "c = \<lparr>keyword = capitalised (take (word_len rest) rest), refers_to = r\<rparr> \<or>
            c \<in> set (in_line_from wide (before @ take (word_len rest + used) rest) (drop (word_len rest + used) rest))"
          by simp
        with keyword_hit_written [of rest r used] Some \<open>ru = (r, used)\<close> less.hyps [of "drop (word_len rest + used) rest"] True False
        show ?thesis by auto
      qed
    next
      case nope: False
      have "length (drop (char_len rest) rest) < length rest"
        using False by (cases rest) (auto simp: char_len_def)
      with less in_line_from_other [OF False nope] show ?thesis by metis
    qed
  qed
qed

text \<open>A line that was written back reads as its one reference.\<close>

lemma list_allD: "list_all P xs \<Longrightarrow> x \<in> set xs \<Longrightarrow> P x"
  by (simp add: list_all_iff)

lemma alpha_no_newline: "list_all is_alpha s \<Longrightarrow> CHR 0x0A \<notin> set s"
  by (auto simp: list_all_iff is_alpha_def char_classes)

definition CAPITALISED :: "str list" where
  "CAPITALISED = [''Close'', ''Closes'', ''Closed'', ''Fix'', ''Fixes'', ''Fixed'', ''Resolve'', ''Resolves'', ''Resolved'']"

lemma capital_keywords: "map capitalised KEYWORDS = CAPITALISED" "map capitalised CAPITALISED = CAPITALISED"
  by (simp_all add: CAPITALISED_def KEYWORDS_def capitalised_def to_ascii_lowercase_def char_classes char_of_def bit_iff_odd)

lemma lower_keywords: "map to_ascii_lowercase CAPITALISED = KEYWORDS"
  by (simp add: CAPITALISED_def KEYWORDS_def to_ascii_lowercase_def char_classes char_of_def bit_iff_odd)

lemma alpha_keywords: "list_all (\<lambda>w. w \<noteq> [] \<and> list_all is_alpha w) CAPITALISED"
  by (simp add: CAPITALISED_def is_alpha_def char_classes)

lemma keyword_text:
  assumes "w \<in> set (map capitalised KEYWORDS)"
  shows "w \<noteq> [] \<and> list_all is_alpha w \<and> to_ascii_lowercase w \<in> set KEYWORDS \<and> capitalised w = w"
proof -
  from assms have w: "w \<in> set CAPITALISED" by (simp only: capital_keywords)
  then have "to_ascii_lowercase w \<in> set KEYWORDS" unfolding lower_keywords [symmetric] by simp
  moreover have "map capitalised CAPITALISED = map (\<lambda>w. w) CAPITALISED" by (simp add: capital_keywords)
  then have "capitalised w = w" using w unfolding map_eq_conv by blast
  ultimately show ?thesis using list_allD [OF alpha_keywords w] by simp
qed

lemma in_line_written:
  assumes "written_back c"
  shows "in_line wide (closing_line c) = [c]"
proof -
  obtain w r where c: "c = \<lparr>keyword = w, refers_to = r\<rparr>" by (cases c)
  from assms have "w \<in> set (map capitalised KEYWORDS)" and r: "settled_text r"
    unfolding written_back_def c by simp_all
  from keyword_text [OF this(1)]
  have w: "w \<noteq> []" "list_all is_alpha w" "to_ascii_lowercase w \<in> set KEYWORDS" "capitalised w = w" by blast+
  let ?l = "w @ CHR '' '' # r"
  have "takeWhile is_alpha ?l = w"
    using w(2) by (simp add: takeWhile_append list_all_iff) (simp add: is_alpha_def char_classes)
  then have n: "word_len ?l = length w" by (simp add: word_len_def)
  have "keyword_hit ?l = Some (r, Suc (length r))"
    using w(3) reference_after_space [OF r] by (simp add: keyword_hit_def n)
  moreover have "?l \<noteq> []" "0 < word_len ?l" "starts_a_word wide []" using w(1) n by (simp_all add: starts_a_word_def)
  ultimately have "in_line_from wide [] ?l = [\<lparr>keyword = capitalised w, refers_to = r\<rparr>]"
    using in_line_from_word [of ?l wide "[]"] by (simp add: n)
  then show ?thesis by (simp add: in_line_def closing_line_def c w(4))
qed

lemma ws_front_newline: "ws_front (CHR 0x0A # s) > 0"
proof -
  have "ws1 (code (CHR 0x0A))" by (simp add: ws1_def code_def)
  then show ?thesis by (cases "CHR 0x0A # s" rule: ws_front.cases) auto
qed

lemma written_line:
  assumes "written_back c"
  shows "clean_line (closing_line c)"
proof -
  have k: "CHR 0x0A \<notin> set (keyword c)"
    using alpha_no_newline keyword_text assms unfolding written_back_def by blast
  have "CHR 0x0A \<notin> set r" if "until_end r = r" for r
    using that
  proof (induction r)
    case (Cons x r)
    then have "\<not> ws_front (x # r) > 0" "until_end r = r" by (auto split: if_splits)
    with Cons.IH ws_front_newline [of r] show ?case by auto
  qed simp
  then have "CHR 0x0A \<notin> set (refers_to c)" "refers_to c \<noteq> []" "is_digit (last (refers_to c))"
    using assms by (auto simp: written_back_def settled_text_def)
  moreover have "code (last (refers_to c)) \<noteq> 13" using \<open>is_digit (last (refers_to c))\<close> by (auto simp: is_digit_def)
  ultimately show ?thesis using k by (simp add: clean_line_def closing_line_def)
qed

lemma set_once_by: "set (once_by f seen xs) \<subseteq> set xs"
  by (induction xs arbitrary: seen) auto

lemma once_by_keys: "f ` set (once_by f seen xs) = f ` set xs - set seen"
  by (induction xs arbitrary: seen) (auto 0 3)

lemma once_by_distinct: "distinct (map f (once_by f seen xs)) \<and> (\<forall>x \<in> set (once_by f seen xs). f x \<notin> set seen)"
proof (induction xs arbitrary: seen)
  case (Cons x xs)
  show ?case using Cons.IH [of seen] Cons.IH [of "f x # seen"] by auto
qed simp

lemma once_by_id: "distinct (map f xs) \<Longrightarrow> \<forall>x \<in> set xs. f x \<notin> set seen \<Longrightarrow> once_by f seen xs = xs"
proof (induction xs arbitrary: seen)
  case (Cons x xs)
  from Cons.prems have "\<forall>y \<in> set xs. f y \<notin> set (f x # seen)" by (auto simp: image_iff)
  with Cons.IH [of "f x # seen"] Cons.prems show ?case by simp
qed simp

lemma references_written: "c \<in> set (references wide lower ms) \<Longrightarrow> written_back c"
  using set_once_by in_line_from_written unfolding references_def in_line_def by fastforce

section \<open>What a report reads back as\<close>

lemma spells_show_issue:
  assumes "is_owner (issue_owner i)" "is_repo_name (issue_name i)" "issue_number i \<noteq> 0" "issue_number i < 2 ^ 64"
  shows "spells_an_issue (show_issue i)"
proof -
  have k: "parse_uint 64 (show_nat (issue_number i)) = Some (issue_number i)"
    using show_nat_facts [of "issue_number i"] assms(4)
    by (auto simp: parse_uint_def Let_def list_all_iff char_classes split: list.splits)
  have "split_once (CHR ''#'') (show_issue i) = Some (issue_owner i @ ''/'' @ issue_name i, show_nat (issue_number i))"
    using parts_free assms(1,2) by (simp add: split_once_Some show_issue_def short_form_def)
  moreover have "split_once (CHR ''/'') (issue_owner i @ ''/'' @ issue_name i) = Some (issue_owner i, issue_name i)"
    using parts_free(1) [OF assms(1)] by simp
  ultimately show ?thesis using k assms(1-3) by (simp add: spells_an_issue_def new_issue_def show_issue_def)
qed

lemma collect_res_map: "(\<And>x. x \<in> set xs \<Longrightarrow> f (g x) = Inr x) \<Longrightarrow> collect_res f (map g xs) = Inr xs"
  by (induction xs) auto

text \<open>The issues a landing has to report: numbers as GitHub gives them.\<close>

definition numbered :: "issue \<Rightarrow> bool" where
  "numbered i \<longleftrightarrow> is_owner (issue_owner i) \<and> is_repo_name (issue_name i) \<and> issue_number i \<noteq> 0 \<and> issue_number i < 2 ^ 64"

lemma new_issue_numbered: "new_issue o' n k = Some i \<Longrightarrow> k < 2 ^ 64 \<Longrightarrow> numbered i"
  by (auto simp: new_issue_def numbered_def split: if_splits)

lemma parse_uint_bound: "parse_uint w s = Some n \<Longrightarrow> n < 2 ^ w"
  by (auto simp: parse_uint_def Let_def split: if_splits)

lemma as_u64_bound: "as_u64 v = Some k \<Longrightarrow> k < 2 ^ 64"
  by (auto simp: as_u64_def split: json.splits if_splits dest: parse_uint_bound)

lemma node_issue_numbered: "node_issue v = Some i \<Longrightarrow> numbered i"
  by (auto simp: node_issue_def bind_eq_Some_conv split: option.splits intro: new_issue_numbered dest: as_u64_bound)

lemma issue_of_numbered: "issue_of c own = Some i \<Longrightarrow> numbered i"
  by (auto simp: issue_of_def bind_eq_Some_conv split: if_splits option.splits intro: new_issue_numbered dest: parse_uint_bound)

section \<open>The lines of a squash\<close>

lemma lines_block:
  "\<forall>l \<in> set ls. clean_line l \<Longrightarrow> ls \<noteq> [] \<Longrightarrow> lines (join_with NL ls @ NL @ b) = ls @ lines b"
proof (induction NL ls rule: join_with.induct)
  case (2 w)
  then show ?case using lines_line [of w b] by simp
next
  case (3 w w' ws)
  then show ?case using lines_line [of w "join_with NL (w' # ws) @ NL @ b"] by simp
qed simp

lemma squash_lines:
  assumes "\<forall>l \<in> set ls. clean_line l" "ls \<noteq> []"
  shows "set ls \<subseteq> set (lines (compose_message (subject @ NL @ NL @ join_with NL ls) ts))"
proof -
  have "lines (subject @ NL @ NL @ b) = map strip_cr (split_on (CHR 0x0A) subject) @ lines (NL @ b)" for b
    by (rule lines_NL)
  moreover have "set (lines b) \<subseteq> set (lines (NL @ b))" for b using lines_NL [of "[]" b] by auto
  ultimately have *: "set (lines b) \<subseteq> set (lines (subject @ NL @ NL @ b))" for b by auto
  show ?thesis
  proof (cases "ts = []")
    case True
    with * [of "join_with NL ls"] lines_join [OF assms(1)] show ?thesis by (simp add: compose_message_def)
  next
    case False
    with * [of "join_with NL ls @ NL @ NL @ join_with NL ts"] lines_block [OF assms, of "NL @ join_with NL ts"]
    show ?thesis by (simp add: compose_message_def)
  qed
qed

lemma references_keys:
  "(\<lambda>c. lower (refers_to c)) ` set (references wide lower ms) =
   (\<lambda>c. lower (refers_to c)) ` (\<Union>m \<in> set ms. \<Union>l \<in> set (lines m). set (in_line wide l))"
  unfolding references_def once_by_keys by (simp add: image_UN)

section \<open>Properties\<close>

text \<open>C39 A squash loses no closing reference: whatever its subject and trailers say, every reference
  its commits carried is read back from the message it is composed as.\<close>

theorem squash_carries_every_reference:
  assumes "c \<in> set (references wide lower commits)"
  shows "lower (refers_to c) \<in>
    set (map (\<lambda>c. lower (refers_to c)) (references wide lower [compose_squash subject (references wide lower commits) ts]))"
proof -
  let ?cs = "references wide lower commits" and ?m = "compose_squash subject (references wide lower commits) ts"
  have "\<forall>l \<in> set (map closing_line ?cs). clean_line l" using references_written written_line by auto
  from squash_lines [OF this, of subject ts] assms have "closing_line c \<in> set (lines ?m)"
    by (cases "?cs") (auto simp: compose_squash_def)
  moreover have "c \<in> set (in_line wide (closing_line c))" using in_line_written references_written [OF assms] by simp
  ultimately show ?thesis using references_keys [of lower wide "[?m]"] by auto
qed

theorem squash_carries_every_reference_witness:
  "''a/b#12'' \<in> set (map (\<lambda>c. to_ascii_lowercase (refers_to c)) (references (\<lambda>_. False) to_ascii_lowercase
     [compose_squash ''Ship it''
        (references (\<lambda>_. False) to_ascii_lowercase [''It (fixes: A/b#12). Also closes a/b#12!'']) [''T: x'']]))"
proof -
  have "\<lparr>keyword = ''Fixes'', refers_to = ''A/b#12''\<rparr> \<in>
      set (references (\<lambda>_. False) to_ascii_lowercase [''It (fixes: A/b#12). Also closes a/b#12!''])"
    by code_simp
  from squash_carries_every_reference [OF this, of "''Ship it''" "[''T: x'']"]
  have "to_ascii_lowercase ''A/b#12'' \<in> set (map (\<lambda>c. to_ascii_lowercase (refers_to c))
      (references (\<lambda>_. False) to_ascii_lowercase [compose_squash ''Ship it''
        (references (\<lambda>_. False) to_ascii_lowercase [''It (fixes: A/b#12). Also closes a/b#12!'']) [''T: x'']]))" by simp
  moreover have "to_ascii_lowercase ''A/b#12'' = ''a/b#12''" by code_simp
  ultimately show ?thesis by (simp only:)
qed

text \<open>A report of what a landing closes reads back as it was written, each issue once: the list of a
  payload is what was spelled into it, whatever else the payload holds.\<close>

theorem report_reads_back:
  assumes "\<forall>i \<in> set is. numbered i"
  shows "reported_closes (report_closes lower payload is) = Ok (once_by lower [] (map show_issue is)) \<and>
    (\<forall>k. k \<noteq> ''closes'' \<longrightarrow> map_of (report_closes lower payload is) k = map_of payload k)"
proof -
  have "spells_an_issue s" if "s \<in> set (once_by lower [] (map show_issue is))" for s
    using that set_once_by [of lower "[]" "map show_issue is"] assms spells_show_issue
    by (auto simp: numbered_def)
  then have "collect_res (\<lambda>i. case as_str i of
              None \<Rightarrow> Err NotText
            | Some s \<Rightarrow> if spells_an_issue s then Ok s else Err (NotAnIssue s))
          (map Str (once_by lower [] (map show_issue is))) = Inr (once_by lower [] (map show_issue is))"
    by (intro collect_res_map) simp
  then show ?thesis by (simp add: reported_closes_def report_closes_def update_conv')
qed

theorem report_reads_back_witness:
  "reported_closes (report_closes to_ascii_lowercase [(''closes'', Null), (''branch'', Str ''b'')]
     [\<lparr>issue_owner = ''a'', issue_name = ''b'', issue_number = 12\<rparr>, \<lparr>issue_owner = ''A'', issue_name = ''b'', issue_number = 12\<rparr>]) =
   Ok [''a/b#12'']"
proof -
  let ?is = "[\<lparr>issue_owner = ''a'', issue_name = ''b'', issue_number = 12\<rparr>, \<lparr>issue_owner = ''A'', issue_name = ''b'', issue_number = 12\<rparr>]"
  have "\<forall>i \<in> set ?is. numbered i"
    by (simp add: numbered_def is_owner_def is_repo_name_def char_classes)
  moreover have "once_by to_ascii_lowercase [] (map show_issue ?is) = [''a/b#12'']" by code_simp
  ultimately show ?thesis using report_reads_back [of ?is to_ascii_lowercase "[(''closes'', Null), (''branch'', Str ''b'')]"]
    by (simp only: simp_thms)
qed

end
