(* ===== verification/Merging.thy ===== *)
theory Merging
  imports Refs
begin

text \<open>
  What the program writes with git in a worktree (\<open>git.rs\<close>): merges, replays, resets and pushes, each
  as the command it runs and the read_in_base of how it ended. A command moves a state that is a parameter of
  the model; what is read of a directory in that state is the \<open>git\<close> and \<open>on_disk\<close> of the theories
  \<open>GitReads\<close> and \<open>Refs\<close>.
\<close>

section \<open>Commands that change a repository\<close>

record 's shell =
  runs_in :: "str \<Rightarrow> str list \<Rightarrow> 's \<Rightarrow> (git_error + ran) \<times> 's"
  seen_in :: "str \<Rightarrow> 's \<Rightarrow> git"
  disk_in :: "str \<Rightarrow> 's \<Rightarrow> on_disk"
  dir_in :: "str \<Rightarrow> 's \<Rightarrow> bool"                                  \<comment> \<open>\<open>is_dir()\<close>\<close>
  remote_url :: "str \<Rightarrow> str \<Rightarrow> 's \<Rightarrow> bool"                       \<comment> \<open>\<open>native_refs::remote_url\<close> knows one\<close>
  fetch_turn :: "str \<Rightarrow> 's \<Rightarrow> (git_error + unit) \<times> 's"       \<comment> \<open>the fetch lock of a checkout\<close>

datatype write_error =
    GitSaid git_error
  | MergeFailed str str
  | ReplayFailed str str str str

definition git_said :: "git_error + 'a \<Rightarrow> write_error + 'a" where
  "git_said r = (case r of Inl e \<Rightarrow> Err (GitSaid e) | Inr a \<Rightarrow> Ok a)"

lemma git_said_simps [simp]: "git_said (Ok a) = Ok a" "git_said (Err e) = Err (GitSaid e)"
  "git_said r = Ok a \<longleftrightarrow> r = Ok a"
  by (simp_all add: git_said_def split: sum.splits)

text \<open>\<open>?\<close> over an operation that moved the state.\<close>

definition proceed :: "('e + 'a) \<times> 's \<Rightarrow> ('a \<Rightarrow> 's \<Rightarrow> ('e + 'b) \<times> 's) \<Rightarrow> ('e + 'b) \<times> 's" where
  "proceed r k = (case r of (Inl e, s) \<Rightarrow> (Err e, s) | (Inr a, s) \<Rightarrow> k a s)"

lemma proceed_simps [simp]:
  "proceed (Ok a, s) k = k a s" "proceed (Err e, s) k = (Err e, s)"
  by (simp_all add: proceed_def)

lemma proceed_Ok:
  "proceed r k = (Ok b, s') \<longleftrightarrow> (\<exists>a s. r = (Ok a, s) \<and> k a s = (Ok b, s'))"
  by (cases r; cases "fst r") auto

definition run_git :: "'s shell \<Rightarrow> str \<Rightarrow> str list \<Rightarrow> 's \<Rightarrow> (write_error + ran) \<times> 's" where
  "run_git sh cwd args s = (case runs_in sh cwd args s of (r, s) \<Rightarrow> (git_said r, s))"

definition checked_in :: "'s shell \<Rightarrow> str \<Rightarrow> str list \<Rightarrow> 's \<Rightarrow> (write_error + ran) \<times> 's" where
  "checked_in sh cwd args s =
     proceed (run_git sh cwd args s) (\<lambda>r s.
       (if ran_ok r then Ok r else Err (GitSaid (CommandFailed args (exit_status r) (diagnostic r))), s))"

definition has_remote :: "'s shell \<Rightarrow> str \<Rightarrow> str \<Rightarrow> 's \<Rightarrow> bool" where
  "has_remote sh cwd remote s \<longleftrightarrow>
     remote_url sh cwd remote s \<or>
     (case runs (seen_in sh cwd s) [''remote'', ''get-url'', remote] of Inl _ \<Rightarrow> False | Inr r \<Rightarrow> ran_ok r)"

definition fetch_args :: "str \<Rightarrow> str list" where
  "fetch_args remote = [''fetch'', remote, ''--prune'']"

definition fetch :: "'s shell \<Rightarrow> str \<Rightarrow> str \<Rightarrow> 's \<Rightarrow> (write_error + unit) \<times> 's" where
  "fetch sh cwd remote s =
     proceed (case fetch_turn sh cwd s of (r, s) \<Rightarrow> (git_said r, s)) (\<lambda>_ s.
       proceed (checked_in sh cwd (fetch_args remote) s) (\<lambda>_ s. (Ok (), s)))"

definition head_sha :: "git \<Rightarrow> git_error + str" where
  "head_sha g = and_then (checked g [''rev-parse'', ''HEAD'']) (\<lambda>r. Ok (trimmed r))"

definition tip_in :: "'s shell \<Rightarrow> str \<Rightarrow> str \<Rightarrow> 's \<Rightarrow> str option" where
  "tip_in sh cwd reference s = tip_at (seen_in sh cwd s) (disk_in sh cwd s) reference"

section \<open>Merges\<close>

record conflict =
  conflict_paths :: "str list"
  hunks :: str

datatype integrated = Settled | Conflicted conflict

definition UNMERGED :: "str list" where "UNMERGED = [''diff'', ''--name-only'', ''-z'', ''--diff-filter=U'']"

definition conflict_in :: "git \<Rightarrow> git_error + conflict option" where
  "conflict_in g =
     and_then (runs g UNMERGED) (\<lambda>unmerged.
       if \<not> ran_ok unmerged then Ok None
       else let paths = filter (\<lambda>p. p \<noteq> []) (split_on NUL (stdout unmerged)) in
         if paths = [] then Ok None
         else Ok (Some \<lparr>conflict_paths = paths,
           hunks = (case runs g [''diff'', ''--diff-filter=U''] of
                      Inl _ \<Rightarrow> [] | Inr r \<Rightarrow> if ran_ok r then stdout r else [])\<rparr>))"

definition rebase_onto :: "'s shell \<Rightarrow> str \<Rightarrow> str \<Rightarrow> str \<Rightarrow> str \<Rightarrow> 's \<Rightarrow> (write_error + integrated) \<times> 's" where
  "rebase_onto sh cwd onto upstream branch s =
     proceed (run_git sh cwd [''rebase'', ''--onto'', onto, upstream, branch] s) (\<lambda>replayed s.
       if ran_ok replayed then (Ok Settled, s)
       else proceed (git_said (conflict_in (seen_in sh cwd s)), s) (\<lambda>found s.
         proceed (run_git sh cwd [''rebase'', ''--abort''] s) (\<lambda>_ s.
           case found of
             Some c \<Rightarrow> (Ok (Conflicted c), s)
           | None \<Rightarrow> (Err (ReplayFailed onto upstream branch (diagnostic replayed)), s))))"

definition merge_into_args :: "str \<Rightarrow> str \<Rightarrow> str list" where
  "merge_into_args reference msg = [''merge'', ''--no-edit'', ''-m'', msg, reference]"

definition merge_leaving_conflict :: "'s shell \<Rightarrow> str \<Rightarrow> str \<Rightarrow> str \<Rightarrow> 's \<Rightarrow> (write_error + integrated) \<times> 's" where
  "merge_leaving_conflict sh cwd reference msg s =
     proceed (run_git sh cwd (merge_into_args reference msg) s) (\<lambda>merged s.
       if ran_ok merged then (Ok Settled, s)
       else proceed (git_said (conflict_in (seen_in sh cwd s)), s) (\<lambda>found s.
         case found of
           None \<Rightarrow> (Err (MergeFailed reference (diagnostic merged)), s)
         | Some c \<Rightarrow> (Ok (Conflicted c), s)))"

definition merge_into_branch :: "'s shell \<Rightarrow> str \<Rightarrow> str \<Rightarrow> str \<Rightarrow> 's \<Rightarrow> (write_error + integrated) \<times> 's" where
  "merge_into_branch sh cwd reference msg s =
     proceed (merge_leaving_conflict sh cwd reference msg s) (\<lambda>out s.
       case out of
         Conflicted _ \<Rightarrow> proceed (run_git sh cwd [''merge'', ''--abort''] s) (\<lambda>_ s. (Ok out, s))
       | Settled \<Rightarrow> (Ok out, s))"

definition merge_commit_args :: "str \<Rightarrow> str \<Rightarrow> str list" where
  "merge_commit_args reference msg = [''merge'', ''--no-ff'', ''--no-edit'', ''-m'', msg, reference]"

definition merge_commit_leaving_conflict :: "'s shell \<Rightarrow> str \<Rightarrow> str \<Rightarrow> str \<Rightarrow> 's \<Rightarrow> (write_error + integrated) \<times> 's" where
  "merge_commit_leaving_conflict sh cwd reference msg s =
     proceed (run_git sh cwd (merge_commit_args reference msg) s) (\<lambda>merged s.
       if ran_ok merged then (Ok Settled, s)
       else proceed (git_said (conflict_in (seen_in sh cwd s)), s) (\<lambda>found s.
         case found of
           None \<Rightarrow> (Err (MergeFailed reference (diagnostic merged)), s)
         | Some c \<Rightarrow> (Ok (Conflicted c), s)))"

record merging =
  being_merged :: str
  unmerged_paths :: "str list"

definition merge_in_progress :: "'s shell \<Rightarrow> str \<Rightarrow> 's \<Rightarrow> git_error + merging option" where
  "merge_in_progress sh worktree s =
     (case tip_in sh worktree ''MERGE_HEAD'' s of
        None \<Rightarrow> Ok None
      | Some c \<Rightarrow> and_then (conflict_in (seen_in sh worktree s)) (\<lambda>found.
          Ok (Some \<lparr>being_merged = c, unmerged_paths = (case found of None \<Rightarrow> [] | Some f \<Rightarrow> conflict_paths f)\<rparr>)))"

definition abort_merge :: "'s shell \<Rightarrow> str \<Rightarrow> 's \<Rightarrow> bool \<times> 's" where
  "abort_merge sh worktree s =
     (if \<not> dir_in sh worktree s \<or> tip_in sh worktree ''MERGE_HEAD'' s = None then (False, s)
      else case runs_in sh worktree [''merge'', ''--abort''] s of (r, s) \<Rightarrow>
        (let aborted = (case r of Inl _ \<Rightarrow> False | Inr r \<Rightarrow> ran_ok r)
         in if \<not> aborted \<or> tip_in sh worktree ''MERGE_HEAD'' s \<noteq> None
            then (True, snd (runs_in sh worktree [''reset'', ''-q'', ''--hard'', ''HEAD''] s))
            else (True, s)))"

section \<open>Checkouts and resets\<close>

definition reset_args :: "str \<Rightarrow> str list" where
  "reset_args reference = [''reset'', ''-q'', ''--hard'', reference]"

definition done_in :: "'s shell \<Rightarrow> str \<Rightarrow> str list \<Rightarrow> 's \<Rightarrow> (write_error + unit) \<times> 's" where
  "done_in sh cwd args s = proceed (checked_in sh cwd args s) (\<lambda>_ s. (Ok (), s))"

definition reset_hard :: "'s shell \<Rightarrow> str \<Rightarrow> str \<Rightarrow> 's \<Rightarrow> (write_error + unit) \<times> 's" where
  "reset_hard sh worktree reference s = done_in sh worktree (reset_args reference) s"

definition checkout_new :: "'s shell \<Rightarrow> str \<Rightarrow> str \<Rightarrow> str \<Rightarrow> 's \<Rightarrow> (write_error + unit) \<times> 's" where
  "checkout_new sh worktree branch base s =
     done_in sh worktree [''checkout'', ''-q'', ''--no-track'', ''-b'', branch, base] s"

definition checkout_existing :: "'s shell \<Rightarrow> str \<Rightarrow> str \<Rightarrow> 's \<Rightarrow> (write_error + unit) \<times> 's" where
  "checkout_existing sh worktree branch s = done_in sh worktree [''checkout'', ''-q'', branch] s"

definition checkout_detached :: "'s shell \<Rightarrow> str \<Rightarrow> 's \<Rightarrow> (write_error + unit) \<times> 's" where
  "checkout_detached sh worktree s = done_in sh worktree [''checkout'', ''-q'', ''--detach''] s"

definition clean_untracked :: "'s shell \<Rightarrow> str \<Rightarrow> 's \<Rightarrow> (write_error + unit) \<times> 's" where
  "clean_untracked sh worktree s = done_in sh worktree [''clean'', ''-q'', ''-f'', ''-d''] s"

section \<open>Pushes that run no hook\<close>

definition preserve_args :: "str \<Rightarrow> str \<Rightarrow> str list" where
  "preserve_args branch remote =
     [''push'', ''--porcelain'', ''--no-verify'', remote, heads_ref branch @ '':'' @ heads_ref branch]"

definition push_preserving :: "'s shell \<Rightarrow> str \<Rightarrow> str \<Rightarrow> str \<Rightarrow> 's \<Rightarrow> (write_error + pushed) \<times> 's" where
  "push_preserving sh cwd branch remote s =
     proceed (run_git sh cwd (preserve_args branch remote) s) (\<lambda>r s. (Ok (read_push r), s))"

definition restore_remote_args :: "str \<Rightarrow> str \<Rightarrow> str \<Rightarrow> str list" where
  "restore_remote_args remote branch commit =
     [''push'', ''--porcelain'', ''--no-verify'', ''--force-with-lease='' @ heads_ref branch @ '':'', remote,
      commit @ '':'' @ heads_ref branch]"

definition restore_remote_branch :: "'s shell \<Rightarrow> str \<Rightarrow> str \<Rightarrow> str \<Rightarrow> str \<Rightarrow> 's \<Rightarrow> (write_error + pushed) \<times> 's" where
  "restore_remote_branch sh cwd remote branch commit s =
     proceed (run_git sh cwd (restore_remote_args remote branch commit) s) (\<lambda>r s. (Ok (read_push r), s))"

end
