(* ===== verification/StackBase.thy ===== *)
theory StackBase
  imports Merging Provenance
begin

text \<open>
  The assembly of a synthetic stack base (\<open>stack_base.rs\<close>): a branch cut from a root that carries a
  merge of several parent branches, put on its origin with no change request. What is read of the
  registry, the session the work is made in and the public boundary are parameters; the merges, their
  trailers, what a failure puts back and the push are the model's.
\<close>

section \<open>Requests\<close>

record stack_request =
  rq_repo :: str
  rq_branch :: str
  rq_root :: str
  rq_parents :: "str list"

definition NAMESPACE :: str where "NAMESPACE = ''stack-base''"
definition ORIGIN :: str where "ORIGIN = ''origin''"

definition is_stack_base :: "str \<Rightarrow> bool" where
  "is_stack_base branch =
     (let segments = split_on (CHR ''/'') branch
      in case position (\<lambda>segment. segment = NAMESPACE) segments of
           None \<Rightarrow> False
         | Some at \<Rightarrow> (let rest = drop (at + 1) segments
                      in 2 \<le> length rest \<and> list_all (\<lambda>segment. segment \<noteq> []) rest))"

datatype base_error =
    TooFewParents nat str
  | NotABranchName str
  | OutsideNamespace str
  | MergedIntoItself str
  | RootAsParent str
  | NamedTwice str
  | NotOnOrigin bool str str
  | ConcludeFirst str str str
  | Declined str str str
  | Writing write_error
  | Elsewhere str                        \<comment> \<open>a refusal of the registry, the session or the boundary\<close>

fun named_twice :: "str list \<Rightarrow> str list \<Rightarrow> str option" where
  "named_twice known [] = None"
| "named_twice known (p # ps) = (if p \<in> set known then Some p else named_twice (known @ [p]) ps)"

definition validate :: "(str \<Rightarrow> bool) \<Rightarrow> stack_request \<Rightarrow> base_error + unit" where
  "validate valid_name rq =
     (if length (rq_parents rq) < 2 then Err (TooFewParents (length (rq_parents rq)) (rq_root rq))
      else case List.find (\<lambda>n. \<not> valid_name n) (rq_branch rq # rq_root rq # rq_parents rq) of
        Some n \<Rightarrow> Err (NotABranchName n)
      | None \<Rightarrow>
          (if \<not> is_stack_base (rq_branch rq) then Err (OutsideNamespace (rq_branch rq))
           else if rq_branch rq = rq_root rq \<or> rq_branch rq \<in> set (rq_parents rq)
           then Err (MergedIntoItself (rq_branch rq))
           else if rq_root rq \<in> set (rq_parents rq) then Err (RootAsParent (rq_root rq))
           else case named_twice [] (rq_parents rq) of
             Some p \<Rightarrow> Err (NamedTwice p)
           | None \<Rightarrow> Ok ()))"

section \<open>Answers\<close>

record open_conflict =
  oc_paths :: "str list"
  base_commit :: str
  branch_tip :: str

datatype base_outcome = BaseCreated | BaseAdvanced | BaseUnchanged | BaseConflicted str open_conflict

definition outcome_wire :: "base_outcome \<Rightarrow> str" where
  "outcome_wire o' = (case o' of BaseCreated \<Rightarrow> ''created'' | BaseAdvanced \<Rightarrow> ''advanced''
     | BaseUnchanged \<Rightarrow> ''unchanged'' | BaseConflicted _ _ \<Rightarrow> ''conflicted'')"

record stack_parent =
  sp_branch :: str
  sp_head :: str

record assembled_base =
  ab_branch :: str
  ab_head :: str
  ab_parents :: "stack_parent list"
  ab_outcome :: base_outcome

text \<open>What \<open>record_assembly\<close> emits on the session's stream, and whether as a success.\<close>

record assembly_record =
  ar_branch :: str
  ar_root :: str
  ar_parents :: "stack_parent list"
  ar_head :: str
  ar_outcome :: str
  ar_success :: bool

definition record_assembly :: "stack_request \<Rightarrow> assembled_base \<Rightarrow> assembly_record" where
  "record_assembly rq a =
     \<lparr>ar_branch = ab_branch a, ar_root = rq_root rq, ar_parents = ab_parents a, ar_head = ab_head a,
      ar_outcome = outcome_wire (ab_outcome a),
      ar_success = (case ab_outcome a of BaseConflicted _ _ \<Rightarrow> False | _ \<Rightarrow> True)\<rparr>"

section \<open>The session and its world\<close>

record base_session =
  bs_token :: str
  bs_worktree :: str
  bs_clone :: str
  bs_execution :: str

record opened_base =
  op_session :: base_session
  op_conflict :: "open_conflict option"
  op_cut :: bool

record outgoing =
  og_repo :: str
  og_base :: str
  og_tip :: str
  og_branch :: str

record 's base_ops =
  base_shell :: "'s shell"
  valid_name :: "str \<Rightarrow> bool"                                                \<comment> \<open>\<open>git::is_valid_branch_name\<close>\<close>
  resolve_key :: "str \<Rightarrow> 's \<Rightarrow> base_error + str"                            \<comment> \<open>\<open>store::load\<close>, \<open>store::resolve\<close>\<close>
  rules_prefix :: "'s \<Rightarrow> base_error + str option"                          \<comment> \<open>\<open>policy::load\<close>\<close>
  execution_checkout :: "str \<Rightarrow> 's \<Rightarrow> base_error + str"
  open_session :: "stack_request \<Rightarrow> 's \<Rightarrow> (base_error + opened_base) \<times> 's"     \<comment> \<open>\<open>workspace::open_with\<close>, \<open>BaseMerge::Leave\<close>\<close>
  close_session :: "str \<Rightarrow> 's \<Rightarrow> (base_error + unit) \<times> 's"
  guard_publication :: "str \<Rightarrow> outgoing \<Rightarrow> 's \<Rightarrow> (base_error + unit) \<times> 's"

definition tracking :: "str \<Rightarrow> str" where
  "tracking name = ''refs/remotes/'' @ ORIGIN @ ''/'' @ name"

definition not_on_origin :: "str \<Rightarrow> str \<Rightarrow> str \<Rightarrow> base_error" where
  "not_on_origin key name root = NotOnOrigin (name = root) name key"

definition writing :: "(write_error + 'a) \<times> 's \<Rightarrow> (base_error + 'a) \<times> 's" where
  "writing r = (case r of (Inl e, s) \<Rightarrow> (Err (Writing e), s) | (Inr a, s) \<Rightarrow> (Ok a, s))"

definition read_in_base :: "git_error + 'a \<Rightarrow> base_error + 'a" where
  "read_in_base r = (case r of Inl e \<Rightarrow> Err (Writing (GitSaid e)) | Inr a \<Rightarrow> Ok a)"

section \<open>One merge\<close>

definition merge_message :: "trailers \<Rightarrow> str \<Rightarrow> str \<Rightarrow> str \<Rightarrow> str" where
  "merge_message t branch name head =
     ''Merge '' @ name @ '' into stack base '' @ branch @ NL @ NL @ stack_base_trailer t name head"

definition merge_one ::
    "'s shell \<Rightarrow> str \<Rightarrow> str \<Rightarrow> trailers \<Rightarrow> str \<Rightarrow> str \<Rightarrow> 's \<Rightarrow> (base_error + open_conflict option) \<times> 's" where
  "merge_one sh worktree branch t name head s =
     proceed (read_in_base (is_ancestor (seen_in sh worktree s) head ''HEAD''), s) (\<lambda>carried s.
       if carried then (Ok None, s)
       else proceed (read_in_base (head_sha (seen_in sh worktree s)), s) (\<lambda>before s.
         proceed (writing (merge_commit_leaving_conflict sh worktree head (merge_message t branch name head) s))
           (\<lambda>out s. case out of
              Settled \<Rightarrow> (Ok None, s)
            | Conflicted c \<Rightarrow>
                (Ok (Some \<lparr>oc_paths = conflict_paths c, base_commit = head, branch_tip = before\<rparr>), s))))"

text \<open>The loop over the root and the parents, which stops at the first conflict.\<close>

fun merge_each ::
    "'s shell \<Rightarrow> str \<Rightarrow> str \<Rightarrow> trailers \<Rightarrow> (str \<times> str) list \<Rightarrow> 's \<Rightarrow> (base_error + open_conflict option) \<times> 's" where
  "merge_each sh worktree branch t [] s = (Ok None, s)"
| "merge_each sh worktree branch t ((name, head) # ms) s =
     (case merge_one sh worktree branch t name head s of
        (Inl e, s) \<Rightarrow> (Err e, s)
      | (Inr (Some c), s) \<Rightarrow> (Ok (Some c), s)
      | (Inr None, s) \<Rightarrow> merge_each sh worktree branch t ms s)"

section \<open>The push\<close>

definition push_base :: "'s base_ops \<Rightarrow> str \<Rightarrow> str \<Rightarrow> stack_request \<Rightarrow> 's \<Rightarrow> (base_error + unit) \<times> 's" where
  "push_base ops key clone rq s =
     proceed (guard_publication ops key
         \<lparr>og_repo = clone, og_base = ORIGIN @ ''/'' @ rq_root rq, og_tip = heads_ref (rq_branch rq),
          og_branch = rq_branch rq\<rparr> s) (\<lambda>_ s.
       proceed (writing (push_preserving (base_shell ops) clone (rq_branch rq) ORIGIN s)) (\<lambda>p s.
         case p of
           Accepted _ \<Rightarrow> (Ok (), s)
         | Refused printed _ \<Rightarrow>
             (let summary = (case refusal p of
                Some why \<Rightarrow> why
              | None \<Rightarrow> trim (if lines printed = [] then [] else last (lines printed)))
              in (Err (Declined key (rq_branch rq) summary), s))))"

section \<open>The assembly\<close>

datatype session_fate = CloseSession | KeepSession

record failed_base =
  f_error :: base_error
  f_session :: session_fate
  f_rewind :: "(str \<times> str) option"

definition fail :: "base_error \<Rightarrow> failed_base" where
  "fail e = \<lparr>f_error = e, f_session = CloseSession, f_rewind = None\<rparr>"

definition undo :: "str \<Rightarrow> str \<Rightarrow> base_error \<Rightarrow> failed_base" where
  "undo worktree start e = \<lparr>f_error = e, f_session = CloseSession, f_rewind = Some (worktree, start)\<rparr>"

definition read_head :: "'s base_ops \<Rightarrow> str \<Rightarrow> str \<Rightarrow> str \<Rightarrow> str \<Rightarrow> 's \<Rightarrow> base_error + str" where
  "read_head ops key execution root name s =
     ok_or (tip_in (base_shell ops) execution (tracking name) s) (not_on_origin key name root)"

definition conflicted ::
    "stack_request \<Rightarrow> str \<Rightarrow> stack_parent list \<Rightarrow> open_conflict \<Rightarrow> assembled_base" where
  "conflicted rq token parents c =
     \<lparr>ab_branch = rq_branch rq, ab_head = branch_tip c, ab_parents = parents,
      ab_outcome = BaseConflicted token c\<rparr>"

text \<open>From the merged branch to the answer: where the branch stands, whether the origin has it there
  already, and the push where it does not. The session is let go whatever its close answers.\<close>

definition put_on_origin ::
    "'s base_ops \<Rightarrow> stack_request \<Rightarrow> str \<Rightarrow> opened_base \<Rightarrow> stack_parent list \<Rightarrow> str \<Rightarrow> str \<Rightarrow> 's \<Rightarrow>
       (failed_base + assembled_base) \<times> assembly_record list \<times> 's" where
  "put_on_origin ops rq key op parents start root s =
     (let w = bs_worktree (op_session op); x = bs_execution (op_session op); c = bs_clone (op_session op);
          g = seen_in (base_shell ops) w s
      in case read_in_base (head_sha g) of
           Inl e \<Rightarrow> (Err (undo w start e), [], s)
         | Inr head \<Rightarrow>
      (let on_origin = tip_in (base_shell ops) x (tracking (rq_branch rq)) s
       in case (if op_cut op then Ok True
                else if on_origin \<noteq> None then Ok False
                else read_in_base (is_ancestor g start root)) of
            Inl e \<Rightarrow> (Err (undo w start e), [], s)
          | Inr absent \<Rightarrow>
       (case (if on_origin = Some head then (Ok BaseUnchanged, s)
              else proceed (push_base ops key c rq s) (\<lambda>_ s.
                (Ok (if absent then BaseCreated else BaseAdvanced), s))) of
          (Inl e, s) \<Rightarrow> (Err (undo w start e), [], s)
        | (Inr out, s) \<Rightarrow>
            (case close_session ops (bs_token (op_session op)) s of (_, s) \<Rightarrow>
              (let a = \<lparr>ab_branch = rq_branch rq, ab_head = head, ab_parents = parents, ab_outcome = out\<rparr>
               in (Ok a, [record_assembly rq a], s))))))"

definition assemble_in ::
    "'s base_ops \<Rightarrow> stack_request \<Rightarrow> str \<Rightarrow> trailers \<Rightarrow> opened_base \<Rightarrow> 's \<Rightarrow>
       (failed_base + assembled_base) \<times> assembly_record list \<times> 's" where
  "assemble_in ops rq key t op s =
     (let w = bs_worktree (op_session op); token = bs_token (op_session op);
          sh = base_shell ops; answer = (\<lambda>a s. (Ok a, [record_assembly rq a], s));
          read = (\<lambda>name. read_head ops key (bs_execution (op_session op)) (rq_root rq) name s)
      in case collect_res (\<lambda>p. and_then (read p) (\<lambda>h. Ok (p, h))) (rq_parents rq) of
           Inl e \<Rightarrow> (Err (fail e), [], s)
         | Inr named \<Rightarrow>
      (let parents = map (\<lambda>(b, h). \<lparr>sp_branch = b, sp_head = h\<rparr>) named
       in case op_conflict op of
            Some c \<Rightarrow> answer (conflicted rq token parents c) s
          | None \<Rightarrow>
       (case merge_in_progress sh w s of
          Inr (Some _) \<Rightarrow>
            (Err \<lparr>f_error = ConcludeFirst token (rq_branch rq) w, f_session = KeepSession, f_rewind = None\<rparr>, [], s)
        | Inl e \<Rightarrow> (Err (fail (Writing (GitSaid e))), [], s)
        | Inr None \<Rightarrow>
       (case head_sha (seen_in sh w s) of
          Inl e \<Rightarrow> (Err (fail (Writing (GitSaid e))), [], s)
        | Inr start \<Rightarrow>
       (case read (rq_root rq) of
          Inl e \<Rightarrow> (Err (fail e), [], s)
        | Inr root \<Rightarrow>
       (case merge_each sh w (rq_branch rq) t ((rq_root rq, root) # named) s of
          (Inl e, s) \<Rightarrow> (Err (undo w start e), [], s)
        | (Inr (Some c), s) \<Rightarrow> answer (conflicted rq token parents c) s
        | (Inr None, s) \<Rightarrow> put_on_origin ops rq key op parents start root s))))))"

text \<open>After a failure the branch is put back where the call found it, before the session is let go. What
  cannot be put back or closed is said on standard error only.\<close>

definition hand_back :: "'s base_ops \<Rightarrow> str \<Rightarrow> failed_base \<Rightarrow> 's \<Rightarrow> 's" where
  "hand_back ops token f s =
     (let sh = base_shell ops;
          s = (case f_rewind f of
                 None \<Rightarrow> s
               | Some (w, start) \<Rightarrow> snd (reset_hard sh w start (snd (abort_merge sh w s))))
      in if f_session f = CloseSession then snd (close_session ops token s) else s)"

definition assemble ::
    "'s base_ops \<Rightarrow> stack_request \<Rightarrow> 's \<Rightarrow> (base_error + assembled_base) \<times> assembly_record list \<times> 's" where
  "assemble ops rq s =
     (case validate (valid_name ops) rq of Inl e \<Rightarrow> (Err e, [], s) | Inr _ \<Rightarrow>
     (case resolve_key ops (rq_repo rq) s of Inl e \<Rightarrow> (Err e, [], s) | Inr key \<Rightarrow>
     (case rules_prefix ops s of Inl e \<Rightarrow> (Err e, [], s) | Inr configured \<Rightarrow>
     (case execution_checkout ops key s of Inl e \<Rightarrow> (Err e, [], s) | Inr x \<Rightarrow>
     (case (if has_remote (base_shell ops) x ORIGIN s then writing (fetch (base_shell ops) x ORIGIN s)
            else (Ok (), s)) of
        (Inl e, s) \<Rightarrow> (Err e, [], s)
      | (Inr _, s) \<Rightarrow>
     (case List.find (\<lambda>n. tip_in (base_shell ops) x (tracking n) s = None) (rq_root rq # rq_parents rq) of
        Some n \<Rightarrow> (Err (not_on_origin key n (rq_root rq)), [], s)
      | None \<Rightarrow>
     (case open_session ops rq s of
        (Inl e, s) \<Rightarrow> (Err e, [], s)
      | (Inr op, s) \<Rightarrow>
     (case assemble_in ops rq key (from_rules configured) op s of
        (Inr a, recorded, s) \<Rightarrow> (Ok a, recorded, s)
      | (Inl f, recorded, s) \<Rightarrow>
          (Err (f_error f), recorded, hand_back ops (bs_token (op_session op)) f s)))))))))"

end
