(* ===== verification/Stacking.thy ===== *)
theory Stacking
  imports StackBase
begin

text \<open>
  What assembling a stack base guarantees: a request is refused unless it is well formed, an answer is a
  branch the origin has which carries the root and every parent the request named, the origin's branch
  only ever moves forward and no other branch of it moves, and what was not pushed left the origin as it
  was. What git documents of the commands used is stated once, as laws over an observation of the
  repository.
\<close>

section \<open>What a request has to be\<close>

lemma named_twice_None: "named_twice known ps = None \<longleftrightarrow> distinct ps \<and> set known \<inter> set ps = {}"
  by (induction known ps rule: named_twice.induct) auto

lemma named_twice_Some: "named_twice known ps = Some p \<Longrightarrow> p \<in> set ps"
  by (induction known ps rule: named_twice.induct) (auto split: if_splits)

lemma base_validate_Ok:
  "validate ok rq = Ok () \<longleftrightarrow>
     2 \<le> length (rq_parents rq) \<and> list_all ok (rq_branch rq # rq_root rq # rq_parents rq) \<and>
     is_stack_base (rq_branch rq) \<and> distinct (rq_branch rq # rq_root rq # rq_parents rq)"
proof (cases "List.find (\<lambda>n. \<not> ok n) (rq_branch rq # rq_root rq # rq_parents rq)")
  case None
  then have "list_all ok (rq_branch rq # rq_root rq # rq_parents rq)"
    unfolding find_None by (auto simp: list_all_iff)
  moreover have "named_twice [] (rq_parents rq) = None \<longleftrightarrow> distinct (rq_parents rq)"
    by (simp add: named_twice_None)
  ultimately show ?thesis using None by (auto simp: validate_def split: option.splits)
next
  case (Some n)
  then have "\<not> list_all ok (rq_branch rq # rq_root rq # rq_parents rq)"
    by (auto dest!: find_SomeD simp: list_all_iff simp del: List.find.simps)
  with Some show ?thesis by (auto simp: validate_def)
qed

lemma position_found: "x \<notin> set xs \<Longrightarrow> position (\<lambda>y. y = x) (xs @ x # ys) = Some (length xs)"
  by (induction xs) auto

lemma is_stack_base_iff:
  "is_stack_base b \<longleftrightarrow>
     (\<exists>prefix plan node. split_on (CHR ''/'') b = prefix @ NAMESPACE # plan # node \<and> node \<noteq> [] \<and>
        NAMESPACE \<notin> set prefix \<and> (\<forall>n \<in> set (plan # node). n \<noteq> []))" (is "_ \<longleftrightarrow> ?named")
proof
  let ?s = "split_on (CHR ''/'') b"
  assume "is_stack_base b"
  then obtain at where at: "position (\<lambda>x. x = NAMESPACE) ?s = Some at" "2 \<le> length (drop (at + 1) ?s)"
    "list_all (\<lambda>x. x \<noteq> []) (drop (at + 1) ?s)"
    by (auto simp: is_stack_base_def Let_def split: option.splits)
  from at(1) have p: "at < length ?s" "?s ! at = NAMESPACE" "\<forall>j < at. ?s ! j \<noteq> NAMESPACE"
    unfolding position_Some by auto
  obtain plan node where rest: "drop (at + 1) ?s = plan # node" using at(2) by (cases "drop (at + 1) ?s") auto
  have "?s = take at ?s @ NAMESPACE # drop (at + 1) ?s" using id_take_nth_drop [OF p(1)] p(2) by simp
  moreover have "NAMESPACE \<notin> set (take at ?s)" using p(1,3) by (auto simp: in_set_conv_nth)
  moreover have "node \<noteq> []" using at(2) unfolding rest by auto
  moreover have "\<forall>n \<in> set (plan # node). n \<noteq> []" using at(3) unfolding rest list_all_iff .
  ultimately show ?named unfolding rest by (intro exI conjI) assumption+
next
  assume ?named
  then obtain prefix plan node where s: "split_on (CHR ''/'') b = prefix @ NAMESPACE # plan # node" "node \<noteq> []"
    "NAMESPACE \<notin> set prefix" "\<forall>n \<in> set (plan # node). n \<noteq> []" by blast
  have "position (\<lambda>x. x = NAMESPACE) (prefix @ NAMESPACE # plan # node) = Some (length prefix)"
    using s(3) by (rule position_found)
  moreover have "2 \<le> length (plan # node)" using s(2) by (cases node) auto
  ultimately show "is_stack_base b" using s(1,4) by (simp add: is_stack_base_def list_all_iff)
qed

section \<open>The record a merge keeps\<close>

text \<open>A name a trailer can carry: no byte of it a control or a blank, the first one a character by itself.\<close>

definition trailer_name :: "str \<Rightarrow> bool" where
  "trailer_name n \<longleftrightarrow> n \<noteq> [] \<and> plain_char (hd n) \<and> list_all (\<lambda>c. 32 < code c) n"

lemma trailer_name_chars: "trailer_name n \<Longrightarrow> c \<in> set n \<Longrightarrow> 32 < code c"
  by (simp add: trailer_name_def list_all_iff)

lemma trailer_name_NL: "trailer_name n \<Longrightarrow> CHR 0x0A \<notin> set n"
  using trailer_name_chars [of n "CHR 0x0A"] by (auto simp: code_def)

lemma head_line:
  assumes "trailer_name name" "trailer_name branch"
  shows "clean_line (''Merge '' @ name @ '' into stack base '' @ branch)"
proof -
  have "branch \<noteq> []" using assms(2) by (simp add: trailer_name_def)
  then have "32 < code (last branch)" using trailer_name_chars [OF assms(2)] by simp
  then show ?thesis using \<open>branch \<noteq> []\<close> trailer_name_NL [OF assms(1)] trailer_name_NL [OF assms(2)]
    by (simp add: clean_line_def)
qed

lemma drop_ws_suffix: "\<exists>k. drop_ws f s = drop k s"
proof (induction f s rule: drop_ws.induct)
  case (1 f s)
  show ?case
  proof (cases "f s = 0 \<or> s = []")
    case True
    then have "drop_ws f s = drop 0 s" by (subst drop_ws.simps) auto
    then show ?thesis by blast
  next
    case False
    with 1 obtain k where "drop_ws f (drop (f s) s) = drop k (drop (f s) s)" by auto
    with False have "drop_ws f s = drop (k + f s) s" by (subst drop_ws.simps) auto
    then show ?thesis by blast
  qed
qed

lemma trim_of_plain_head:
  assumes "s \<noteq> []" "plain_char (hd s)"
  shows "\<exists>k. trim s = take k s"
proof -
  have "trim_start s = s" using trim_start_plain [OF assms(2), of "tl s"] assms(1) by simp
  moreover obtain k where "drop_ws ws_back (rev s) = drop k (rev s)" using drop_ws_suffix by blast
  ultimately have "trim s = rev (drop k (rev s))" by (simp add: trim_def trim_end_def)
  then show ?thesis by (auto simp: rev_drop)
qed

text \<open>The three lines of a merge's message: only the last is a trailer.\<close>

lemma subject_line_no_trailer:
  assumes "validate_prefix p = Ok ()"
  shows "strip_prefix (stack_base (trailers_of p)) (trim (''Merge '' @ rest)) = None"
proof -
  have "plain_char (CHR ''M'')" by (simp add: plain_char_def ws1_def code_def)
  then obtain k where k: "trim (''Merge '' @ rest) = take k (''Merge '' @ rest)"
    using trim_of_plain_head [of "''Merge '' @ rest"] by auto
  have "\<not> starts_with (stack_base (trailers_of p)) (take k (''Merge '' @ rest))"
  proof
    assume "starts_with (stack_base (trailers_of p)) (take k (''Merge '' @ rest))"
    then have a: "take (length (stack_base (trailers_of p))) (take k (''Merge '' @ rest)) = stack_base (trailers_of p)"
      by (simp add: starts_with_def)
    have l: "6 \<le> length (stack_base (trailers_of p))" by (simp add: trailers_of_def)
    then have "stack_base (trailers_of p) ! 5 = (''Merge '' @ rest) ! 5"
      using arg_cong [OF a, of "\<lambda>x. x ! 5"] arg_cong [OF a, of length] by (simp add: min_def split: if_splits)
    then have "CHR '' '' \<in> set (stack_base (trailers_of p))"
      using l nth_mem [of 5 "stack_base (trailers_of p)"] by simp
    then have "CHR '' '' \<in> set p" by (auto simp: trailers_of_def)
    then show False using assms by (auto simp: valid_prefix char_classes)
  qed
  then show ?thesis using k by (simp add: strip_prefix_def)
qed

lemma trailer_line:
  assumes "validate_prefix p = Ok ()" "trailer_name name" "object_id head = Some head"
  defines "l \<equiv> stack_base_trailer (trailers_of p) name head"
  shows "CHR 0x0A \<notin> set l" "l \<noteq> []" "trim l = l"
    "strip_prefix (stack_base (trailers_of p)) l = Some ('' '' @ name @ ''@'' @ head)"
    "trim ('' '' @ name @ ''@'' @ head) = name @ ''@'' @ head" "rsplit_once (CHR ''@'') (name @ ''@'' @ head) = Some (name, head)"
proof -
  have h: "hex_id head" using object_id_hex assms(3) by blast
  then have s: "head \<noteq> []" "is_hexdigit (last head)" using hex_chars by (auto simp: hex_id_def)
  have p: "p \<noteq> []" "is_alnum (hd p)" using assms(1) by (auto simp: valid_prefix)
  have n: "name \<noteq> []" "plain_char (hd name)" using assms(2) by (simp_all add: trailer_name_def)
  show ne: "l \<noteq> []" using p by (simp add: l_def stack_base_trailer_def trailers_of_def)
  show "CHR 0x0A \<notin> set l"
    using prefix_not [OF assms(1)] hex_not hex_chars [OF h] trailer_name_NL [OF assms(2)]
    by (auto simp: l_def stack_base_trailer_def trailers_of_def)
  have "hd l = hd p" "last l = last head"
    using p s by (simp_all add: l_def stack_base_trailer_def trailers_of_def)
  then show "trim l = l" using ne s p by (intro trim_plain) (simp_all add: alnum_plain hex_plain)
  show "strip_prefix (stack_base (trailers_of p)) l = Some ('' '' @ name @ ''@'' @ head)"
    by (simp add: l_def stack_base_trailer_def)
  show "trim ('' '' @ name @ ''@'' @ head) = name @ ''@'' @ head"
    using trim_plain(2) [of "name @ ''@'' @ head"] n s hex_plain by simp
  have "CHR ''@'' \<notin> set head" using hex_not hex_chars [OF h] by blast
  then have "split_once (CHR ''@'') (rev head @ CHR ''@'' # rev name) = Some (rev head, rev name)"
    by (intro split_once_append) simp
  then show "rsplit_once (CHR ''@'') (name @ ''@'' @ head) = Some (name, head)" by (simp add: rsplit_once_def)
qed

lemma merge_message_read:
  assumes "validate_prefix p = Ok ()" "trailer_name name" "trailer_name branch" "object_id head = Some head"
    "accepts name"
  shows "stack_merges accepts (merge_message (trailers_of p) branch name head) (trailers_of p) =
    [\<lparr>merged_branch = name, merged_head = head\<rparr>]"
proof -
  let ?t = "trailers_of p"
  let ?first = "''Merge '' @ name @ '' into stack base '' @ branch"
  note t = trailer_line [OF assms(1,2,4)]
  have "lines ((?first) @ NL @ (NL @ stack_base_trailer ?t name head)) =
      ?first # lines (NL @ stack_base_trailer ?t name head)"
    by (rule lines_line [OF head_line [OF assms(2,3)]])
  moreover have "lines ([] @ NL @ stack_base_trailer ?t name head) = [[]] @ [stack_base_trailer ?t name head]"
    using t(1,2) by (subst lines_NL) (simp add: strip_cr_def lines_single)
  ultimately have "lines (merge_message ?t branch name head) = [?first, [], stack_base_trailer ?t name head]"
    by (simp add: merge_message_def)
  moreover have "trim [] = []" by code_simp
  moreover have "strip_prefix (stack_base ?t) [] = None" by (simp add: strip_prefix_def starts_with_def trailers_of_def)
  ultimately show ?thesis
    using subject_line_no_trailer [OF assms(1), of "name @ '' into stack base '' @ branch"] t(3-6) assms(4,5)
    by (simp add: stack_merges_def)
qed

text \<open>The merges noted one after another: each parent once, in the order it was first merged, at the head
  it was last merged at.\<close>

definition noted :: "str \<Rightarrow> (str \<times> str) list \<Rightarrow> stack_merge list" where
  "noted root ms = foldl (note_merge root) [] (map (\<lambda>(n, h). \<lparr>merged_branch = n, merged_head = h\<rparr>) ms)"

lemma noted_snoc:
  "noted root (ms @ [(n, h)]) = note_merge root (noted root ms) \<lparr>merged_branch = n, merged_head = h\<rparr>"
  by (simp add: noted_def)

lemma names_known:
  assumes "map merged_branch ks = rev (remdups (rev (filter (\<lambda>n. n \<noteq> root) ns)))"
  shows "list_ex (\<lambda>k. merged_branch k = n) ks \<longleftrightarrow> n \<in> set ns \<and> n \<noteq> root"
proof -
  have "list_ex (\<lambda>k. merged_branch k = n) ks \<longleftrightarrow> n \<in> set (map merged_branch ks)"
    by (auto simp: list_ex_iff)
  then show ?thesis unfolding assms by simp
qed

lemma noted_names:
  "map merged_branch (noted root ms) = rev (remdups (rev (filter (\<lambda>n. n \<noteq> root) (map fst ms))))"
proof (induction ms rule: rev_induct)
  case Nil
  then show ?case by (simp add: noted_def)
next
  case (snoc m ms)
  obtain n h where m: "m = (n, h)" by force
  note known = names_known [OF snoc.IH, of n]
  have same: "map merged_branch (map (\<lambda>k. if merged_branch k = n then k\<lparr>merged_head := x\<rparr> else k) ks) =
      map merged_branch ks" for x and ks :: "stack_merge list" by simp
  consider "n = root" | "n \<noteq> root" "n \<in> set (map fst ms)" | "n \<noteq> root" "n \<notin> set (map fst ms)" by blast
  then show ?case
  proof cases
    case 1
    then show ?thesis using snoc.IH by (simp add: m noted_snoc note_merge_def)
  next
    case 2
    then show ?thesis using snoc.IH known same by (simp add: m noted_snoc note_merge_def del: map_map)
  next
    case 3
    then show ?thesis using snoc.IH known by (simp add: m noted_snoc note_merge_def)
  qed
qed

lemma noted_heads:
  "k \<in> set (noted root ms) \<Longrightarrow> map_of (rev ms) (merged_branch k) = Some (merged_head k)"
proof (induction ms arbitrary: k rule: rev_induct)
  case Nil
  then show ?case by (simp add: noted_def)
next
  case (snoc m ms)
  obtain n h where m: "m = (n, h)" by force
  show ?case
  proof (cases "merged_branch k = n")
    case True
    note known = names_known [OF noted_names, of n root ms]
    have "n \<noteq> root"
      using snoc.prems True names_known [OF noted_names, of n root "ms @ [m]"] by (auto simp: list_ex_iff)
    have "merged_head k = h"
    proof (cases "list_ex (\<lambda>k. merged_branch k = n) (noted root ms)")
      case known: True
      have "k \<in> (\<lambda>k. if merged_branch k = n then k\<lparr>merged_head := h\<rparr> else k) ` set (noted root ms)"
        using snoc.prems known \<open>n \<noteq> root\<close> by (simp add: m noted_snoc note_merge_def)
      then show ?thesis using True by (elim imageE) (simp split: if_splits)
    next
      case new: False
      then have "k \<notin> set (noted root ms)" using True by (auto simp: list_ex_iff)
      then show ?thesis using snoc.prems new \<open>n \<noteq> root\<close> by (simp add: m noted_snoc note_merge_def)
    qed
    then show ?thesis using True by (simp add: m)
  next
    case False
    then have "k \<in> set (noted root ms)"
      using snoc.prems by (auto simp: m noted_snoc note_merge_def split: if_splits)
    then show ?thesis using snoc.IH False by (simp add: m)
  qed
qed

lemma stack_parents_noted:
  assumes "validate_prefix p = Ok ()" "trailer_name branch" "\<forall>(n, h) \<in> set ms. trailer_name n \<and> accepts n \<and> object_id h = Some h"
    "length ids = length ms" "set ids \<subseteq> set line"
  shows "stack_parents accepts
      (map (\<lambda>(i, n, h). \<lparr>sha = i, message = merge_message (trailers_of p) branch n h\<rparr>) (zip ids ms)) line root (trailers_of p) =
    noted root ms"
proof -
  have "concat (map (\<lambda>c. stack_merges accepts (message c) (trailers_of p)) (filter (\<lambda>c. sha c \<in> set line)
      (map (\<lambda>(i, n, h). \<lparr>sha = i, message = merge_message (trailers_of p) branch n h\<rparr>) (zip ids ms)))) =
    map (\<lambda>(n, h). \<lparr>merged_branch = n, merged_head = h\<rparr>) ms"
    using assms(4,3,5)
  proof (induction ids ms rule: list_induct2)
    case (Cons i ids m ms)
    obtain n h where m: "m = (n, h)" by force
    with Cons merge_message_read [OF assms(1), of n branch h accepts] assms(2) show ?case by simp
  qed simp
  then show ?thesis by (simp add: stack_parents_def noted_def)
qed

section \<open>What git documents of the commands used\<close>

text \<open>An observation of the repositories: which texts are commit ids and which commit reaches which, the
  commit a worktree stands at, and the branches of the origin. A merge that settles makes a commit that reaches what was merged and what
  was there, and moves neither the origin nor a remote-tracking ref; one that does not leaves the branch
  where it was. A push without force is taken only where the branch moves forward, and one that is not
  taken moves nothing.\<close>

record 's sight =
  commit_id :: "str \<Rightarrow> bool"
  reaches :: "str \<Rightarrow> str \<Rightarrow> bool"
  standing :: "str \<Rightarrow> 's \<Rightarrow> str"
  origin_at :: "'s \<Rightarrow> str \<Rightarrow> str option"

definition undisturbed :: "'s base_ops \<Rightarrow> 's sight \<Rightarrow> 's \<Rightarrow> 's \<Rightarrow> bool" where
  "undisturbed ops v s s' \<longleftrightarrow> origin_at v s' = origin_at v s \<and>
     (\<forall>x n. tip_in (base_shell ops) x (tracking n) s' = tip_in (base_shell ops) x (tracking n) s)"

definition read_law :: "'s base_ops \<Rightarrow> 's sight \<Rightarrow> str \<Rightarrow> bool" where
  "read_law ops v w \<longleftrightarrow> (\<forall>s.
     (\<forall>a b. commit_id v a \<longrightarrow> is_ancestor (seen_in (base_shell ops) w s) a ''HEAD'' = Ok b \<longrightarrow>
        b = reaches v a (standing v w s)) \<and>
     (\<forall>h. head_sha (seen_in (base_shell ops) w s) = Ok h \<longrightarrow> h = standing v w s))"

definition merge_law :: "'s base_ops \<Rightarrow> 's sight \<Rightarrow> str \<Rightarrow> bool" where
  "merge_law ops v w \<longleftrightarrow> (\<forall>reference msg s r s'.
     commit_id v reference \<longrightarrow> runs_in (base_shell ops) w (merge_commit_args reference msg) s = (r, s') \<longrightarrow>
       undisturbed ops v s s' \<and>
       (if \<exists>out. r = Ok out \<and> ran_ok out
        then reaches v reference (standing v w s') \<and> reaches v (standing v w s) (standing v w s')
        else standing v w s' = standing v w s))"

definition push_law :: "'s base_ops \<Rightarrow> 's sight \<Rightarrow> str \<Rightarrow> str \<Rightarrow> str \<Rightarrow> bool" where
  "push_law ops v w c branch \<longleftrightarrow> (\<forall>s r s'.
     runs_in (base_shell ops) c (preserve_args branch ORIGIN) s = (r, s') \<longrightarrow>
       (if \<exists>out. r = Ok out \<and> ran_ok out
        then origin_at v s' = (origin_at v s)(branch \<mapsto> standing v w s) \<and>
             (\<forall>h. origin_at v s branch = Some h \<longrightarrow> reaches v h (standing v w s))
        else origin_at v s' = origin_at v s))"

definition reset_law :: "'s base_ops \<Rightarrow> 's sight \<Rightarrow> str \<Rightarrow> bool" where
  "reset_law ops v w \<longleftrightarrow>
     (\<forall>s. origin_at v (snd (runs_in (base_shell ops) w [''merge'', ''--abort''] s)) = origin_at v s) \<and>
     (\<forall>c s r s'. runs_in (base_shell ops) w (reset_args c) s = (r, s') \<longrightarrow>
        origin_at v s' = origin_at v s \<and> (\<forall>out. commit_id v c \<and> r = Ok out \<and> ran_ok out \<longrightarrow> standing v w s' = c))"

definition session_law :: "'s base_ops \<Rightarrow> 's sight \<Rightarrow> str \<Rightarrow> base_session \<Rightarrow> bool" where
  "session_law ops v branch se \<longleftrightarrow>
     read_law ops v (bs_worktree se) \<and> merge_law ops v (bs_worktree se) \<and> reset_law ops v (bs_worktree se) \<and>
     push_law ops v (bs_worktree se) (bs_clone se) branch"

definition around_law :: "'s base_ops \<Rightarrow> 's sight \<Rightarrow> bool" where
  "around_law ops v \<longleftrightarrow>
     (\<forall>a. reaches v a a) \<and> (\<forall>a b c. reaches v a b \<longrightarrow> reaches v b c \<longrightarrow> reaches v a c) \<and>
     (\<forall>x n s h. tip_in (base_shell ops) x (tracking n) s = Some h \<longrightarrow> commit_id v h) \<and>
     (\<forall>k o' s r s'. guard_publication ops k o' s = (r, s') \<longrightarrow>
        undisturbed ops v s s' \<and> (\<forall>w. standing v w s' = standing v w s)) \<and>
     (\<forall>t s. origin_at v (snd (close_session ops t s)) = origin_at v s)"

definition open_law :: "'s base_ops \<Rightarrow> 's sight \<Rightarrow> stack_request \<Rightarrow> bool" where
  "open_law ops v rq \<longleftrightarrow> (\<forall>s r s'. open_session ops rq s = (r, s') \<longrightarrow> undisturbed ops v s s' \<and>
     (\<forall>op. r = Ok op \<longrightarrow> session_law ops v (rq_branch rq) (op_session op) \<and>
        (\<forall>key x s0. execution_checkout ops key s0 = Ok x \<longrightarrow> bs_execution (op_session op) = x)))"

definition fetch_law :: "'s base_ops \<Rightarrow> 's sight \<Rightarrow> bool" where
  "fetch_law ops v \<longleftrightarrow>
     (\<forall>x s. origin_at v (snd (fetch_turn (base_shell ops) x s)) = origin_at v s) \<and>
     (\<forall>x s r s'. runs_in (base_shell ops) x (fetch_args ORIGIN) s = (r, s') \<longrightarrow> origin_at v s' = origin_at v s \<and>
        (\<forall>out. r = Ok out \<and> ran_ok out \<longrightarrow>
           (\<forall>n. tip_in (base_shell ops) x (tracking n) s' = origin_at v s' n)))"

definition stack_laws :: "'s base_ops \<Rightarrow> 's sight \<Rightarrow> stack_request \<Rightarrow> bool" where
  "stack_laws ops v rq \<longleftrightarrow> around_law ops v \<and> open_law ops v rq \<and> fetch_law ops v"

lemma undisturbed_refl [simp]: "undisturbed ops v s s" by (simp add: undisturbed_def)

lemma undisturbed_trans: "undisturbed ops v s t \<Longrightarrow> undisturbed ops v t u \<Longrightarrow> undisturbed ops v s u"
  by (simp add: undisturbed_def)

lemma undisturbed_origin: "undisturbed ops v s s' \<Longrightarrow> origin_at v s' = origin_at v s"
  by (simp add: undisturbed_def)

lemma undisturbed_tip:
  "undisturbed ops v s s' \<Longrightarrow> tip_in (base_shell ops) x (tracking n) s' = tip_in (base_shell ops) x (tracking n) s"
  by (simp add: undisturbed_def)

lemma around_reaches:
  assumes "around_law ops v"
  shows "reaches v a a" "reaches v a b \<Longrightarrow> reaches v b c \<Longrightarrow> reaches v a c"
  using assms by (auto simp: around_law_def)

section \<open>Merging\<close>

lemma read_in_base_simps [simp]: "read_in_base (Ok a) = Ok a" "read_in_base (Err e) = Err (Writing (GitSaid e))"
  "read_in_base r = Ok b \<longleftrightarrow> r = Ok b"
  by (simp_all add: read_in_base_def split: sum.splits)

lemma writing_simps [simp]: "writing (Ok a, s) = (Ok a, s)" "writing (Err e, s) = (Err (Writing e), s)"
  by (simp_all add: writing_def)

lemma conflict_in_paths: "conflict_in g = Ok (Some c) \<Longrightarrow> conflict_paths c \<noteq> []"
  by (auto simp: conflict_in_def Let_def and_then_Ok split: if_splits)

lemma merge_commit_steps:
  assumes "runs_in sh w (merge_commit_args reference msg) s = (r, s1)"
    "merge_commit_leaving_conflict sh w reference msg s = (out, s')"
  shows "s' = s1" "out = Ok Settled \<longleftrightarrow> (\<exists>x. r = Ok x \<and> ran_ok x)" "out = Ok (Conflicted c) \<Longrightarrow> conflict_paths c \<noteq> []"
proof -
  show "s' = s1"
    using assms by (cases r) (auto simp: merge_commit_leaving_conflict_def run_git_def git_said_def proceed_def
        split: if_splits sum.splits option.splits)
  show "out = Ok Settled \<longleftrightarrow> (\<exists>x. r = Ok x \<and> ran_ok x)"
    using assms by (cases r) (auto simp: merge_commit_leaving_conflict_def run_git_def git_said_def proceed_def
        split: if_splits sum.splits option.splits)
  show "conflict_paths c \<noteq> []" if "out = Ok (Conflicted c)"
    using assms that conflict_in_paths by (cases r) (auto simp: merge_commit_leaving_conflict_def run_git_def git_said_def proceed_def
        split: if_splits sum.splits option.splits)
qed

lemma two_reads:
  "(\<exists>e. a = Err e) \<or> a = Ok True \<or> (a = Ok False \<and> (\<exists>e. b = Err e)) \<or> (a = Ok False \<and> (\<exists>x. b = Ok x))"
  by (cases a; cases b) auto

text \<open>One merge: nothing outside the worktree moves, the branch only gains, and it carries what was named
  unless the merge stopped.\<close>

definition merged_step :: "'s base_ops \<Rightarrow> 's sight \<Rightarrow> str \<Rightarrow> 's \<Rightarrow> 's \<Rightarrow> bool" where
  "merged_step ops v w s s' \<longleftrightarrow> undisturbed ops v s s' \<and> reaches v (standing v w s) (standing v w s')"

lemma merge_one_law:
  assumes "around_law ops v" "read_law ops v w" "merge_law ops v w" "commit_id v head"
    "merge_one (base_shell ops) w branch t name head s = (r, s')"
  shows "merged_step ops v w s s'" "r = Ok None \<Longrightarrow> reaches v head (standing v w s')"
    "r = Ok (Some c) \<Longrightarrow> oc_paths c \<noteq> [] \<and> branch_tip c = standing v w s' \<and> base_commit c = head"
proof -
  let ?g = "seen_in (base_shell ops) w s"
  have stays: "merged_step ops v w s s" using around_reaches(1) [OF assms(1)] by (simp add: merged_step_def)
  consider e where "is_ancestor ?g head ''HEAD'' = Err e" | "is_ancestor ?g head ''HEAD'' = Ok True"
    | e where "is_ancestor ?g head ''HEAD'' = Ok False" "head_sha ?g = Err e"
    | before where "is_ancestor ?g head ''HEAD'' = Ok False" "head_sha ?g = Ok before"
    using two_reads [of "is_ancestor ?g head ''HEAD''" "head_sha ?g"] by blast
  then have "merged_step ops v w s s' \<and> (r = Ok None \<longrightarrow> reaches v head (standing v w s')) \<and>
    (r = Ok (Some c) \<longrightarrow> oc_paths c \<noteq> [] \<and> branch_tip c = standing v w s' \<and> base_commit c = head)"
  proof cases
    case 1
    then show ?thesis using assms(5) stays by (auto simp: merge_one_def)
  next
    case 2
    then show ?thesis using assms(2,4,5) stays by (auto simp: merge_one_def read_law_def)
  next
    case 3
    then show ?thesis using assms(5) stays by (auto simp: merge_one_def)
  next
    case (4 before)
    obtain x s1 where x: "runs_in (base_shell ops) w (merge_commit_args head (merge_message t branch name head)) s = (x, s1)"
      by force
    obtain out s2 where out: "merge_commit_leaving_conflict (base_shell ops) w head (merge_message t branch name head) s = (out, s2)"
      by force
    note steps = merge_commit_steps [OF x out]
    have before: "before = standing v w s" using assms(2) 4(2) by (simp add: read_law_def)
    have law: "undisturbed ops v s s1" "if \<exists>y. x = Ok y \<and> ran_ok y
        then reaches v head (standing v w s1) \<and> reaches v (standing v w s) (standing v w s1)
        else standing v w s1 = standing v w s"
      using assms(3,4) x unfolding merge_law_def by blast+
    then have step: "merged_step ops v w s s1"
      using around_reaches(1) [OF assms(1)] by (auto simp: merged_step_def split: if_splits)
    have r: "(r, s') = proceed (writing (out, s1)) (\<lambda>out s. case out of Settled \<Rightarrow> (Ok None, s)
        | Conflicted c \<Rightarrow> (Ok (Some \<lparr>oc_paths = conflict_paths c, base_commit = head, branch_tip = before\<rparr>), s))"
      using assms(5) 4 out steps(1) by (simp add: merge_one_def)
    consider e where "out = Err e" | "out = Ok Settled" | c' where "out = Ok (Conflicted c')"
      by (metis integrated.exhaust old.sum.exhaust)
    then show ?thesis
    proof cases
      case 1
      with r step show ?thesis by simp
    next
      case 2
      with r step law steps(2) show ?thesis by (simp split: if_splits)
    next
      case (3 c')
      with r step law steps(2) steps(3) [of c'] before show ?thesis by (auto split: if_splits)
    qed
  qed
  then show "merged_step ops v w s s'" "r = Ok None \<Longrightarrow> reaches v head (standing v w s')"
    "r = Ok (Some c) \<Longrightarrow> oc_paths c \<noteq> [] \<and> branch_tip c = standing v w s' \<and> base_commit c = head"
    by blast+
qed

lemma merged_step_trans:
  assumes "around_law ops v" "merged_step ops v w s t" "merged_step ops v w t u"
  shows "merged_step ops v w s u"
  using assms(2,3) undisturbed_trans [of ops v s t u]
    around_reaches(2) [OF assms(1), of "standing v w s" "standing v w t" "standing v w u"]
  by (simp add: merged_step_def)

lemma merge_each_law:
  assumes "around_law ops v" "read_law ops v w" "merge_law ops v w"
    "merge_each (base_shell ops) w branch t ms s = (r, s')" "\<forall>(n, h) \<in> set ms. commit_id v h"
  shows "merged_step ops v w s s' \<and> (r = Ok None \<longrightarrow> (\<forall>(n, h) \<in> set ms. reaches v h (standing v w s'))) \<and>
    (\<forall>c. r = Ok (Some c) \<longrightarrow> oc_paths c \<noteq> [] \<and> branch_tip c = standing v w s' \<and> base_commit c \<in> snd ` set ms)"
  using assms(4,5)
proof (induction ms arbitrary: s)
  case Nil
  then show ?case using around_reaches(1) [OF assms(1)] by (auto simp: merged_step_def)
next
  case (Cons m ms)
  obtain n h where m: "m = (n, h)" by force
  obtain r1 s1 where one: "merge_one (base_shell ops) w branch t n h s = (r1, s1)" by force
  have id: "commit_id v h" "\<forall>(n, h) \<in> set ms. commit_id v h" using Cons.prems(2) m by auto
  note law = merge_one_law [OF assms(1-3) id(1) one]
  consider e where "r1 = Err e" | c where "r1 = Ok (Some c)" | "r1 = Ok None"
    by (metis old.sum.exhaust option.exhaust)
  then show ?case
  proof cases
    case 1
    with Cons.prems m one law show ?thesis by auto
  next
    case (2 c)
    with Cons.prems m one law(1,2) law(3) [of c] show ?thesis by auto
  next
    case 3
    with Cons.prems m one have rest: "merge_each (base_shell ops) w branch t ms s1 = (r, s')" by simp
    note IH = Cons.IH [OF rest id(2)]
    have "merged_step ops v w s s'" using merged_step_trans [OF assms(1) law(1)] IH by blast
    moreover have "reaches v h (standing v w s')"
      using around_reaches(2) [OF assms(1) law(2) [OF 3]] IH by (simp add: merged_step_def)
    ultimately show ?thesis using IH m by auto
  qed
qed

section \<open>The push\<close>

lemma push_base_law:
  assumes "around_law ops v" "push_law ops v w c (rq_branch rq)" "push_base ops key c rq s = (r, s')"
  shows "if r = Ok () then origin_at v s' = (origin_at v s)(rq_branch rq \<mapsto> standing v w s) \<and>
           (\<forall>h. origin_at v s (rq_branch rq) = Some h \<longrightarrow> reaches v h (standing v w s))
         else origin_at v s' = origin_at v s"
proof -
  let ?o = "\<lparr>og_repo = c, og_base = ORIGIN @ ''/'' @ rq_root rq, og_tip = heads_ref (rq_branch rq), og_branch = rq_branch rq\<rparr>"
  obtain g s1 where g: "guard_publication ops key ?o s = (g, s1)" by force
  then have same: "origin_at v s1 = origin_at v s" "standing v w s1 = standing v w s"
    using assms(1) by (auto simp: around_law_def undisturbed_def)
  obtain x s2 where x: "runs_in (base_shell ops) c (preserve_args (rq_branch rq) ORIGIN) s1 = (x, s2)" by force
  note law = assms(2) [unfolded push_law_def, rule_format, OF x]
  show ?thesis
  proof (cases g)
    case (Inl e)
    then show ?thesis using assms(3) g same by (auto simp: push_base_def)
  next
    case (Inr u)
    then show ?thesis
      using assms(3) g x law same
      by (cases x) (auto simp: push_base_def push_preserving_def run_git_def git_said_def read_push_def Let_def split: if_splits)
  qed
qed

definition answered_on_origin :: "'s base_ops \<Rightarrow> 's sight \<Rightarrow> stack_request \<Rightarrow> str \<Rightarrow> base_outcome \<Rightarrow> str \<Rightarrow> 's \<Rightarrow> 's \<Rightarrow> bool" where
  "answered_on_origin ops v rq x out head s s' \<longleftrightarrow>
     out = BaseUnchanged \<and> tip_in (base_shell ops) x (tracking (rq_branch rq)) s = Some head \<and> origin_at v s' = origin_at v s \<or>
     out \<in> {BaseCreated, BaseAdvanced} \<and> origin_at v s' = (origin_at v s)(rq_branch rq \<mapsto> head) \<and>
       (\<forall>h. origin_at v s (rq_branch rq) = Some h \<longrightarrow> reaches v h head)"

lemma put_on_origin_law:
  assumes "around_law ops v" "session_law ops v (rq_branch rq) (op_session op)"
    "put_on_origin ops rq key op parents start root s = (r, recorded, s')"
  shows "case r of
      Inr a \<Rightarrow> ab_branch a = rq_branch rq \<and> ab_parents a = parents \<and> ab_head a = standing v (bs_worktree (op_session op)) s \<and>
        recorded = [record_assembly rq a] \<and>
        answered_on_origin ops v rq (bs_execution (op_session op)) (ab_outcome a) (ab_head a) s s'
    | Inl f \<Rightarrow> origin_at v s' = origin_at v s \<and> recorded = [] \<and> f_rewind f = Some (bs_worktree (op_session op), start)"
proof -
  let ?w = "bs_worktree (op_session op)" and ?x = "bs_execution (op_session op)" and ?c = "bs_clone (op_session op)"
  let ?g = "seen_in (base_shell ops) ?w s"
  let ?at = "tip_in (base_shell ops) ?x (tracking (rq_branch rq)) s"
  let ?absent = "if op_cut op then Ok True else if ?at \<noteq> None then Ok False else read_in_base (is_ancestor ?g start root)"
  show ?thesis
  proof (cases "head_sha ?g")
    case (Inl e)
    then show ?thesis using assms(3) by (auto simp: put_on_origin_def undo_def Let_def)
  next
    case (Inr head)
    have head: "head = standing v ?w s" using assms(2) Inr by (simp add: session_law_def read_law_def)
    show ?thesis
    proof (cases ?absent)
      case (Inl e)
      then show ?thesis using assms(3) \<open>head_sha ?g = Inr head\<close>
        unfolding put_on_origin_def Let_def by (auto simp: undo_def)
    next
      case absent: (Inr absent)
      define step where "step = (if ?at = Some head then (Ok BaseUnchanged, s)
        else proceed (push_base ops key ?c rq s) (\<lambda>_ s. (Ok (if absent then BaseCreated else BaseAdvanced), s)))"
      obtain out s1 where step: "step = (out, s1)" by force
      have eq: "(r, recorded, s') = (case step of (Inl e, s) \<Rightarrow> (Err (undo ?w start e), [], s)
        | (Inr out, s) \<Rightarrow> (case close_session ops (bs_token (op_session op)) s of (_, s) \<Rightarrow>
            (let a = \<lparr>ab_branch = rq_branch rq, ab_head = head, ab_parents = parents, ab_outcome = out\<rparr>
             in (Ok a, [record_assembly rq a], s))))"
        using assms(3) Inr absent unfolding put_on_origin_def Let_def step_def by (simp del: not_None_eq not_Some_eq)
      obtain p s2 where p: "push_base ops key ?c rq s = (p, s2)" by force
      have push: "push_law ops v ?w ?c (rq_branch rq)" using assms(2) by (simp add: session_law_def)
      note pushed = push_base_law [OF assms(1) push p]
      have closes: "origin_at v (snd (close_session ops t u)) = origin_at v u" for t u
        using assms(1) by (simp add: around_law_def)
      show ?thesis
      proof (cases out)
        case (Inl e)
        then have "?at \<noteq> Some head" "p = Err e" "s1 = s2" using step p
          by (cases p; auto simp: step_def split: if_splits)+
        then show ?thesis using eq step Inl pushed by (simp add: undo_def)
      next
        case (Inr o')
        obtain u s3 where u: "close_session ops (bs_token (op_session op)) s1 = (u, s3)" by force
        have "answered_on_origin ops v rq ?x o' head s s1"
          using step Inr p pushed head unfolding answered_on_origin_def step_def
          by (cases p) (auto split: if_splits)
        moreover have "origin_at v s3 = origin_at v s1" using closes [of "bs_token (op_session op)" s1] u by simp
        ultimately show ?thesis using eq step Inr u head by (simp add: answered_on_origin_def Let_def)
      qed
    qed
  qed
qed

lemma read_head_Ok: "read_head ops key x root n s = Ok h \<longleftrightarrow> tip_in (base_shell ops) x (tracking n) s = Some h"
  by (simp add: read_head_def ok_or_Ok)

lemma heads_read:
  assumes "collect_res (\<lambda>p. and_then (read_head ops key x root p s) (\<lambda>h. Ok (p, h))) ps = Ok named"
  shows "map fst named = ps \<and> (\<forall>(n, h) \<in> set named. tip_in (base_shell ops) x (tracking n) s = Some h)"
  using assms
proof (induction ps arbitrary: named)
  case Nil
  then show ?case by simp
next
  case (Cons p ps)
  show ?case
  proof (cases "read_head ops key x root p s")
    case (Inl e)
    with Cons.prems show ?thesis by simp
  next
    case (Inr h)
    show ?thesis
    proof (cases "collect_res (\<lambda>p. and_then (read_head ops key x root p s) (\<lambda>h. Ok (p, h))) ps")
      case (Inl e)
      with Cons.prems Inr show ?thesis by simp
    next
      case rest: (Inr rest)
      then have "named = (p, h) # rest" using Cons.prems Inr by simp
      with Cons.IH [OF rest] Inr show ?thesis by (simp add: read_head_Ok)
    qed
  qed
qed

definition stopped_at :: "'s sight \<Rightarrow> assembled_base \<Rightarrow> 's \<Rightarrow> 's \<Rightarrow> bool" where
  "stopped_at v a s s' \<longleftrightarrow>
     (\<exists>token c. ab_outcome a = BaseConflicted token c \<and> ab_head a = branch_tip c) \<and> origin_at v s' = origin_at v s"

definition put_there :: "'s base_ops \<Rightarrow> 's sight \<Rightarrow> stack_request \<Rightarrow> str \<Rightarrow> assembled_base \<Rightarrow> 's \<Rightarrow> 's \<Rightarrow> bool" where
  "put_there ops v rq x a s s' \<longleftrightarrow>
     (\<exists>root. tip_in (base_shell ops) x (tracking (rq_root rq)) s = Some root \<and>
        (\<forall>h \<in> set (root # map sp_head (ab_parents a)). reaches v h (ab_head a))) \<and>
     answered_on_origin ops v rq x (ab_outcome a) (ab_head a) s s'"

lemma put_there_after:
  assumes "undisturbed ops v s s1" "answered_on_origin ops v rq x out head s1 s'"
  shows "answered_on_origin ops v rq x out head s s'"
  using assms by (simp add: answered_on_origin_def undisturbed_def)

text \<open>What an assembly in an open session keeps: the parents in the request's order at the heads read, one
  record of an answer and none of a failure, and the branch's start where it is to be put back.\<close>

definition assembly_kept ::
    "'s base_ops \<Rightarrow> 's sight \<Rightarrow> stack_request \<Rightarrow> opened_base \<Rightarrow> 's \<Rightarrow>
       (failed_base + assembled_base) \<times> assembly_record list \<times> 's \<Rightarrow> bool" where
  "assembly_kept ops v rq op s out = (case out of (r, recorded, s') \<Rightarrow>
    (case r of
      Inr a \<Rightarrow> ab_branch a = rq_branch rq \<and> map sp_branch (ab_parents a) = rq_parents rq \<and>
        (\<forall>p \<in> set (ab_parents a).
           tip_in (base_shell ops) (bs_execution (op_session op)) (tracking (sp_branch p)) s = Some (sp_head p)) \<and>
        recorded = [record_assembly rq a] \<and>
        (stopped_at v a s s' \<or> put_there ops v rq (bs_execution (op_session op)) a s s')
    | Inl f \<Rightarrow> origin_at v s' = origin_at v s \<and> recorded = [] \<and>
        (\<forall>w start. f_rewind f = Some (w, start) \<longrightarrow>
           w = bs_worktree (op_session op) \<and> start = standing v w s)))"

lemma kept_stopped:
  assumes "map sp_branch parents = rq_parents rq" "origin_at v s' = origin_at v s"
    "\<forall>p \<in> set parents. tip_in (base_shell ops) (bs_execution (op_session op)) (tracking (sp_branch p)) s = Some (sp_head p)"
  shows "assembly_kept ops v rq op s (Ok (conflicted rq token parents c), [record_assembly rq (conflicted rq token parents c)], s')"
  using assms by (simp add: assembly_kept_def conflicted_def stopped_at_def)

lemma kept_failed:
  assumes "origin_at v s' = origin_at v s"
    "\<forall>w start. f_rewind f = Some (w, start) \<longrightarrow> w = bs_worktree (op_session op) \<and> start = standing v w s"
  shows "assembly_kept ops v rq op s (Err f, [], s')"
  using assms by (simp add: assembly_kept_def)

lemma merges_kept:
  assumes "around_law ops v" "session_law ops v (rq_branch rq) (op_session op)"
    "tip_in (base_shell ops) (bs_execution (op_session op)) (tracking (rq_root rq)) s = Some root"
    "start = standing v (bs_worktree (op_session op)) s"
    "map sp_branch parents = rq_parents rq" "sp_head ` set parents = snd ` set named"
    "\<forall>p \<in> set parents. tip_in (base_shell ops) (bs_execution (op_session op)) (tracking (sp_branch p)) s = Some (sp_head p)"
  shows "assembly_kept ops v rq op s
    (case merge_each (base_shell ops) (bs_worktree (op_session op)) (rq_branch rq) t ((rq_root rq, root) # named) s of
       (Inl e, s) \<Rightarrow> (Err (undo (bs_worktree (op_session op)) start e), [], s)
     | (Inr (Some c), s) \<Rightarrow> (Ok (conflicted rq token parents c), [record_assembly rq (conflicted rq token parents c)], s)
     | (Inr None, s) \<Rightarrow> put_on_origin ops rq key op parents start root s)"
proof -
  let ?w = "bs_worktree (op_session op)"
  obtain m s1 where m: "merge_each (base_shell ops) ?w (rq_branch rq) t ((rq_root rq, root) # named) s = (m, s1)" by force
  have laws: "read_law ops v ?w" "merge_law ops v ?w" using assms(2) by (simp_all add: session_law_def)
  have ids: "commit_id v h" if "tip_in (base_shell ops) x (tracking n) s = Some h" for x n h
    using assms(1) that unfolding around_law_def by blast
  have "\<forall>h \<in> sp_head ` set parents. commit_id v h" using ids assms(7) by blast
  then have "\<forall>(n, h) \<in> set ((rq_root rq, root) # named). commit_id v h"
    using ids [OF assms(3)] unfolding assms(6) by force
  note each = merge_each_law [OF assms(1) laws m this]
  have same: "undisturbed ops v s s1" using each by (simp add: merged_step_def)
  consider e where "m = Err e" | c where "m = Ok (Some c)" | "m = Ok None"
    by (metis old.sum.exhaust option.exhaust)
  then show ?thesis
  proof cases
    case (1 e)
    with m assms(4) same kept_failed [of v s1 s "undo ?w start e" op ops rq] show ?thesis
      by (simp add: undo_def undisturbed_origin)
  next
    case (2 c)
    with m same kept_stopped [OF assms(5) _ assms(7), of v s1] show ?thesis by (simp add: undisturbed_origin)
  next
    case 3
    obtain r recorded s' where put: "put_on_origin ops rq key op parents start root s1 = (r, recorded, s')"
      by (metis prod_cases3)
    note law = put_on_origin_law [OF assms(1,2) put]
    have "\<forall>h \<in> set (root # map sp_head parents). reaches v h (standing v ?w s1)"
      using each 3 assms(6) by auto
    with law assms put_there_after [OF same] same have "assembly_kept ops v rq op s (r, recorded, s')"
      by (cases r) (auto simp: assembly_kept_def put_there_def undisturbed_origin)
    with m 3 put show ?thesis by simp
  qed
qed

lemma assemble_in_law:
  assumes "around_law ops v" "session_law ops v (rq_branch rq) (op_session op)"
  shows "assembly_kept ops v rq op s (assemble_in ops rq key t op s)"
proof -
  let ?w = "bs_worktree (op_session op)" and ?x = "bs_execution (op_session op)"
  let ?sh = "base_shell ops"
  let ?named = "collect_res (\<lambda>p. and_then (read_head ops key ?x (rq_root rq) p s) (\<lambda>h. Ok (p, h))) (rq_parents rq)"
  note step = assemble_in_def [of ops rq key t op s, unfolded Let_def]
  have none: "assembly_kept ops v rq op s (Err f, [], s)" if "f_rewind f = None" for f
    using that by (simp add: kept_failed)
  show ?thesis
  proof (cases ?named)
    case (Inl e)
    with none [of "fail e"] show ?thesis unfolding step by (simp add: fail_def)
  next
    case named: (Inr named)
    note heads = heads_read [OF named]
    define parents where "parents = map (\<lambda>(b, h). \<lparr>sp_branch = b, sp_head = h\<rparr>) named"
    have parents: "map sp_branch parents = rq_parents rq" "sp_head ` set parents = snd ` set named"
      "\<forall>p \<in> set parents. tip_in ?sh ?x (tracking (sp_branch p)) s = Some (sp_head p)"
      using heads by (simp_all add: parents_def split_def comp_def image_image)
    note step = step [unfolded named sum.case, folded parents_def]
    consider c where "op_conflict op = Some c" | e where "op_conflict op = None" "merge_in_progress ?sh ?w s = Err e"
      | m where "op_conflict op = None" "merge_in_progress ?sh ?w s = Ok (Some m)"
      | e where "op_conflict op = None" "merge_in_progress ?sh ?w s = Ok None" "head_sha (seen_in ?sh ?w s) = Err e"
      | start where "op_conflict op = None" "merge_in_progress ?sh ?w s = Ok None" "head_sha (seen_in ?sh ?w s) = Ok start"
      by (metis old.sum.exhaust option.exhaust)
    then show ?thesis
    proof cases
      case (1 c)
      with kept_stopped [OF parents(1) refl parents(3)] show ?thesis unfolding step by simp
    next
      case (2 e)
      with none [of "fail (Writing (GitSaid e))"] show ?thesis unfolding step by (simp add: fail_def)
    next
      case (3 m)
      with none show ?thesis unfolding step by simp
    next
      case (4 e)
      with none [of "fail (Writing (GitSaid e))"] show ?thesis unfolding step by (simp add: fail_def)
    next
      case (5 start)
      then have start: "start = standing v ?w s" using assms(2) by (simp add: session_law_def read_law_def)
      note step = step [unfolded 5 option.case sum.case]
      show ?thesis
      proof (cases "read_head ops key ?x (rq_root rq) (rq_root rq) s")
        case (Inl e)
        with none [of "fail e"] show ?thesis unfolding step by (simp add: fail_def)
      next
        case (Inr root)
        then have "tip_in ?sh ?x (tracking (rq_root rq)) s = Some root" by (simp add: read_head_Ok)
        from merges_kept [OF assms this start parents] show ?thesis unfolding step Inr sum.case .
      qed
    qed
  qed
qed

section \<open>The whole of an assembly\<close>

lemma abort_merge_law: "reset_law ops v w \<Longrightarrow> origin_at v (snd (abort_merge (base_shell ops) w s)) = origin_at v s"
proof -
  assume law: "reset_law ops v w"
  obtain r s1 where a: "runs_in (base_shell ops) w [''merge'', ''--abort''] s = (r, s1)" by force
  obtain r2 s2 where b: "runs_in (base_shell ops) w (reset_args ''HEAD'') s1 = (r2, s2)" by force
  have "origin_at v s1 = origin_at v s" "origin_at v s2 = origin_at v s1"
    using law a b unfolding reset_law_def by (metis snd_conv)+
  then show ?thesis using a b by (auto simp: abort_merge_def reset_args_def Let_def split: sum.splits)
qed

lemma reset_hard_law:
  assumes "reset_law ops v w" "reset_hard (base_shell ops) w c s = (r, s')"
  shows "origin_at v s' = origin_at v s" "r = Ok () \<Longrightarrow> commit_id v c \<Longrightarrow> standing v w s' = c"
proof -
  obtain x s1 where x: "runs_in (base_shell ops) w (reset_args c) s = (x, s1)" by force
  have law: "origin_at v s1 = origin_at v s" "\<forall>out. commit_id v c \<and> x = Ok out \<and> ran_ok out \<longrightarrow> standing v w s1 = c"
    using assms(1) x unfolding reset_law_def by blast+
  have s1: "s' = s1" "r = Ok () \<longleftrightarrow> (\<exists>out. x = Ok out \<and> ran_ok out)"
    using assms(2) x
    by (cases x; auto simp: reset_hard_def done_in_def checked_in_def run_git_def proceed_def split: if_splits)+
  show "origin_at v s' = origin_at v s" "r = Ok () \<Longrightarrow> commit_id v c \<Longrightarrow> standing v w s' = c" using law s1 by auto
qed

lemma hand_back_law:
  assumes "around_law ops v" "reset_law ops v w" "\<forall>w' start. f_rewind f = Some (w', start) \<longrightarrow> w' = w"
  shows "origin_at v (hand_back ops token f s) = origin_at v s"
proof -
  have closes: "origin_at v (snd (close_session ops t u)) = origin_at v u" for t u
    using assms(1) by (simp add: around_law_def)
  have resets: "origin_at v (snd (reset_hard (base_shell ops) w c u)) = origin_at v u" for c u
    using reset_hard_law(1) [OF assms(2)] by (metis surjective_pairing)
  show ?thesis using assms(3) closes resets abort_merge_law [OF assms(2)]
    by (cases "f_rewind f") (auto simp: hand_back_def Let_def)
qed

lemma fetch_synced:
  assumes "fetch_law ops v" "writing (fetch (base_shell ops) x ORIGIN s) = (r, s')"
  shows "origin_at v s' = origin_at v s" "r = Ok () \<Longrightarrow> \<forall>n. tip_in (base_shell ops) x (tracking n) s' = origin_at v s' n"
proof -
  obtain q s1 where q: "fetch_turn (base_shell ops) x s = (q, s1)" by force
  have turn: "origin_at v s1 = origin_at v s"
    using assms(1) q unfolding fetch_law_def by (metis snd_conv)
  obtain g s2 where g: "runs_in (base_shell ops) x (fetch_args ORIGIN) s1 = (g, s2)" by force
  have law: "origin_at v s2 = origin_at v s1"
    "\<forall>out. g = Ok out \<and> ran_ok out \<longrightarrow> (\<forall>n. tip_in (base_shell ops) x (tracking n) s2 = origin_at v s2 n)"
    using assms(1) g unfolding fetch_law_def by blast+
  show "origin_at v s' = origin_at v s" "r = Ok () \<Longrightarrow> \<forall>n. tip_in (base_shell ops) x (tracking n) s' = origin_at v s' n"
    using assms(2) q g turn law
    by (cases q; cases g; auto simp: fetch_def checked_in_def run_git_def proceed_def writing_def split: if_splits)+
qed

lemma fetched_or_not:
  assumes "fetch_law ops v"
    "(if has_remote (base_shell ops) x ORIGIN s then writing (fetch (base_shell ops) x ORIGIN s) else (Ok (), s)) = (q, s0)"
  shows "origin_at v s0 = origin_at v s \<and> (q = Ok () \<longrightarrow> has_remote (base_shell ops) x ORIGIN s \<longrightarrow>
    (\<forall>n. tip_in (base_shell ops) x (tracking n) s0 = origin_at v s n))"
proof (cases "has_remote (base_shell ops) x ORIGIN s")
  case True
  with assms(2) have "writing (fetch (base_shell ops) x ORIGIN s) = (q, s0)" by simp
  from fetch_synced [OF assms(1) this] show ?thesis by auto
next
  case False
  with assms(2) show ?thesis by auto
qed

lemma assemble_opened:
  assumes "stack_laws ops v rq" "assemble ops rq s = (r, recorded, s')"
  shows "(\<exists>e. r = Err e) \<and> recorded = [] \<and> origin_at v s' = origin_at v s \<or>
    (\<exists>key t op s1. validate (valid_name ops) rq = Ok () \<and> origin_at v s1 = origin_at v s \<and>
       session_law ops v (rq_branch rq) (op_session op) \<and>
       ((\<forall>x. has_remote (base_shell ops) x ORIGIN s) \<longrightarrow>
          (\<forall>n. tip_in (base_shell ops) (bs_execution (op_session op)) (tracking n) s1 = origin_at v s n)) \<and>
       (r, recorded, s') = (case assemble_in ops rq key t op s1 of
          (Inr a, recorded, s) \<Rightarrow> (Ok a, recorded, s)
        | (Inl f, recorded, s) \<Rightarrow> (Err (f_error f), recorded, hand_back ops (bs_token (op_session op)) f s)))"
    (is "?refused \<or> ?opened")
proof (cases "validate (valid_name ops) rq")
  case (Inl e)
  then show ?thesis using assms(2) by (auto simp: assemble_def)
next
  case v: (Inr u)
  show ?thesis
  proof (cases "resolve_key ops (rq_repo rq) s")
    case (Inl e)
    then show ?thesis using assms(2) v by (auto simp: assemble_def)
  next
    case k: (Inr key)
    show ?thesis
    proof (cases "rules_prefix ops s")
      case (Inl e)
      then show ?thesis using assms(2) v k by (auto simp: assemble_def)
    next
      case p: (Inr configured)
      show ?thesis
      proof (cases "execution_checkout ops key s")
        case (Inl e)
        then show ?thesis using assms(2) v k p by (auto simp: assemble_def)
      next
        case x: (Inr x)
        define fetching where "fetching = (if has_remote (base_shell ops) x ORIGIN s
          then writing (fetch (base_shell ops) x ORIGIN s) else (Ok (), s))"
        obtain q s0 where q: "fetching = (q, s0)" by force
        have fetch: "fetch_law ops v" using assms(1) by (simp add: stack_laws_def)
        have s0: "origin_at v s0 = origin_at v s" "q = Ok () \<Longrightarrow> has_remote (base_shell ops) x ORIGIN s \<Longrightarrow>
            \<forall>n. tip_in (base_shell ops) x (tracking n) s0 = origin_at v s n"
          using fetched_or_not [OF fetch q [unfolded fetching_def]] by simp_all
        note eq = assms(2) [unfolded assemble_def v k p x sum.case, folded fetching_def, unfolded q prod.case]
        show ?thesis
        proof (cases q)
          case (Inl e)
          then show ?thesis using eq s0 by auto
        next
          case (Inr u')
          note eq = eq [unfolded Inr sum.case]
          show ?thesis
          proof (cases "List.find (\<lambda>n. tip_in (base_shell ops) x (tracking n) s0 = None) (rq_root rq # rq_parents rq)")
            case (Some n)
            then show ?thesis using eq s0 by (auto simp del: List.find.simps)
          next
            case None
            note eq = eq [unfolded None option.case]
            obtain o' s1 where o': "open_session ops rq s0 = (o', s1)" by force
            have opened: "undisturbed ops v s0 s1" "\<forall>op. o' = Ok op \<longrightarrow> session_law ops v (rq_branch rq) (op_session op) \<and>
                bs_execution (op_session op) = x"
              using assms(1) o' x unfolding stack_laws_def open_law_def by blast+
            show ?thesis
            proof (cases o')
              case (Inl e)
              then show ?thesis using eq o' s0 opened by (auto simp: undisturbed_origin)
            next
              case (Inr op)
              have "?opened"
                using v s0 opened Inr \<open>q = Inr u'\<close> eq o'
                by (intro exI [of _ key] exI [of _ "from_rules configured"] exI [of _ op] exI [of _ s1])
                   (simp add: undisturbed_def)
              then show ?thesis ..
            qed
          qed
        qed
      qed
    qed
  qed
qed

lemma assemble_answers:
  assumes "stack_laws ops v rq" "assemble ops rq s = (r, recorded, s')"
  shows "(\<exists>e. r = Err e) \<and> recorded = [] \<and> origin_at v s' = origin_at v s \<or>
    (\<exists>a op s1. r = Ok a \<and> recorded = [record_assembly rq a] \<and> validate (valid_name ops) rq = Ok () \<and>
       origin_at v s1 = origin_at v s \<and> assembly_kept ops v rq op s1 (Ok a, recorded, s') \<and>
       ((\<forall>x. has_remote (base_shell ops) x ORIGIN s) \<longrightarrow>
          (\<forall>n. tip_in (base_shell ops) (bs_execution (op_session op)) (tracking n) s1 = origin_at v s n)))"
proof -
  have around: "around_law ops v" using assms(1) by (simp add: stack_laws_def)
  from assemble_opened [OF assms] show ?thesis
  proof (elim disjE exE conjE)
    fix key t op s1
    assume v: "validate (valid_name ops) rq = Ok ()" "origin_at v s1 = origin_at v s"
      and law: "session_law ops v (rq_branch rq) (op_session op)"
      and synced: "(\<forall>x. has_remote (base_shell ops) x ORIGIN s) \<longrightarrow>
          (\<forall>n. tip_in (base_shell ops) (bs_execution (op_session op)) (tracking n) s1 = origin_at v s n)"
      and eq: "(r, recorded, s') = (case assemble_in ops rq key t op s1 of
          (Inr a, recorded, s) \<Rightarrow> (Ok a, recorded, s)
        | (Inl f, recorded, s) \<Rightarrow> (Err (f_error f), recorded, hand_back ops (bs_token (op_session op)) f s))"
    obtain r' recorded' s2 where i: "assemble_in ops rq key t op s1 = (r', recorded', s2)" by (metis prod_cases3)
    note kept = assemble_in_law [OF around law, of s1 key t, unfolded i]
    show ?thesis
    proof (cases r')
      case (Inl f)
      have reset: "reset_law ops v (bs_worktree (op_session op))" using law by (simp add: session_law_def)
      have "origin_at v (hand_back ops (bs_token (op_session op)) f s2) = origin_at v s2"
        using kept Inl by (intro hand_back_law [OF around reset]) (auto simp: assembly_kept_def)
      then show ?thesis using kept Inl eq i v(2) by (simp add: assembly_kept_def)
    next
      case (Inr a)
      then have "r = Ok a" "recorded = recorded'" "s' = s2" using eq i by simp_all
      with kept Inr v synced show ?thesis by (intro disjI2 exI [of _ a] exI [of _ op] exI [of _ s1]) (simp add: assembly_kept_def)
    qed
  qed blast
qed



section \<open>A repository the laws hold of\<close>

text \<open>A commit is written as the commits it was merged from, and reaches what it names; the origin is a
  list of branches, and the remote-tracking refs are the list last fetched.\<close>

record small =
  at_commit :: str
  on_remote :: "(str \<times> str) list"
  fetched :: "(str \<times> str) list"

definition written_in :: "str \<Rightarrow> str \<Rightarrow> bool" where
  "written_in a b \<longleftrightarrow> list_all (\<lambda>x. x \<in> set (split_on (CHR ''+'') b)) (split_on (CHR ''+'') a)"

definition small_branch :: str where "small_branch = ''stack-base/p/n''"

definition quiet :: "int \<Rightarrow> ran" where
  "quiet n = \<lparr>exit_status = n, stdout = [], stderr = [], read_failures = []\<rparr>"

definition small_run :: "str list \<Rightarrow> small \<Rightarrow> (git_error + ran) \<times> small" where
  "small_run args s =
     (if hd args = ''merge'' then
        (Ok (quiet 0), if length args = 2 then s else s\<lparr>at_commit := at_commit s @ ''+'' @ last args\<rparr>)
      else if hd args = ''reset'' then (Ok (quiet 0), s\<lparr>at_commit := last args\<rparr>)
      else if hd args = ''fetch'' then (Ok (quiet 0), s\<lparr>fetched := on_remote s\<rparr>)
      else if hd args = ''push'' then
        (if case map_of (on_remote s) small_branch of None \<Rightarrow> True | Some h \<Rightarrow> written_in h (at_commit s)
         then (Ok (quiet 0), s\<lparr>on_remote := (small_branch, at_commit s) # on_remote s\<rparr>) else (Ok (quiet 1), s))
      else (Err (NotRun (hd args)), s))"

definition small_seen :: "small \<Rightarrow> git" where
  "small_seen s =
     \<lparr>runs = (\<lambda>args. if args = [''rev-parse'', ''HEAD''] \<and> trim (at_commit s) = at_commit s
        then Ok \<lparr>exit_status = 0, stdout = at_commit s, stderr = [], read_failures = []\<rparr> else Err (NotRun (hd args))),
      tip_of = (\<lambda>_. None), knows_reach = (\<lambda>a _. Some (written_in a (at_commit s))), knows_commit = (\<lambda>_. None),
      merged_before = (\<lambda>_ _. None)\<rparr>"

definition small_disk :: "small \<Rightarrow> on_disk" where
  "small_disk s = nothing_read\<lparr>disk_tip := (\<lambda>r. Some (case strip_prefix ''refs/remotes/origin/'' r of
     None \<Rightarrow> None | Some n \<Rightarrow> map_of (fetched s) n))\<rparr>"

definition small_ops :: "small base_ops" where
  "small_ops =
     \<lparr>base_shell = \<lparr>runs_in = (\<lambda>_. small_run), seen_in = (\<lambda>_. small_seen), disk_in = (\<lambda>_. small_disk),
        dir_in = (\<lambda>_ _. True), remote_url = (\<lambda>_ _ _. True), fetch_turn = (\<lambda>_ s. (Ok (), s))\<rparr>,
      valid_name = (\<lambda>n. n \<noteq> []), resolve_key = (\<lambda>_ _. Ok ''k''), rules_prefix = (\<lambda>_. Ok None),
      execution_checkout = (\<lambda>_ _. Ok ''x''),
      open_session = (\<lambda>_ s. (Ok \<lparr>op_session = \<lparr>bs_token = ''t'', bs_worktree = ''w'', bs_clone = ''c'', bs_execution = ''x''\<rparr>,
        op_conflict = None, op_cut = True\<rparr>, s)),
      close_session = (\<lambda>_ s. (Ok (), s)), guard_publication = (\<lambda>_ _ s. (Ok (), s))\<rparr>"

definition small_sight :: "small sight" where
  "small_sight = \<lparr>commit_id = (\<lambda>_. True), reaches = written_in, standing = (\<lambda>_. at_commit),
     origin_at = (\<lambda>s. map_of (on_remote s))\<rparr>"

definition small_request :: stack_request where
  "small_request = \<lparr>rq_repo = ''r'', rq_branch = small_branch, rq_root = ''main'', rq_parents = [''a'', ''b'']\<rparr>"

definition small_start :: small where
  "small_start = \<lparr>at_commit = ''m'', on_remote = [(''main'', ''m''), (''a'', ''p''), (''b'', ''q'')], fetched = []\<rparr>"

lemma written_in_iff: "written_in a b \<longleftrightarrow> set (split_on (CHR ''+'') a) \<subseteq> set (split_on (CHR ''+'') b)"
  by (auto simp: written_in_def list_all_iff)

lemma written_in_merge: "written_in a (a @ CHR ''+'' # b)" "written_in b (a @ CHR ''+'' # b)"
  using split_on_app [of "CHR ''+''" a b] by (auto simp: written_in_iff)

lemma small_tip: "tip_in (base_shell small_ops) x (tracking n) s = map_of (fetched s) n"
  by (simp add: tip_in_def tip_at_def small_ops_def small_disk_def tracking_def ORIGIN_def strip_prefix_def starts_with_def)

lemma small_session: "session_law small_ops small_sight small_branch \<lparr>bs_token = ''t'', bs_worktree = ''w'', bs_clone = ''c'', bs_execution = ''x''\<rparr>"
proof -
  have shell: "runs_in (base_shell small_ops) w = small_run" "seen_in (base_shell small_ops) w = small_seen" for w
    by (simp_all add: small_ops_def)
  have "read_law small_ops small_sight w" for w
    by (auto simp: read_law_def shell small_seen_def is_ancestor_def small_sight_def head_sha_def checked_def and_then_Ok
        trimmed_def split: if_splits)
  moreover have "merge_law small_ops small_sight w" for w
    by (auto simp: merge_law_def shell small_run_def merge_commit_args_def undisturbed_def small_tip small_sight_def
        written_in_merge quiet_def ran_ok_def)
  moreover have "reset_law small_ops small_sight w" for w
    by (auto simp: reset_law_def shell small_run_def reset_args_def small_sight_def)
  moreover have "push_law small_ops small_sight w c small_branch" for w c
    by (auto simp: push_law_def shell small_run_def preserve_args_def small_sight_def quiet_def ran_ok_def split: option.splits)
  ultimately show ?thesis by (simp add: session_law_def)
qed

lemma small_laws: "stack_laws small_ops small_sight small_request"
proof -
  have "around_law small_ops small_sight"
    by (auto simp: around_law_def small_sight_def written_in_iff small_ops_def undisturbed_def)
  moreover have "open_law small_ops small_sight small_request"
    using small_session by (auto simp: open_law_def small_ops_def small_request_def undisturbed_def)
  moreover have "fetch_law small_ops small_sight"
    by (auto simp: fetch_law_def small_tip small_run_def fetch_args_def small_sight_def) (auto simp: small_ops_def small_run_def)
  ultimately show ?thesis by (simp add: stack_laws_def)
qed

lemma small_assembly:
  "assemble small_ops small_request small_start =
    (let a = \<lparr>ab_branch = small_branch, ab_head = ''m+p+q'',
       ab_parents = [\<lparr>sp_branch = ''a'', sp_head = ''p''\<rparr>, \<lparr>sp_branch = ''b'', sp_head = ''q''\<rparr>], ab_outcome = BaseCreated\<rparr>
     in (Ok a, [record_assembly small_request a],
         \<lparr>at_commit = ''m+p+q'', on_remote = (small_branch, ''m+p+q'') # on_remote small_start, fetched = on_remote small_start\<rparr>))"
  by code_simp


definition moved_start :: small where
  "moved_start = small_start\<lparr>on_remote := (small_branch, ''z'') # on_remote small_start\<rparr>"

lemma declined_assembly:
  "assemble small_ops small_request moved_start =
     (Err (Declined ''k'' small_branch []), [], moved_start\<lparr>fetched := on_remote moved_start\<rparr>)"
  by code_simp




end
