(* ===== verification/Releases.thy ===== *)
theory Releases
  imports Policy
begin

text \<open>
  What each repository releases (\<open>releases.rs\<close>, and the loading, matching and layering of
  \<open>release.rs\<close>): the names and shapes a release-targets document is held to, the probe a target
  names, the three layers that resolve a repository's targets and the target a caller selects. Reading
  YAML and TOML is a parameter; a refusal keeps what it names and leaves out its wording.
\<close>

section \<open>Names and shapes\<close>

definition MAX_TARGET_NAME :: nat where "MAX_TARGET_NAME = 64"
definition MAX_ACTION :: nat where "MAX_ACTION = 200"
definition DEFAULT_PROBE_TIMEOUT_SECONDS :: nat where "DEFAULT_PROBE_TIMEOUT_SECONDS = 60"

datatype name_error = EmptyName | NameTooLong str | NameStart str | NameCharacter str

definition target_name :: "str \<Rightarrow> name_error + str" where
  "target_name value =
     (if value = [] then Err EmptyName
      else if MAX_TARGET_NAME < length value then Err (NameTooLong value)
      else if \<not> is_alnum (hd value) then Err (NameStart value)
      else if \<not> list_all (\<lambda>c. is_alnum c \<or> c \<in> {CHR ''-'', CHR ''_'', CHR ''.''}) value
      then Err (NameCharacter value)
      else Ok value)"

text \<open>\<open>chars().count()\<close>: every byte but the continuation bytes of UTF-8.\<close>

definition char_count :: "str \<Rightarrow> nat" where
  "char_count s = length (filter (\<lambda>c. \<not> (128 \<le> code c \<and> code c < 192)) s)"

definition renders_on_one_line :: "str \<Rightarrow> bool" where
  "renders_on_one_line s \<longleftrightarrow> \<not> any_control s"

datatype probe =
    ScriptProbe (probe_script: str) (probe_args: "str list") (probe_bound: nat)
  | ShellProbe (probe_shell: str) (probe_bound: nat)

definition probe_form :: "probe \<Rightarrow> str" where
  "probe_form p = (case p of ScriptProbe _ _ _ \<Rightarrow> ''script'' | ShellProbe _ _ \<Rightarrow> ''shell'')"

datatype release_method = Automated probe | HumanStep str

datatype release_style = AutomatedStyle | HumanStepStyle

definition style_str :: "release_style \<Rightarrow> str" where
  "style_str s = (case s of AutomatedStyle \<Rightarrow> ''automated'' | HumanStepStyle \<Rightarrow> ''human-step'')"

record release_target =
  rt_name :: str
  rt_release :: release_method
  rt_instructions :: "str option"

definition style_of :: "release_target \<Rightarrow> release_style" where
  "style_of t = (case rt_release t of Automated _ \<Rightarrow> AutomatedStyle | HumanStep _ \<Rightarrow> HumanStepStyle)"

definition probe_of :: "release_target \<Rightarrow> probe option" where
  "probe_of t = (case rt_release t of Automated p \<Rightarrow> Some p | HumanStep _ \<Rightarrow> None)"

definition action_of :: "release_target \<Rightarrow> str option" where
  "action_of t = (case rt_release t of HumanStep a \<Rightarrow> Some a | Automated _ \<Rightarrow> None)"

section \<open>A target as the document spells it\<close>

record stored_probe =
  spr_script :: "str option"
  spr_args :: "str list option"
  spr_shell :: "str option"
  spr_timeout :: "nat option"

record stored_target =
  st_name :: str
  st_style :: release_style
  st_probe :: "stored_probe option"
  st_action :: "str option"
  st_instructions :: "str option"

datatype target_error =
    ActionOnAutomated
  | NoProbe
  | ProbeOnHumanStep
  | NoAction
  | BlankAction
  | LongAction
  | UnusableBound nat
  | BothForms
  | NeitherForm
  | EmptyScript
  | AbsoluteScript str
  | LeavingScript str
  | ControlArgument str
  | ShellArgs
  | BlankShell
  | ControlShell

definition relative_to_the_repository :: "str \<Rightarrow> target_error + unit" where
  "relative_to_the_repository script =
     (if script = [] then Err EmptyScript
      else if is_absolute script then Err (AbsoluteScript script)
      else if list_ex (\<lambda>part. part = ''..'') (split_on (CHR ''/'') script) then Err (LeavingScript script)
      else Ok ())"

text \<open>Whether the clock can reach that many seconds from now is a parameter.\<close>

definition into_probe :: "(nat \<Rightarrow> bool) \<Rightarrow> stored_probe \<Rightarrow> target_error + probe" where
  "into_probe reachable p =
     and_then (case spr_timeout p of
         None \<Rightarrow> Ok DEFAULT_PROBE_TIMEOUT_SECONDS
       | Some n \<Rightarrow> if 0 < n \<and> reachable n then Ok n else Err (UnusableBound n)) (\<lambda>bound.
       case (spr_script p, spr_shell p) of
         (Some _, Some _) \<Rightarrow> Err BothForms
       | (None, None) \<Rightarrow> Err NeitherForm
       | (Some script, None) \<Rightarrow>
           and_then (relative_to_the_repository script) (\<lambda>_.
             let args = (case spr_args p of None \<Rightarrow> [] | Some a \<Rightarrow> a)
             in case List.find (\<lambda>a. \<not> renders_on_one_line a) args of
                  Some a \<Rightarrow> Err (ControlArgument a)
                | None \<Rightarrow> Ok (ScriptProbe script args bound))
       | (None, Some shell) \<Rightarrow>
           (if spr_args p \<noteq> None then Err ShellArgs
            else if trim shell = [] then Err BlankShell
            else if \<not> renders_on_one_line shell then Err ControlShell
            else Ok (ShellProbe shell bound)))"

definition target_of :: "(nat \<Rightarrow> bool) \<Rightarrow> stored_target \<Rightarrow> target_error + release_target" where
  "target_of reachable s =
     and_then (case st_style s of
         AutomatedStyle \<Rightarrow>
           (if st_action s \<noteq> None then Err ActionOnAutomated
            else and_then (ok_or (st_probe s) NoProbe) (\<lambda>p.
              and_then (into_probe reachable p) (\<lambda>p. Ok (Automated p))))
       | HumanStepStyle \<Rightarrow>
           (if st_probe s \<noteq> None then Err ProbeOnHumanStep
            else and_then (ok_or (st_action s) NoAction) (\<lambda>action.
              if trim action = [] then Err BlankAction
              else if \<not> renders_on_one_line action \<or> MAX_ACTION < char_count action then Err LongAction
              else Ok (HumanStep action)))) (\<lambda>method.
       Ok \<lparr>rt_name = st_name s, rt_release = method, rt_instructions = st_instructions s\<rparr>)"

text \<open>\<open>WrittenTarget\<close>: the flat shape a target is written in.\<close>

definition written_probe :: "probe \<Rightarrow> stored_probe" where
  "written_probe p =
     (case p of
        ScriptProbe script args bound \<Rightarrow>
          \<lparr>spr_script = Some script, spr_args = Some args, spr_shell = None, spr_timeout = Some bound\<rparr>
      | ShellProbe shell bound \<Rightarrow>
          \<lparr>spr_script = None, spr_args = None, spr_shell = Some shell, spr_timeout = Some bound\<rparr>)"

definition written_target :: "release_target \<Rightarrow> stored_target" where
  "written_target t =
     \<lparr>st_name = rt_name t, st_style = style_of t, st_probe = map_option written_probe (probe_of t),
      st_action = action_of t, st_instructions = rt_instructions t\<rparr>"

section \<open>The release-targets file\<close>

datatype adoption = Fast | Published

datatype declaration_policy = MergeDeclaration | IgnoreDeclaration

record release_rule =
  rr_match :: rule_match
  rr_adoption :: "adoption option"
  rr_default :: "str option"
  rr_declaration :: "declaration_policy option"
  rr_targets :: "release_target list"

record releases_file =
  rf_version :: nat
  rf_rules :: "release_rule list"
  rf_adoption :: adoption

definition no_releases :: releases_file where
  "no_releases = \<lparr>rf_version = 1, rf_rules = [], rf_adoption = Fast\<rparr>"

datatype releases_error =
    FileUnreadable str
  | FileMalformed str
  | FileVersion nat
  | TargetTwice nat str
  | DefaultNotDeclared "str option" str "str list"     \<comment> \<open>of a rule of the file, or of a repository\<close>
  | NothingReleased str
  | NoDefaultTarget str
  | NoSuchTarget str str
  | NotLocated store_error
  | RecordRefused str
  | NotLandedYet str
  | LandingUnknown str
  | ProbeMustAnswer str
  | NotAVersion str
  | AlreadyAcknowledged str
  | ActorUnusable str

definition honours_default :: "str option \<Rightarrow> str option \<Rightarrow> release_target list \<Rightarrow> releases_error + unit" where
  "honours_default named wanted targets =
     (case wanted of
        None \<Rightarrow> Ok ()
      | Some d \<Rightarrow> if list_ex (\<lambda>t. rt_name t = d) targets then Ok ()
                  else Err (DefaultNotDeclared named d (map rt_name targets)))"

fun first_twice :: "str list \<Rightarrow> release_target list \<Rightarrow> str option" where
  "first_twice known [] = None"
| "first_twice known (t # ts) =
     (if rt_name t \<in> set known then Some (rt_name t) else first_twice (known @ [rt_name t]) ts)"

fun validate_rules :: "nat \<Rightarrow> release_rule list \<Rightarrow> releases_error + unit" where
  "validate_rules i [] = Ok ()"
| "validate_rules i (r # rs) =
     (case first_twice [] (rr_targets r) of
        Some n \<Rightarrow> Err (TargetTwice (i + 1) n)
      | None \<Rightarrow>
          and_then (if rr_declaration r = Some IgnoreDeclaration
                    then honours_default None (rr_default r) (rr_targets r) else Ok ())
            (\<lambda>_. validate_rules (i + 1) rs))"

text \<open>\<open>parse\<close>: the version the document declares is asked before its shape. Reading YAML, for the declared
  version and for the shape, is a parameter.\<close>

definition parse_releases ::
    "(str \<Rightarrow> str + nat option) \<Rightarrow> (str \<Rightarrow> str + releases_file) \<Rightarrow> str \<Rightarrow> releases_error + releases_file" where
  "parse_releases declared_version shape raw =
     (case declared_version raw of
        Inl e \<Rightarrow> Err (FileMalformed e)
      | Inr v \<Rightarrow>
          (if (case v of Some n \<Rightarrow> n < 1 | None \<Rightarrow> False) then Err (FileVersion (the v))
           else case shape raw of
             Inl e \<Rightarrow> Err (FileMalformed e)
           | Inr file \<Rightarrow> and_then (validate_rules 0 (rf_rules file)) (\<lambda>_. Ok file)))"

text \<open>\<open>load\<close>: no file is the empty document, and a file that cannot be read is refused.\<close>

definition load_releases ::
    "(str \<Rightarrow> str + nat option) \<Rightarrow> (str \<Rightarrow> str + releases_file) \<Rightarrow> (str + str) option \<Rightarrow> releases_error + releases_file" where
  "load_releases declared_version shape file =
     (case file of
        None \<Rightarrow> Ok no_releases
      | Some (Inl e) \<Rightarrow> Err (FileUnreadable e)
      | Some (Inr raw) \<Rightarrow> parse_releases declared_version shape raw)"

section \<open>The three layers\<close>

record declared_target =
  dt_name :: str
  dt_id :: str
  dt_instructions :: "str option"

record declaration_read =
  dc_probe :: "str option"
  dc_targets :: "declared_target list"

datatype declaration_source =
    DeclaredIn str declaration_read
  | Undeclared str
  | DeclarationUnreadable str

definition declared_of :: "declaration_source \<Rightarrow> declaration_read option" where
  "declared_of d = (case d of DeclaredIn _ r \<Rightarrow> Some r | _ \<Rightarrow> None)"

datatype target_source = FromDeclaration | FromHost | FromOverride

definition from_declaration :: "declaration_read \<Rightarrow> declared_target \<Rightarrow> release_target" where
  "from_declaration d t =
     \<lparr>rt_name = dt_name t,
      rt_release = (case dc_probe d of
          Some script \<Rightarrow> Automated (ScriptProbe script [dt_id t] DEFAULT_PROBE_TIMEOUT_SECONDS)
        | None \<Rightarrow> HumanStep
            (''this repository's declaration names no probe, so record its release with `onevcs release acknowledge --target ''
              @ dt_name t @ ''`'')),
      rt_instructions = dt_instructions t\<rparr>"

text \<open>One target the host names: it replaces the target of its name where it stands, or is appended.\<close>

definition lay ::
    "release_target \<Rightarrow> release_target list \<times> (str \<rightharpoonup> target_source) \<Rightarrow>
       release_target list \<times> (str \<rightharpoonup> target_source)" where
  "lay t acc = (case acc of (ts, sources) \<Rightarrow>
     (case position (\<lambda>k. rt_name k = rt_name t) ts of
        Some i \<Rightarrow> (ts[i := t], sources(rt_name t \<mapsto> FromOverride))
      | None \<Rightarrow> (ts @ [t], sources(rt_name t \<mapsto> FromHost))))"

definition resolve_targets ::
    "release_rule option \<Rightarrow> declaration_source \<Rightarrow> release_target list \<times> (str \<rightharpoonup> target_source)" where
  "resolve_targets rule d =
     (let policy = (case rule of None \<Rightarrow> MergeDeclaration
             | Some r \<Rightarrow> (case rr_declaration r of None \<Rightarrow> MergeDeclaration | Some p \<Rightarrow> p));
          base = (case (policy, declared_of d) of
             (MergeDeclaration, Some r) \<Rightarrow> map (from_declaration r) (dc_targets r) | _ \<Rightarrow> []);
          sources = (\<lambda>n. if n \<in> rt_name ` set base then Some FromDeclaration else None)
      in fold lay (case rule of None \<Rightarrow> [] | Some r \<Rightarrow> rr_targets r) (base, sources))"

record repository_releases =
  rs_identity :: str
  rs_adoption :: adoption
  rs_default :: "str option"
  rs_targets :: "release_target list"
  rs_declaration :: declaration_source
  rs_sources :: "str \<rightharpoonup> target_source"

definition select_target :: "repository_releases \<Rightarrow> str option \<Rightarrow> releases_error + release_target" where
  "select_target r named =
     (if rs_targets r = [] then Err (NothingReleased (rs_identity r))
      else case (case named of Some n \<Rightarrow> Some n | None \<Rightarrow> rs_default r) of
        None \<Rightarrow> Err (NoDefaultTarget (rs_identity r))
      | Some wanted \<Rightarrow>
          ok_or (List.find (\<lambda>t. rt_name t = wanted) (rs_targets r)) (NoSuchTarget (rs_identity r) wanted))"

section \<open>Locating a repository\<close>

definition first_release_match ::
    "str option \<Rightarrow> releases_file \<Rightarrow> normalized \<Rightarrow> str \<Rightarrow> release_rule option" where
  "first_release_match home file identity checkout =
     List.find (\<lambda>r. matches home (rr_match r) identity checkout) (rf_rules file)"

text \<open>An identity with no checkout is located all the same.\<close>

definition locate_release ::
    "(str \<Rightarrow> str option) \<Rightarrow> registry \<Rightarrow> str \<Rightarrow> store_error + str \<times> str option" where
  "locate_release canonicalize reg repo =
     (case resolve_anew canonicalize reg repo of
        Inr res \<Rightarrow> Ok (res_key res, Some (res_publication res))
      | Inl refusal \<Rightarrow>
          (let k = (if map_of (identities reg) repo \<noteq> None then repo else key (normalize canonicalize repo))
           in if map_of (identities reg) k \<noteq> None then Ok (k, None) else Err refusal))"

datatype probe_checkout = CheckoutAt str | NoCheckoutAt str

text \<open>The publication checkout on its base branch, or why a script may not be read. Which branch is the
  base and which is checked out are parameters.\<close>

definition probe_checkout_of :: "(str \<Rightarrow> str + str \<times> str) \<Rightarrow> str option \<Rightarrow> probe_checkout" where
  "probe_checkout_of standing copath =
     (case copath of
        None \<Rightarrow> NoCheckoutAt ''this identity has no registered checkout''
      | Some c \<Rightarrow>
          (case standing c of
             Inl e \<Rightarrow> NoCheckoutAt (c @ '' could not be asked which branch it is on: '' @ e)
           | Inr (base, on) \<Rightarrow>
               if on = base then CheckoutAt c else NoCheckoutAt (c @ '' has '' @ on @ '' checked out'')))"

text \<open>The declaration is read from that checkout alone; what reading it answers is a parameter.\<close>

definition declared_in :: "(str \<Rightarrow> (str + declaration_read) option) \<Rightarrow> probe_checkout \<Rightarrow> declaration_source" where
  "declared_in declaration_at c =
     (case c of
        NoCheckoutAt why \<Rightarrow> DeclarationUnreadable why
      | CheckoutAt base_dir \<Rightarrow>
          (case declaration_at base_dir of
             None \<Rightarrow> Undeclared base_dir
           | Some (Inl e) \<Rightarrow> DeclarationUnreadable e
           | Some (Inr d) \<Rightarrow> DeclaredIn (path_join base_dir ''release-targets.toml'') d))"

record located =
  lc_releases :: repository_releases
  lc_checkout :: probe_checkout

record release_reads =
  rd_canonicalize :: "str \<Rightarrow> str option"
  rd_home :: "str option"
  rd_file :: "releases_error + releases_file"
  rd_standing :: "str \<Rightarrow> str + str \<times> str"
  rd_declaration :: "str \<Rightarrow> (str + declaration_read) option"

definition for_repository :: "release_reads \<Rightarrow> registry \<Rightarrow> str \<Rightarrow> releases_error + located" where
  "for_repository rd reg repo =
     (case locate_release (rd_canonicalize rd) reg repo of
        Inl e \<Rightarrow> Err (NotLocated e)
      | Inr (k, copath) \<Rightarrow>
          and_then (rd_file rd) (\<lambda>file.
            let rule = first_release_match (rd_home rd) file (normalize (rd_canonicalize rd) k)
                  (case copath of None \<Rightarrow> [] | Some p \<Rightarrow> p);
                c = probe_checkout_of (rd_standing rd) copath;
                d = declared_in (rd_declaration rd) c
            in case resolve_targets rule d of (targets, sources) \<Rightarrow>
                 (let r = \<lparr>rs_identity = k,
                       rs_adoption = (case Option.bind rule rr_adoption of Some a \<Rightarrow> a | None \<Rightarrow> rf_adoption file),
                       rs_default = Option.bind rule rr_default, rs_targets = targets, rs_declaration = d,
                       rs_sources = sources\<rparr>
                  in and_then (honours_default (Some k) (rs_default r) targets) (\<lambda>_.
                       Ok \<lparr>lc_releases = r, lc_checkout = c\<rparr>))))"

section \<open>The head of a release change\<close>

definition release_change_head ::
    "release_reads \<Rightarrow> (str + scalar list option list) \<Rightarrow> registry \<Rightarrow> str \<Rightarrow>
       releases_error + str \<times> scalar list option" where
  "release_change_head rd heads reg repo =
     (case locate_release (rd_canonicalize rd) reg repo of
        Inl e \<Rightarrow> Err (NotLocated e)
      | Inr (k, copath) \<Rightarrow>
          and_then (rd_file rd) (\<lambda>file.
            case position (\<lambda>r. matches (rd_home rd) (rr_match r) (normalize (rd_canonicalize rd) k)
                   (case copath of None \<Rightarrow> [] | Some p \<Rightarrow> p)) (rf_rules file) of
              None \<Rightarrow> Ok (k, None)
            | Some i \<Rightarrow>
                (case heads of
                   Inl e \<Rightarrow> Err (FileMalformed e)
                 | Inr hs \<Rightarrow> Ok (k, if i < length hs then hs ! i else None))))"

end
