(* ===== verification/Release.thy ===== *)
theory Release
  imports Releases Landed Ids
begin

text \<open>
  Whether a landed change has been released (\<open>release.rs\<close>, \<open>probe.rs\<close>): the one line a probe is asked
  for, the record each identity keeps of what was out at a landing, what was acknowledged since and what
  was observed, and the questions answered from it. The processes of probes, semantic versions, the
  clock, locks and files are parameters; where a landing is, is the answer of the landing tiers.
\<close>

section \<open>Probes\<close>

datatype release_answer = ReleasedAt str | NoRelease | NotAnswered str

text \<open>How one run ended: the script is not there, there is nowhere to run, it never started, it ran out of
  its bound, it could not be collected, or it exited.\<close>

datatype probe_end =
    NoScript
  | NoScratch str
  | NotStarted str
  | TimedOut
  | NotCollected str
  | Exited "int option" str str

text \<open>\<open>answer_from\<close>; the bytes are taken to be UTF-8 where \<open>valid_utf8\<close> says they are.\<close>

definition answer_from :: "(str \<Rightarrow> bool) \<Rightarrow> str \<Rightarrow> release_answer" where
  "answer_from valid_utf8 printed =
     (if \<not> valid_utf8 printed then NotAnswered ''printed bytes that are not text''
      else if trim printed = [] then NoRelease
      else case filter (\<lambda>l. l \<noteq> []) (map trim (lines printed)) of
             [l] \<Rightarrow> (if any_control l then NotAnswered ''printed control characters'' else ReleasedAt l)
           | [] \<Rightarrow> ReleasedAt []
           | _ \<Rightarrow> NotAnswered ''printed more than one line'')"

definition probe_answer :: "(str \<Rightarrow> bool) \<Rightarrow> probe_end \<Rightarrow> release_answer" where
  "probe_answer valid_utf8 e =
     (case e of
        NoScript \<Rightarrow> NotAnswered ''the probe script is not a file''
      | NoScratch why \<Rightarrow> NotAnswered why
      | NotStarted why \<Rightarrow> NotAnswered why
      | TimedOut \<Rightarrow> NotAnswered ''timed out''
      | NotCollected why \<Rightarrow> NotAnswered why
      | Exited status out said \<Rightarrow>
          if status = Some 0 then answer_from valid_utf8 out else NotAnswered said)"

section \<open>The record of an identity\<close>

datatype baseline = BaselineAt str | BaselineNoRelease

datatype baseline_record = Established baseline | Unestablished str str

record superseded_release =
  sv_version :: str
  sv_recorded_at :: str
  sv_actor :: str

record stored_acknowledgement =
  sa_version :: str
  sa_recorded_at :: str
  sa_actor :: str
  sa_superseded :: "superseded_release list"

text \<open>A map from a target to a map from a landing commit, both iterated in the order of their keys.\<close>

type_synonym 'a filed = "(str \<times> (str \<times> 'a) list) list"

definition filed_at :: "'a filed \<Rightarrow> str \<Rightarrow> str \<Rightarrow> 'a option" where
  "filed_at f target commit = Option.bind (map_of f target) (\<lambda>l. map_of l commit)"

definition file_at :: "str \<Rightarrow> str \<Rightarrow> 'a \<Rightarrow> 'a filed \<Rightarrow> 'a filed" where
  "file_at target commit a f =
     bt_insert target (bt_insert commit a (case map_of f target of None \<Rightarrow> [] | Some l \<Rightarrow> l)) f"

record release_record =
  rec_version :: nat
  rec_identity :: str
  rec_baselines :: "baseline_record filed"
  rec_acknowledgements :: "stored_acknowledgement filed"
  rec_observed :: "str filed"
  rec_carried :: json

definition RECORD_VERSION :: nat where "RECORD_VERSION = 1"

definition empty_record :: "str \<Rightarrow> release_record" where
  "empty_record identity =
     \<lparr>rec_version = RECORD_VERSION, rec_identity = identity, rec_baselines = [], rec_acknowledgements = [],
      rec_observed = [], rec_carried = Null\<rparr>"

definition MAX_ACTOR :: nat where "MAX_ACTOR = 128"

definition usable_actor :: "str \<Rightarrow> bool" where
  "usable_actor value \<longleftrightarrow> value \<noteq> [] \<and> char_count value \<le> MAX_ACTOR \<and> \<not> any_control value"

text \<open>\<open>usable\<close>: what each stored field is read for.\<close>

definition usable_release :: "(str \<Rightarrow> bool) \<Rightarrow> str \<Rightarrow> str \<Rightarrow> str \<Rightarrow> bool" where
  "usable_release semantic v time actor \<longleftrightarrow> semantic v \<and> is_timestamp time \<and> usable_actor actor"

definition usable_acknowledgement :: "(str \<Rightarrow> bool) \<Rightarrow> stored_acknowledgement \<Rightarrow> bool" where
  "usable_acknowledgement semantic a \<longleftrightarrow>
     usable_release semantic (sa_version a) (sa_recorded_at a) (sa_actor a) \<and>
     list_all (\<lambda>s. usable_release semantic (sv_version s) (sv_recorded_at s) (sv_actor s)) (sa_superseded a)"

definition usable_baseline :: "baseline_record \<Rightarrow> bool" where
  "usable_baseline b =
     (case b of
        Established (BaselineAt v) \<Rightarrow> trim v \<noteq> [] \<and> \<not> any_control v
      | Established BaselineNoRelease \<Rightarrow> True
      | Unestablished reason time \<Rightarrow> trim reason \<noteq> [] \<and> \<not> any_control reason \<and> is_timestamp time)"

definition all_filed :: "('a \<Rightarrow> bool) \<Rightarrow> 'a filed \<Rightarrow> bool" where
  "all_filed p f \<longleftrightarrow> list_all (\<lambda>(_, l). list_all (\<lambda>(_, a). p a) l) f"

definition usable_record :: "(str \<Rightarrow> bool) \<Rightarrow> release_record \<Rightarrow> bool" where
  "usable_record semantic r \<longleftrightarrow>
     all_filed (usable_acknowledgement semantic) (rec_acknowledgements r) \<and> all_filed usable_baseline (rec_baselines r)"

section \<open>The world a question is asked in\<close>

datatype record_doc = RecordUnreadable str | RecordDoc release_record

datatype release_event =
    ReleaseProbed str str str str "str option"
  | ReleaseObserved str str str str str
  | ReleaseAcknowledged str str str str str "str option"
  | ChangeMerged str str str

record 'w release_world =
  records :: "str \<rightharpoonup> record_doc"
  sent :: "release_event list"
  outer :: 'w

record ('v, 'w) release_ops =
  run_probe :: "probe \<Rightarrow> str option \<Rightarrow> 'w \<Rightarrow> probe_end \<times> 'w"
  is_utf8 :: "str \<Rightarrow> bool"
  version_of :: "str \<Rightarrow> 'v option"                        \<comment> \<open>\<open>semver::Version::parse\<close>\<close>
  clock :: "'w \<Rightarrow> str"
  digest_of :: "str \<Rightarrow> str"
  lock_record :: "str \<Rightarrow> 'w \<Rightarrow> releases_error + unit"
  write_record :: "str \<Rightarrow> 'w \<Rightarrow> releases_error + unit"
  fast_forward :: "str \<Rightarrow> 'w \<Rightarrow> (str + unit) \<times> 'w"
  tags_containing :: "str \<Rightarrow> str \<Rightarrow> 'w \<Rightarrow> str + str list"
  opens_stream :: "str \<Rightarrow> 'w \<Rightarrow> bool"

definition is_version :: "('v, 'w) release_ops \<Rightarrow> str \<Rightarrow> bool" where
  "is_version ops v \<longleftrightarrow> version_of ops v \<noteq> None"

definition record_path :: "('v, 'w) release_ops \<Rightarrow> str \<Rightarrow> str" where
  "record_path ops identity =
     (let flattened = map (\<lambda>c. if c = CHR ''/'' then CHR ''-'' else c) identity
      in (if is_safe_name flattened then flattened else digest_of ops identity) @ ''.json'')"

text \<open>\<open>read\<close>: a record that is not there is empty; one that cannot be answered from is refused.\<close>

definition read_record :: "('v, 'w) release_ops \<Rightarrow> str \<Rightarrow> 'w release_world \<Rightarrow> releases_error + release_record" where
  "read_record ops identity w =
     (case records w (record_path ops identity) of
        None \<Rightarrow> Ok (empty_record identity)
      | Some (RecordUnreadable e) \<Rightarrow> Err (RecordRefused e)
      | Some (RecordDoc r) \<Rightarrow>
          (if rec_version r < RECORD_VERSION then Err (RecordRefused ''an older version'')
           else if rec_identity r \<noteq> identity then Err (RecordRefused ''about another identity'')
           else if \<not> usable_record (is_version ops) r then Err (RecordRefused ''a record this build cannot answer from'')
           else Ok r))"

definition update_record ::
    "('v, 'w) release_ops \<Rightarrow> str \<Rightarrow> (release_record \<Rightarrow> releases_error + release_record \<times> 't) \<Rightarrow>
       'w release_world \<Rightarrow> (releases_error + 't) \<times> 'w release_world" where
  "update_record ops identity change w =
     (case and_then (lock_record ops identity (outer w)) (\<lambda>_.
             and_then (read_record ops identity w) (\<lambda>r.
             and_then (change r) (\<lambda>(r, t).
             and_then (write_record ops identity (outer w)) (\<lambda>_. Ok (r, t))))) of
        Inl e \<Rightarrow> (Err e, w)
      | Inr (r, t) \<Rightarrow> (Ok t, w\<lparr>records := (records w)(record_path ops identity \<mapsto> RecordDoc r)\<rparr>))"

definition emit_release :: "release_event \<Rightarrow> 'w release_world \<Rightarrow> 'w release_world" where
  "emit_release e w = w\<lparr>sent := sent w @ [e]\<rparr>"

section \<open>Writing the record\<close>

definition write_baseline ::
    "('v, 'w) release_ops \<Rightarrow> str \<Rightarrow> str \<Rightarrow> str \<Rightarrow> baseline_record \<Rightarrow> 'w release_world \<Rightarrow> (releases_error + unit) \<times> 'w release_world" where
  "write_baseline ops identity target commit b w =
     update_record ops identity (\<lambda>r.
       Ok (case filed_at (rec_baselines r) target commit of
             Some _ \<Rightarrow> r
           | None \<Rightarrow> r\<lparr>rec_baselines := file_at target commit b (rec_baselines r)\<rparr>, ())) w"

definition establish ::
    "('v, 'w) release_ops \<Rightarrow> str \<Rightarrow> str \<Rightarrow> str \<Rightarrow> baseline \<Rightarrow> 'w release_world \<Rightarrow> (releases_error + unit) \<times> 'w release_world" where
  "establish ops identity target commit b w =
     update_record ops identity (\<lambda>r.
       Ok (r\<lparr>rec_baselines := file_at target commit (Established b) (rec_baselines r)\<rparr>, ())) w"

text \<open>A landing is observed once: the record decides it, and the event follows the record.\<close>

definition observe ::
    "('v, 'w) release_ops \<Rightarrow> str \<Rightarrow> release_target \<Rightarrow> str \<Rightarrow> str \<Rightarrow> 'w release_world \<Rightarrow> (releases_error + unit) \<times> 'w release_world" where
  "observe ops identity target commit v w =
     (case update_record ops identity (\<lambda>r.
             case filed_at (rec_observed r) (rt_name target) commit of
               Some _ \<Rightarrow> Ok (r, False)
             | None \<Rightarrow> Ok (r\<lparr>rec_observed := file_at (rt_name target) commit v (rec_observed r)\<rparr>, True)) w of
        (Inl e, w) \<Rightarrow> (Err e, w)
      | (Inr inserted, w) \<Rightarrow>
          (Ok (), if inserted
                  then emit_release (ReleaseObserved identity (rt_name target) (style_str (style_of target)) v commit) w
                  else w))"

text \<open>What a write of an acknowledgement did: nothing, a first record, or a correction of a version.\<close>

datatype written = NothingWritten | FirstRecord | Correction str

definition write_acknowledgement ::
    "('v, 'w) release_ops \<Rightarrow> str \<Rightarrow> str \<Rightarrow> str \<Rightarrow> str \<Rightarrow> str \<Rightarrow> bool \<Rightarrow> 'w release_world \<Rightarrow>
       (releases_error + stored_acknowledgement \<times> written) \<times> 'w release_world" where
  "write_acknowledgement ops identity target commit v actor supersede w =
     update_record ops identity (\<lambda>r.
       let keep = (\<lambda>a. r\<lparr>rec_acknowledgements := file_at target commit a (rec_acknowledgements r)\<rparr>);
           fresh = (\<lambda>before. \<lparr>sa_version = v, sa_recorded_at = clock ops (outer w), sa_actor = actor, sa_superseded = before\<rparr>)
       in case filed_at (rec_acknowledgements r) target commit of
            Some e \<Rightarrow>
              (if sa_version e = v then Ok (r, e, NothingWritten)
               else if \<not> supersede then Err (AlreadyAcknowledged (sa_version e))
               else let a = fresh (sa_superseded e @
                      [\<lparr>sv_version = sa_version e, sv_recorded_at = sa_recorded_at e, sv_actor = sa_actor e\<rparr>])
                    in Ok (keep a, a, Correction (sa_version e)))
          | None \<Rightarrow> (let a = fresh [] in Ok (keep a, a, FirstRecord))) w"

text \<open>\<open>max_by\<close> over the landings: of several recorded at one time the last.\<close>

definition newest_of :: "stored_acknowledgement list \<Rightarrow> stored_acknowledgement option" where
  "newest_of as = foldl (\<lambda>best a. case best of
       None \<Rightarrow> Some a | Some b \<Rightarrow> if sa_recorded_at b \<le> sa_recorded_at a then Some a else Some b) None as"

definition newest_acknowledgement ::
    "('v, 'w) release_ops \<Rightarrow> str \<Rightarrow> str \<Rightarrow> 'w release_world \<Rightarrow> releases_error + str option" where
  "newest_acknowledgement ops identity target w =
     and_then (read_record ops identity w) (\<lambda>r.
       Ok (case map_of (rec_acknowledgements r) target of
             None \<Rightarrow> None
           | Some l \<Rightarrow> map_option sa_version (newest_of (map snd l))))"

section \<open>Asking a probe\<close>

definition outcome_of :: "release_answer \<Rightarrow> str" where
  "outcome_of a = (case a of ReleasedAt _ \<Rightarrow> ''released'' | NoRelease \<Rightarrow> ''no-release'' | NotAnswered _ \<Rightarrow> ''not-answered'')"

definition ask_probe ::
    "('v, 'w) release_ops \<Rightarrow> located \<Rightarrow> probe \<Rightarrow> 'w release_world \<Rightarrow> release_answer \<times> 'w release_world" where
  "ask_probe ops lc p w =
     (case (p, lc_checkout lc) of
        (ScriptProbe _ _ _, NoCheckoutAt why) \<Rightarrow> (NotAnswered why, w)
      | (ScriptProbe _ _ _, CheckoutAt base_dir) \<Rightarrow>
          (case run_probe ops p (Some base_dir) (outer w) of (e, u) \<Rightarrow> (probe_answer (is_utf8 ops) e, w\<lparr>outer := u\<rparr>))
      | (ShellProbe _ _, _) \<Rightarrow>
          (case run_probe ops p None (outer w) of (e, u) \<Rightarrow> (probe_answer (is_utf8 ops) e, w\<lparr>outer := u\<rparr>)))"

definition ask ::
    "('v, 'w) release_ops \<Rightarrow> located \<Rightarrow> release_target \<Rightarrow> probe \<Rightarrow> 'w release_world \<Rightarrow> release_answer \<times> 'w release_world" where
  "ask ops lc target p w =
     (case ask_probe ops lc p w of (a, w) \<Rightarrow>
       (a, emit_release (ReleaseProbed (rs_identity (lc_releases lc)) (rt_name target) (probe_form p) (outcome_of a)
             (case a of ReleasedAt v \<Rightarrow> Some v | _ \<Rightarrow> None)) w))"

definition target_answer ::
    "('v, 'w) release_ops \<Rightarrow> located \<Rightarrow> release_target \<Rightarrow> 'w release_world \<Rightarrow> (releases_error + release_answer) \<times> 'w release_world" where
  "target_answer ops lc target w =
     (case probe_of target of
        Some p \<Rightarrow> (case ask ops lc target p w of (a, w) \<Rightarrow> (Ok a, w))
      | None \<Rightarrow> (and_then (newest_acknowledgement ops (rs_identity (lc_releases lc)) (rt_name target) w) (\<lambda>v.
                   Ok (case v of Some v \<Rightarrow> ReleasedAt v | None \<Rightarrow> NoRelease)), w))"

definition latest ::
    "('v, 'w) release_ops \<Rightarrow> located \<Rightarrow> str option \<Rightarrow> 'w release_world \<Rightarrow> (releases_error + release_answer) \<times> 'w release_world" where
  "latest ops lc named w =
     (case select_target (lc_releases lc) named of
        Inl e \<Rightarrow> (Err e, w)
      | Inr target \<Rightarrow> target_answer ops lc target w)"

fun discover_each ::
    "('v, 'w) release_ops \<Rightarrow> located \<Rightarrow> release_target list \<Rightarrow> 'w release_world \<Rightarrow>
       (releases_error + (str \<times> release_style \<times> release_answer) list) \<times> 'w release_world" where
  "discover_each ops lc [] w = (Ok [], w)"
| "discover_each ops lc (t # ts) w =
     (case target_answer ops lc t w of
        (Inl e, w) \<Rightarrow> (Err e, w)
      | (Inr a, w) \<Rightarrow>
          (case discover_each ops lc ts w of
             (Inl e, w) \<Rightarrow> (Err e, w)
           | (Inr rest, w) \<Rightarrow> (Ok ((rt_name t, style_of t, a) # rest), w)))"

section \<open>Baselines\<close>

definition baseline_of_answer :: "str \<Rightarrow> release_answer \<Rightarrow> baseline_record" where
  "baseline_of_answer now a =
     (case a of
        ReleasedAt v \<Rightarrow> Established (BaselineAt v)
      | NoRelease \<Rightarrow> Established BaselineNoRelease
      | NotAnswered reason \<Rightarrow> Unestablished reason now)"

fun capture_each ::
    "('v, 'w) release_ops \<Rightarrow> located \<Rightarrow> str \<Rightarrow> str option \<Rightarrow> release_target list \<Rightarrow> 'w release_world \<Rightarrow>
       (releases_error + unit) \<times> 'w release_world" where
  "capture_each ops lc commit withheld [] w = (Ok (), w)"
| "capture_each ops lc commit withheld (t # ts) w =
     (let identity = rs_identity (lc_releases lc)
      in case probe_of t of
           None \<Rightarrow> capture_each ops lc commit withheld ts w
         | Some p \<Rightarrow>
      (case read_record ops identity w of
         Inl e \<Rightarrow> (Err e, w)
       | Inr r \<Rightarrow>
          (if filed_at (rec_baselines r) (rt_name t) commit \<noteq> None then capture_each ops lc commit withheld ts w
           else case (case withheld of
                  Some reason \<Rightarrow> write_baseline ops identity (rt_name t) commit (Unestablished reason (clock ops (outer w))) w
                | None \<Rightarrow> (case ask ops lc t p w of (a, w) \<Rightarrow>
                    write_baseline ops identity (rt_name t) commit (baseline_of_answer (clock ops (outer w)) a) w)) of
             (Inl e, w) \<Rightarrow> (Err e, w)
           | (Inr _, w) \<Rightarrow> capture_each ops lc commit withheld ts w)))"

definition capture_in ::
    "('v, 'w) release_ops \<Rightarrow> located \<Rightarrow> str \<Rightarrow> str option \<Rightarrow> 'w release_world \<Rightarrow> (releases_error + unit) \<times> 'w release_world" where
  "capture_in ops lc commit withheld w = capture_each ops lc commit withheld (rs_targets (lc_releases lc)) w"

text \<open>\<open>record_baselines\<close>: best effort at a landing.\<close>

definition record_baselines ::
    "('v, 'w) release_ops \<Rightarrow> releases_error + located \<Rightarrow> str \<Rightarrow> 'w release_world \<Rightarrow> 'w release_world" where
  "record_baselines ops found commit w =
     (case found of Inl _ \<Rightarrow> w | Inr lc \<Rightarrow> snd (capture_in ops lc commit None w))"

definition released_since :: "('v, 'w) release_ops \<Rightarrow> str \<Rightarrow> str \<Rightarrow> 'w \<Rightarrow> str option" where
  "released_since ops copath commit u =
     (case tags_containing ops copath commit u of
        Inr [] \<Rightarrow> None
      | Inr tags \<Rightarrow> Some (''the tag(s) '' @ join_with '', '' tags @ '' already contained it'')
      | Inl e \<Rightarrow> Some (''whether a release has been cut from it since could not be read: '' @ e))"

text \<open>A landing learned of after its publication ended: the checkout is fast-forwarded first, the
  baselines taken or withheld, and the landing recorded last.\<close>

definition reconcile_landing ::
    "('v, 'w) release_ops \<Rightarrow> store_error + resolution \<Rightarrow> located \<Rightarrow> str option \<Rightarrow> str \<Rightarrow> str \<Rightarrow>
       'w release_world \<Rightarrow> bool \<times> 'w release_world" where
  "reconcile_landing ops resolved lc recording commit url w =
     (case resolved of
        Inl _ \<Rightarrow> (False, w)
      | Inr res \<Rightarrow>
     (case fast_forward ops (res_publication res) (outer w) of
        (Inl _, u) \<Rightarrow> (False, w\<lparr>outer := u\<rparr>)
      | (Inr _, u) \<Rightarrow>
     (case capture_in ops lc commit (released_since ops (res_publication res) commit u) (w\<lparr>outer := u\<rparr>) of
        (Inl _, w) \<Rightarrow> (False, w)
      | (Inr _, w) \<Rightarrow>
          (case recording of
             None \<Rightarrow> (False, w)
           | Some token \<Rightarrow>
               (if opens_stream ops token (outer w)
                then (True, emit_release (ChangeMerged token url commit) w) else (False, w))))))"

section \<open>Whether a landing is released\<close>

datatype release_source = FromProbe | FromAcknowledgement

datatype release_status =
    IsReleased str release_style str release_source
  | IsNotReleased baseline str
  | AwaitingHumanStep str str str
  | IsNotAnswered str
  | IsNotLanded

datatype comparison = Greater | NotGreater | Unparseable str str

definition carries_release :: "('v::linorder, 'w) release_ops \<Rightarrow> str \<Rightarrow> str \<Rightarrow> comparison" where
  "carries_release ops at_landing now =
     (case version_of ops at_landing of
        None \<Rightarrow> Unparseable ''landing'' at_landing
      | Some l \<Rightarrow>
          (case version_of ops now of
             None \<Rightarrow> Unparseable ''current'' now
           | Some c \<Rightarrow> if l < c then Greater else NotGreater))"

definition say_released ::
    "('v, 'w) release_ops \<Rightarrow> located \<Rightarrow> release_target \<Rightarrow> str \<Rightarrow> str \<Rightarrow> 'w release_world \<Rightarrow>
       (releases_error + release_status) \<times> 'w release_world" where
  "say_released ops lc target commit v w =
     (case observe ops (rs_identity (lc_releases lc)) target commit v w of
        (Inl e, w) \<Rightarrow> (Err e, w)
      | (Inr _, w) \<Rightarrow> (Ok (IsReleased (rt_name target) (style_of target) v FromProbe), w))"

definition compare_release ::
    "('v::linorder, 'w) release_ops \<Rightarrow> located \<Rightarrow> release_target \<Rightarrow> str \<Rightarrow> baseline \<Rightarrow> release_answer \<Rightarrow> 'w release_world \<Rightarrow>
       (releases_error + release_status) \<times> 'w release_world" where
  "compare_release ops lc target commit established answer w =
     (case answer of
        NotAnswered reason \<Rightarrow> (Ok (IsNotAnswered reason), w)
      | NoRelease \<Rightarrow> (Ok (IsNotReleased established []), w)
      | ReleasedAt now \<Rightarrow>
          (case established of
             BaselineNoRelease \<Rightarrow> say_released ops lc target commit now w
           | BaselineAt v \<Rightarrow>
               (case carries_release ops v now of
                  Unparseable which bad \<Rightarrow> (Ok (IsNotAnswered (which @ '' version '' @ bad @ '' is not a semantic version'')), w)
                | Greater \<Rightarrow> say_released ops lc target commit now w
                | NotGreater \<Rightarrow> (Ok (IsNotReleased established now), w))))"

definition automated_status ::
    "('v::linorder, 'w) release_ops \<Rightarrow> located \<Rightarrow> release_target \<Rightarrow> probe \<Rightarrow> str \<Rightarrow> 'w release_world \<Rightarrow>
       (releases_error + release_status) \<times> 'w release_world" where
  "automated_status ops lc target p commit w =
     (let identity = rs_identity (lc_releases lc)
      in case read_record ops identity w of
           Inl e \<Rightarrow> (Err e, w)
         | Inr r \<Rightarrow>
      (case filed_at (rec_acknowledgements r) (rt_name target) commit of
         Some a \<Rightarrow> (Ok (IsReleased (rt_name target) (style_of target) (sa_version a) FromAcknowledgement), w)
       | None \<Rightarrow>
      (case ask ops lc target p w of
         (answer, w) \<Rightarrow>
      (case filed_at (rec_baselines r) (rt_name target) commit of
         Some (Established b) \<Rightarrow> compare_release ops lc target commit b answer w
       | _ \<Rightarrow>
          (case answer of
             NoRelease \<Rightarrow>
               (case establish ops identity (rt_name target) commit BaselineNoRelease w of
                  (Inl e, w) \<Rightarrow> (Err e, w)
                | (Inr _, w) \<Rightarrow> compare_release ops lc target commit BaselineNoRelease answer w)
           | _ \<Rightarrow> (Ok (IsNotAnswered ''no baseline was captured for the release target at the landing''), w))))))"

definition human_step_status ::
    "('v, 'w) release_ops \<Rightarrow> located \<Rightarrow> release_target \<Rightarrow> str \<Rightarrow> str \<Rightarrow> str option \<Rightarrow> 'w release_world \<Rightarrow> releases_error + release_status" where
  "human_step_status ops lc target action commit since w =
     and_then (read_record ops (rs_identity (lc_releases lc)) w) (\<lambda>r.
       case filed_at (rec_acknowledgements r) (rt_name target) commit of
         Some a \<Rightarrow> Ok (IsReleased (rt_name target) (style_of target) (sa_version a) FromAcknowledgement)
       | None \<Rightarrow>
           (case since of
              None \<Rightarrow> Ok (IsNotAnswered ''the landing is not readable in any repository this host holds'')
            | Some s \<Rightarrow> Ok (AwaitingHumanStep (rt_name target) action s)))"

text \<open>What the landing tiers answered, with when the landing was committed as the copy that answered has it.\<close>

record landing_answer =
  la_identity :: str
  la_landed :: landed_state
  la_unreadable :: "str list"
  la_stream :: "str option"
  la_since :: "str \<Rightarrow> str option"

definition landing_commit_of :: "landed_state \<Rightarrow> str option" where
  "landing_commit_of l = (case l of LandedYes e \<Rightarrow> Some (evidence_commit e) | LandedInPart e _ \<Rightarrow> Some (evidence_commit e)
     | _ \<Rightarrow> None)"

definition landed_change_url :: "landed_state \<Rightarrow> str option" where
  "landed_change_url l =
     (case (case l of LandedYes e \<Rightarrow> Some e | LandedInPart e _ \<Rightarrow> Some e | _ \<Rightarrow> None) of
        Some (ChangeRequestLanding _ url) \<Rightarrow> Some url | _ \<Rightarrow> None)"

definition release_status_of ::
    "('v::linorder, 'w) release_ops \<Rightarrow> store_error + resolution \<Rightarrow> releases_error + located \<Rightarrow> landing_answer \<Rightarrow> str option \<Rightarrow>
       'w release_world \<Rightarrow> (releases_error + release_status) \<times> 'w release_world" where
  "release_status_of ops resolved found la named w =
     (case found of
        Inl e \<Rightarrow> (Err e, w)
      | Inr lc \<Rightarrow>
     (case select_target (lc_releases lc) named of
        Inl e \<Rightarrow> (Err e, w)
      | Inr target \<Rightarrow>
     (case landing_commit_of (la_landed la) of
        None \<Rightarrow>
          (if la_unreadable la \<noteq> [] then (Ok (IsNotAnswered (join_with ''; '' (la_unreadable la))), w)
           else if la_landed la = LandedNo then (Ok IsNotLanded, w)
           else (Ok (IsNotAnswered ''nothing records that it reached its base''), w))
      | Some commit \<Rightarrow>
          (let w = (case landed_change_url (la_landed la) of
                      Some url \<Rightarrow> snd (reconcile_landing ops resolved lc (la_stream la) commit url w)
                    | None \<Rightarrow> w)
           in case rt_release target of
                Automated p \<Rightarrow> automated_status ops lc target p commit w
              | HumanStep action \<Rightarrow> (human_step_status ops lc target action commit (la_since la commit) w, w)))))"

section \<open>Acknowledging a release\<close>

definition ACTOR_ENV :: str where "ACTOR_ENV = ''ONEVCS_ACTOR''"
definition UNKNOWN_ACTOR :: str where "UNKNOWN_ACTOR = ''unknown''"

definition actor_of :: "(str \<rightharpoonup> str) \<Rightarrow> releases_error + str" where
  "actor_of env =
     (case env ACTOR_ENV of
        Some named \<Rightarrow> (if usable_actor (trim named) then Ok (trim named) else Err (ActorUnusable (trim named)))
      | None \<Rightarrow>
          Ok (case find_map (\<lambda>n. Option.bind (env n) (\<lambda>v. if usable_actor (trim v) then Some (trim v) else None))
                     [''USER'', ''LOGNAME''] of
                Some a \<Rightarrow> a | None \<Rightarrow> UNKNOWN_ACTOR))"

definition acknowledge ::
    "('v, 'w) release_ops \<Rightarrow> (str \<rightharpoonup> str) \<Rightarrow> releases_error + located \<Rightarrow> landed_state \<Rightarrow> str \<Rightarrow> str \<Rightarrow> bool \<Rightarrow>
       'w release_world \<Rightarrow> (releases_error + stored_acknowledgement) \<times> 'w release_world" where
  "acknowledge ops env found l target_named v supersede w =
     (case and_then found (\<lambda>lc. and_then (select_target (lc_releases lc) (Some target_named)) (\<lambda>target.
             and_then (case landing_commit_of l of
                 Some c \<Rightarrow> Ok c
               | None \<Rightarrow> if l = LandedNo then Err (NotLandedYet target_named) else Err (LandingUnknown target_named)) (\<lambda>commit.
             and_then (case probe_of target of
                 None \<Rightarrow> Ok ()
               | Some _ \<Rightarrow> and_then (read_record ops (rs_identity (lc_releases lc)) w) (\<lambda>r.
                   case filed_at (rec_baselines r) target_named commit of
                     Some (Established _) \<Rightarrow> Err (ProbeMustAnswer target_named) | _ \<Rightarrow> Ok ())) (\<lambda>_.
             and_then (if version_of ops v = None then Err (NotAVersion v) else Ok ()) (\<lambda>_.
             and_then (actor_of env) (\<lambda>actor. Ok (lc, target, commit, actor))))))) of
        Inl e \<Rightarrow> (Err e, w)
      | Inr (lc, target, commit, actor) \<Rightarrow>
          (let identity = rs_identity (lc_releases lc)
           in case write_acknowledgement ops identity target_named commit v actor supersede w of
                (Inl e, w) \<Rightarrow> (Err e, w)
              | (Inr (a, NothingWritten), w) \<Rightarrow> (Ok a, w)
              | (Inr (a, Correction old), w) \<Rightarrow>
                  (Ok a, emit_release (ReleaseAcknowledged identity target_named v commit actor (Some old)) w)
              | (Inr (a, FirstRecord), w) \<Rightarrow>
                  (case observe ops identity target commit v
                          (emit_release (ReleaseAcknowledged identity target_named v commit actor None) w) of
                     (Inl e, w) \<Rightarrow> (Err e, w)
                   | (Inr _, w) \<Rightarrow> (Ok a, w))))"

end
