(* ===== verification/Releasing.thy ===== *)
theory Releasing
  imports Release
begin

text \<open>
  What tracking releases guarantees: a change is answered released only on the evidence of a record, an
  unanswered question is never read as "not released", what is recorded is never lost or replaced by a
  later reading, a landing is observed as released once, and the layers of a repository's targets and the
  bounds of a document are as stated.
\<close>

section \<open>Documents\<close>

lemma into_probe_Ok:
  "into_probe reachable p = Ok q \<longleftrightarrow>
     (\<exists>bound. (case spr_timeout p of None \<Rightarrow> bound = DEFAULT_PROBE_TIMEOUT_SECONDS | Some n \<Rightarrow> bound = n \<and> 0 < n \<and> reachable n) \<and>
       ((\<exists>script. spr_script p = Some script \<and> spr_shell p = None \<and> relative_to_the_repository script = Ok () \<and>
           q = ScriptProbe script (case spr_args p of None \<Rightarrow> [] | Some a \<Rightarrow> a) bound \<and>
           (\<forall>a \<in> set (probe_args q). renders_on_one_line a)) \<or>
        (\<exists>shell. spr_script p = None \<and> spr_shell p = Some shell \<and> spr_args p = None \<and> trim shell \<noteq> [] \<and>
           renders_on_one_line shell \<and> q = ShellProbe shell bound)))"
  by (auto simp: into_probe_def and_then_Ok Let_def find_None dest: find_SomeD split: option.splits if_splits)

lemma target_of_Ok:
  "target_of reachable s = Ok t \<longleftrightarrow>
     rt_name t = st_name s \<and> rt_instructions t = st_instructions s \<and>
     (case rt_release t of
        Automated q \<Rightarrow> st_style s = AutomatedStyle \<and> st_action s = None \<and>
          (\<exists>p. st_probe s = Some p \<and> into_probe reachable p = Ok q)
      | HumanStep a \<Rightarrow> st_style s = HumanStepStyle \<and> st_probe s = None \<and> st_action s = Some a \<and> trim a \<noteq> [] \<and>
          renders_on_one_line a \<and> char_count a \<le> MAX_ACTION)"
  by (cases t; cases "rt_release t"; cases "st_style s")
    (auto simp: target_of_def and_then_Ok ok_or_Ok split: option.splits if_splits)

text \<open>C16 What a release-targets document is accepted with is bounded: a probe's bound is above zero
  and one the clock can reach, a script stays inside the repository and its arguments are single
  lines, a shell probe is one line that is not blank, and a human step's action is one line of
  at most 200 characters.\<close>

theorem accepted_target_is_bounded:
  assumes "target_of reachable s = Ok t" "reachable DEFAULT_PROBE_TIMEOUT_SECONDS"
  shows "(\<forall>p. probe_of t = Some p \<longrightarrow> 0 < probe_bound p \<and> reachable (probe_bound p) \<and>
      (case p of
         ScriptProbe script args _ \<Rightarrow> \<not> is_absolute script \<and> ''..'' \<notin> set (split_on (CHR ''/'') script) \<and>
           (\<forall>a \<in> set args. \<not> any_control a)
       | ShellProbe shell _ \<Rightarrow> trim shell \<noteq> [] \<and> \<not> any_control shell)) \<and>
    (\<forall>a. action_of t = Some a \<longrightarrow> trim a \<noteq> [] \<and> \<not> any_control a \<and> char_count a \<le> 200)"
proof (cases "rt_release t")
  case (Automated q)
  then obtain p where p: "into_probe reachable p = Ok q" using assms(1) by (auto simp: target_of_Ok)
  have bound: "0 < probe_bound q \<and> reachable (probe_bound q)"
    using p assms(2) unfolding into_probe_Ok by (auto simp: DEFAULT_PROBE_TIMEOUT_SECONDS_def split: option.splits)
  have shape: "case q of ScriptProbe script args _ \<Rightarrow> \<not> is_absolute script \<and> ''..'' \<notin> set (split_on (CHR ''/'') script) \<and>
           (\<forall>a \<in> set args. \<not> any_control a)
       | ShellProbe shell _ \<Rightarrow> trim shell \<noteq> [] \<and> \<not> any_control shell"
    using p unfolding into_probe_Ok
    by (cases "spr_args p") (auto simp: relative_to_the_repository_def renders_on_one_line_def list_ex_iff split: if_splits)
  from Automated bound shape show ?thesis by (simp add: probe_of_def action_of_def)
next
  case (HumanStep a)
  then show ?thesis using assms(1)
    by (simp add: target_of_Ok probe_of_def action_of_def renders_on_one_line_def MAX_ACTION_def)
qed

text \<open>What a target is written as reads back as the target, for every target that was ever read.\<close>

lemma written_target_reads_back:
  assumes "target_of reachable s = Ok t" "reachable DEFAULT_PROBE_TIMEOUT_SECONDS"
  shows "target_of reachable (written_target t) = Ok t"
proof (cases "rt_release t")
  case (Automated q)
  then obtain p where p: "into_probe reachable p = Ok q" using assms(1) by (auto simp: target_of_Ok)
  then have "into_probe reachable (written_probe q) = Ok q"
    using assms(2) unfolding into_probe_Ok
    by (auto simp: written_probe_def DEFAULT_PROBE_TIMEOUT_SECONDS_def split: option.splits)
  then show ?thesis using Automated
    by (simp add: target_of_Ok written_target_def style_of_def action_of_def probe_of_def)
next
  case (HumanStep a)
  then show ?thesis using assms(1)
    by (simp add: target_of_Ok written_target_def style_of_def action_of_def probe_of_def)
qed

section \<open>The three layers\<close>

definition named_in :: "release_target list \<Rightarrow> str \<Rightarrow> release_target option" where
  "named_in ts n = List.find (\<lambda>t. rt_name t = n) ts"

lemma named_in_append: "named_in (a @ b) n = (case named_in a n of Some t \<Rightarrow> Some t | None \<Rightarrow> named_in b n)"
  unfolding named_in_def by (induction a) auto

lemma named_in_one: "named_in [t] n = (if n = rt_name t then Some t else None)"
  by (simp add: named_in_def)

lemma named_in_None: "named_in ts n = None \<longleftrightarrow> n \<notin> rt_name ` set ts"
  by (auto simp: named_in_def find_None)

lemma named_in_update:
  "position (\<lambda>k. rt_name k = rt_name t) ts = Some i \<Longrightarrow>
     named_in (ts[i := t]) n = (if n = rt_name t then Some t else named_in ts n) \<and>
     map rt_name (ts[i := t]) = map rt_name ts \<and> rt_name t \<in> rt_name ` set ts"
proof (induction ts arbitrary: i)
  case (Cons k ts)
  then show ?case by (cases i) (auto simp: named_in_def split: if_splits)
qed simp

lemma lay_named:
  "lay t (ts, sources) = (ts', sources') \<Longrightarrow>
     named_in ts' n = (if n = rt_name t then Some t else named_in ts n) \<and>
     map rt_name ts' = map rt_name ts @ (if rt_name t \<in> rt_name ` set ts then [] else [rt_name t]) \<and>
     sources' = sources(rt_name t \<mapsto> if rt_name t \<in> rt_name ` set ts then FromOverride else FromHost)"
proof (cases "position (\<lambda>k. rt_name k = rt_name t) ts")
  case None
  then have "rt_name t \<notin> rt_name ` set ts" by (auto simp: position_None)
  moreover assume "lay t (ts, sources) = (ts', sources')"
  ultimately show ?thesis using None named_in_None [of ts "rt_name t"]
    by (auto simp: lay_def named_in_append named_in_one split: option.splits)
next
  case (Some i)
  assume "lay t (ts, sources) = (ts', sources')"
  then show ?thesis using Some named_in_update [OF Some] by (auto simp: lay_def)
qed

lemma first_twice_None: "first_twice known ts = None \<longleftrightarrow> distinct (map rt_name ts) \<and> set known \<inter> rt_name ` set ts = {}"
  by (induction known ts rule: first_twice.induct) auto

lemma lay_all:
  assumes "fold lay hs (ts, sources) = (ts', sources')" "distinct (map rt_name hs)"
  shows "(\<forall>n. named_in ts' n = (case named_in hs n of Some t \<Rightarrow> Some t | None \<Rightarrow> named_in ts n)) \<and>
    map rt_name ts' = map rt_name ts @ filter (\<lambda>n. n \<notin> rt_name ` set ts) (map rt_name hs) \<and>
    (\<forall>n. sources' n = (if n \<in> rt_name ` set hs then Some (if n \<in> rt_name ` set ts then FromOverride else FromHost)
       else sources n))"
  using assms
proof (induction hs arbitrary: ts sources)
  case Nil
  then show ?case by (simp add: named_in_def)
next
  case (Cons h hs)
  obtain ts1 s1 where one: "lay h (ts, sources) = (ts1, s1)" by force
  note step = lay_named [OF one]
  have rest: "fold lay hs (ts1, s1) = (ts', sources')" using Cons.prems(1) one by simp
  have fresh: "rt_name h \<notin> rt_name ` set hs" "distinct (map rt_name hs)" using Cons.prems(2) by auto
  note IH = Cons.IH [OF rest fresh(2)]
  have names1: "rt_name ` set ts1 = insert (rt_name h) (rt_name ` set ts)"
    using arg_cong [OF conjunct1 [OF conjunct2 [OF step]], of set] by (auto split: if_splits)
  have "filter (\<lambda>n. n \<notin> rt_name ` set ts1) (map rt_name hs) = filter (\<lambda>n. n \<notin> rt_name ` set ts) (map rt_name hs)"
    unfolding names1 using fresh(1) by (intro filter_cong) (auto, metis imageI)
  moreover have "named_in (h # hs) n = (if n = rt_name h then Some h else named_in hs n)" for n
    by (auto simp: named_in_def)
  moreover have "named_in hs (rt_name h) = None" using fresh(1) by (simp add: named_in_None)
  ultimately show ?case using IH step fresh(1) unfolding names1 by (auto split: option.splits)
qed

text \<open>C15 What a repository releases is the producer's declaration with the host's rule laid over it:
  a target the host names is the host's, wherever the producer declares it, and every other
  target the producer declares survives; the producer's come first and in its own order, then
  the host's in theirs, no name twice; and each target is said to come from the layer it came
  from. A declaration that could not be read, or that the rule ignores, contributes nothing.\<close>

theorem targets_resolve_in_layers:
  assumes "resolve_targets (Some rule) d = (ts, sources)" "first_twice [] (rr_targets rule) = None"
    "base = (if rr_declaration rule = Some IgnoreDeclaration then []
       else case declared_of d of None \<Rightarrow> [] | Some r \<Rightarrow> map (from_declaration r) (dc_targets r))"
  shows "(\<forall>n. named_in ts n = (case named_in (rr_targets rule) n of Some t \<Rightarrow> Some t | None \<Rightarrow> named_in base n)) \<and>
    map rt_name ts = map rt_name base @ filter (\<lambda>n. n \<notin> rt_name ` set base) (map rt_name (rr_targets rule)) \<and>
    (distinct (map rt_name base) \<longrightarrow> distinct (map rt_name ts)) \<and>
    (\<forall>n. sources n =
       (if n \<in> rt_name ` set (rr_targets rule) then Some (if n \<in> rt_name ` set base then FromOverride else FromHost)
        else if n \<in> rt_name ` set base then Some FromDeclaration else None))"
proof -
  have hosts: "distinct (map rt_name (rr_targets rule))"
    using assms(2) first_twice_None by blast
  have "fold lay (rr_targets rule) (base, \<lambda>n. if n \<in> rt_name ` set base then Some FromDeclaration else None) = (ts, sources)"
    using assms(1,3) by (cases "rr_declaration rule"; cases "the (rr_declaration rule)"; cases "declared_of d")
      (auto simp: resolve_targets_def Let_def)
  from lay_all [OF this hosts] show ?thesis using hosts by (auto simp: distinct_filter)
qed

theorem targets_resolve_in_layers_witness:
  "map rt_name (fst (resolve_targets (Some \<lparr>rr_match = \<lparr>match_host = None, match_owner = None, match_name = None, match_path = None\<rparr>,
       rr_adoption = None, rr_default = None, rr_declaration = None,
       rr_targets = [\<lparr>rt_name = ''b'', rt_release = HumanStep ''go'', rt_instructions = None\<rparr>]\<rparr>)
     (DeclaredIn ''f'' \<lparr>dc_probe = None, dc_targets = [\<lparr>dt_name = ''b'', dt_id = ''x'', dt_instructions = None\<rparr>,
        \<lparr>dt_name = ''a'', dt_id = ''y'', dt_instructions = None\<rparr>]\<rparr>))) = [''b'', ''a'']"
proof -
  let ?rule = "\<lparr>rr_match = \<lparr>match_host = None, match_owner = None, match_name = None, match_path = None\<rparr>,
       rr_adoption = None, rr_default = None, rr_declaration = None,
       rr_targets = [\<lparr>rt_name = ''b'', rt_release = HumanStep ''go'', rt_instructions = None\<rparr>]\<rparr>"
  let ?d = "DeclaredIn ''f'' \<lparr>dc_probe = None, dc_targets = [\<lparr>dt_name = ''b'', dt_id = ''x'', dt_instructions = None\<rparr>,
        \<lparr>dt_name = ''a'', dt_id = ''y'', dt_instructions = None\<rparr>]\<rparr>"
  obtain ts sources where r: "resolve_targets (Some ?rule) ?d = (ts, sources)" by force
  have "first_twice [] (rr_targets ?rule) = None" by simp
  from targets_resolve_in_layers [OF r this refl] r show ?thesis
    by (simp add: declared_of_def from_declaration_def)
qed

theorem accepted_target_is_bounded_witness:
  "0 < probe_bound (ScriptProbe ''s/latest'' [''x''] 9) \<and> \<not> is_absolute ''s/latest'' \<and> \<not> any_control ''x''"
proof -
  let ?t = "\<lparr>rt_name = ''crate'', rt_release = Automated (ScriptProbe ''s/latest'' [''x''] 9), rt_instructions = None\<rparr>"
  have "target_of (\<lambda>n. n \<le> 600) \<lparr>st_name = ''crate'', st_style = AutomatedStyle,
      st_probe = Some \<lparr>spr_script = Some ''s/latest'', spr_args = Some [''x''], spr_shell = None, spr_timeout = Some 9\<rparr>,
      st_action = None, st_instructions = None\<rparr> = Ok ?t"
    by code_simp
  from accepted_target_is_bounded [OF this] show ?thesis by (simp add: DEFAULT_PROBE_TIMEOUT_SECONDS_def probe_of_def)
qed

section \<open>What is recorded stays\<close>

lemma filed_at_file_at [simp]:
  "filed_at (file_at t c a f) t' c' = (if t' = t \<and> c' = c then Some a else filed_at f t' c')"
  by (auto simp: filed_at_def file_at_def split: option.splits)

lemma bt_insert_within: "set (bt_insert k v m) \<subseteq> insert (k, v) (set m)"
  by (induction k v m rule: bt_insert.induct) (auto split: if_splits)

lemma all_filed_file_at: "all_filed p f \<Longrightarrow> p a \<Longrightarrow> all_filed p (file_at t c a f)"
  unfolding all_filed_def file_at_def list_all_iff
  by (fastforce split: option.splits dest!: subsetD [OF bt_insert_within] dest: map_of_SomeD)

lemma all_filed_at: "all_filed p f \<Longrightarrow> filed_at f t c = Some a \<Longrightarrow> p a"
  by (auto simp: all_filed_def filed_at_def list_all_iff split: Option.bind_splits dest!: map_of_SomeD)

definition history :: "stored_acknowledgement \<Rightarrow> superseded_release list" where
  "history a = sa_superseded a @ [\<lparr>sv_version = sa_version a, sv_recorded_at = sa_recorded_at a, sv_actor = sa_actor a\<rparr>]"

text \<open>A later record keeps an earlier one: an established baseline and an observed version as they were, a
  baseline that could not be established as it was or repaired by the one answer that repairs it, and
  every version ever acknowledged in the history of its acknowledgement.\<close>

definition record_kept :: "release_record \<Rightarrow> release_record \<Rightarrow> bool" where
  "record_kept r r' \<longleftrightarrow> rec_identity r' = rec_identity r \<and> rec_version r' = rec_version r \<and> rec_carried r' = rec_carried r \<and>
     (\<forall>t c b. filed_at (rec_baselines r) t c = Some b \<longrightarrow>
        filed_at (rec_baselines r') t c = Some b \<or>
        (\<exists>reason time. b = Unestablished reason time \<and> filed_at (rec_baselines r') t c = Some (Established BaselineNoRelease))) \<and>
     (\<forall>t c v. filed_at (rec_observed r) t c = Some v \<longrightarrow> filed_at (rec_observed r') t c = Some v) \<and>
     (\<forall>t c a. filed_at (rec_acknowledgements r) t c = Some a \<longrightarrow>
        (\<exists>a'. filed_at (rec_acknowledgements r') t c = Some a' \<and> (\<exists>later. history a' = history a @ later)))"

lemma record_kept_refl [simp]: "record_kept r r"
  by (simp add: record_kept_def)

lemma record_kept_trans:
  assumes "record_kept a b" "record_kept b c"
  shows "record_kept a c"
proof -
  have "\<exists>z. filed_at (rec_acknowledgements c) t k = Some z \<and> (\<exists>later. history z = history x @ later)"
    if "filed_at (rec_acknowledgements a) t k = Some x" for t k x
    using assms that unfolding record_kept_def by (metis append.assoc)
  moreover have "filed_at (rec_baselines c) t k = Some b' \<or>
        (\<exists>reason time. b' = Unestablished reason time \<and> filed_at (rec_baselines c) t k = Some (Established BaselineNoRelease))"
    if "filed_at (rec_baselines a) t k = Some b'" for t k b'
    using assms that unfolding record_kept_def by (metis baseline_record.distinct(1))
  ultimately show ?thesis using assms unfolding record_kept_def by simp
qed

definition observed_here :: "('v, 'w) release_ops \<Rightarrow> 'w release_world \<Rightarrow> str \<Rightarrow> str \<Rightarrow> str \<Rightarrow> bool" where
  "observed_here ops w i t c \<longleftrightarrow>
     (\<exists>r. records w (record_path ops i) = Some (RecordDoc r) \<and> rec_identity r = i \<and> filed_at (rec_observed r) t c \<noteq> None)"

definition says_observed :: "str \<Rightarrow> str \<Rightarrow> str \<Rightarrow> release_event \<Rightarrow> bool" where
  "says_observed i t c e \<longleftrightarrow> (\<exists>style v. e = ReleaseObserved i t style v c)"

text \<open>One step of the world: every record is kept, one that cannot be read is not touched, what was sent stays sent, and a landing is announced as
  observed only by the step that put it on the record.\<close>

definition advances :: "('v, 'w) release_ops \<Rightarrow> 'w release_world \<Rightarrow> 'w release_world \<Rightarrow> bool" where
  "advances ops w w' \<longleftrightarrow>
     (\<forall>p r. records w p = Some (RecordDoc r) \<longrightarrow> (\<exists>r'. records w' p = Some (RecordDoc r') \<and> record_kept r r')) \<and>
     (\<forall>p e. records w p = Some (RecordUnreadable e) \<longrightarrow> records w' p = Some (RecordUnreadable e)) \<and>
     (\<forall>p r. records w p = Some (RecordDoc r) \<longrightarrow> \<not> usable_record (is_version ops) r \<longrightarrow> records w' p = Some (RecordDoc r)) \<and>
     (\<exists>es. sent w' = sent w @ es \<and>
        (\<forall>i t c. length (filter (says_observed i t c) es) \<le> (if \<not> observed_here ops w i t c \<and> observed_here ops w' i t c then 1 else 0)))"

lemma advances_refl [simp]: "advances ops w w"
  by (simp add: advances_def)

lemma observed_stays: "advances ops w w' \<Longrightarrow> observed_here ops w i t c \<Longrightarrow> observed_here ops w' i t c"
  unfolding advances_def observed_here_def record_kept_def by fastforce

lemma advances_trans:
  assumes "advances ops a b" "advances ops b c"
  shows "advances ops a c"
proof -
  obtain es fs where es: "sent b = sent a @ es" "sent c = sent b @ fs"
    "\<forall>i t k. length (filter (says_observed i t k) es) \<le> (if \<not> observed_here ops a i t k \<and> observed_here ops b i t k then 1 else 0)"
    "\<forall>i t k. length (filter (says_observed i t k) fs) \<le> (if \<not> observed_here ops b i t k \<and> observed_here ops c i t k then 1 else 0)"
    using assms unfolding advances_def by blast
  have "length (filter (says_observed i t k) (es @ fs)) \<le> (if \<not> observed_here ops a i t k \<and> observed_here ops c i t k then 1 else 0)"
    for i t k
    using es(3) [rule_format, of i t k] es(4) [rule_format, of i t k] observed_stays [OF assms(1), of i t k]
      observed_stays [OF assms(2), of i t k]
    by (auto split: if_splits)
  moreover have "\<exists>r''. records c p = Some (RecordDoc r'') \<and> record_kept r r''" if "records a p = Some (RecordDoc r)" for p r
  proof -
    obtain r1 where r1: "records b p = Some (RecordDoc r1)" "record_kept r r1"
      using assms(1) \<open>records a p = Some (RecordDoc r)\<close> unfolding advances_def by blast
    obtain r2 where r2: "records c p = Some (RecordDoc r2)" "record_kept r1 r2"
      using assms(2) r1(1) unfolding advances_def by blast
    show ?thesis using r2(1) record_kept_trans [OF r1(2) r2(2)] by blast
  qed
  moreover have "records c p = Some (RecordUnreadable e)" if "records a p = Some (RecordUnreadable e)" for p e
    using assms that unfolding advances_def by blast
  moreover have "records c p = Some (RecordDoc r)" if "records a p = Some (RecordDoc r)" "\<not> usable_record (is_version ops) r" for p r
    using assms that unfolding advances_def by blast
  moreover have "sent c = sent a @ (es @ fs)" using es(1,2) by simp
  ultimately show ?thesis unfolding advances_def by blast
qed

lemma advances_outer [simp]: "advances ops w (w\<lparr>outer := u\<rparr>)"
  by (auto simp: advances_def observed_here_def)

lemma advances_sent:
  assumes "\<forall>i t c. \<not> says_observed i t c e"
  shows "advances ops w (emit_release e w)"
  using assms by (auto simp: advances_def emit_release_def observed_here_def)

lemma read_record_cases:
  assumes "read_record ops i w = Ok r"
  obtains "records w (record_path ops i) = None" "r = empty_record i"
    | "records w (record_path ops i) = Some (RecordDoc r)" "rec_identity r = i" "RECORD_VERSION \<le> rec_version r"
        "usable_record (is_version ops) r"
  using assms by (auto simp: read_record_def split: option.splits record_doc.splits if_splits)

lemma read_record_identity: "read_record ops i w = Ok r \<Longrightarrow> rec_identity r = i \<and> RECORD_VERSION \<le> rec_version r \<and>
    usable_record (is_version ops) r"
  by (erule read_record_cases) (auto simp: empty_record_def usable_record_def all_filed_def)

lemma update_cases:
  assumes "update_record ops i change w = (r, w')"
  shows "(\<exists>e. r = Err e \<and> w' = w) \<or>
    (\<exists>a b x. r = Ok x \<and> read_record ops i w = Ok a \<and> change a = Ok (b, x) \<and>
       w' = w\<lparr>records := (records w)(record_path ops i \<mapsto> RecordDoc b)\<rparr>)"
proof -
  define out where "out = and_then (lock_record ops i (outer w)) (\<lambda>_. and_then (read_record ops i w) (\<lambda>r.
    and_then (change r) (\<lambda>(r, t). and_then (write_record ops i (outer w)) (\<lambda>_. Ok (r, t)))))"
  have eq: "(case out of Inl e \<Rightarrow> (Err e, w)
      | Inr (r, t) \<Rightarrow> (Ok t, w\<lparr>records := (records w)(record_path ops i \<mapsto> RecordDoc r)\<rparr>)) = (r, w')"
    using assms unfolding update_record_def out_def .
  show ?thesis
  proof (cases out)
    case (Inl e)
    with eq show ?thesis by auto
  next
    case (Inr p)
    obtain b x where p: "p = (b, x)" by force
    from Inr obtain a where a: "read_record ops i w = Ok a" "change a = Ok (b, x)"
      unfolding out_def p by (auto simp: and_then_Ok)
    from eq Inr p have "r = Ok x" "w' = w\<lparr>records := (records w)(record_path ops i \<mapsto> RecordDoc b)\<rparr>" by auto
    with a show ?thesis by blast
  qed
qed

text \<open>An update that keeps the record it read moves the world forward, whatever it answers; it observes
  nothing unless the change it makes does.\<close>

lemma update_advances:
  assumes "update_record ops i change w = (r, w')"
    "\<And>a b x. read_record ops i w = Ok a \<Longrightarrow> change a = Ok (b, x) \<Longrightarrow> record_kept a b"
  shows "advances ops w w'" "sent w' = sent w" "outer w' = outer w"
    "\<And>j t c. observed_here ops w' j t c \<Longrightarrow> \<not> observed_here ops w j t c \<Longrightarrow>
       \<exists>a b x. r = Ok x \<and> j = i \<and> change a = Ok (b, x) \<and> read_record ops i w = Ok a \<and> filed_at (rec_observed a) t c = None \<and>
         filed_at (rec_observed b) t c \<noteq> None"
proof -
  consider e where "r = Err e" "w' = w"
    | a b x where "r = Ok x" "read_record ops i w = Ok a" "change a = Ok (b, x)"
        "w' = w\<lparr>records := (records w)(record_path ops i \<mapsto> RecordDoc b)\<rparr>"
    using update_cases [OF assms(1)] by blast
  then have "advances ops w w' \<and> sent w' = sent w \<and> outer w' = outer w \<and>
    (\<forall>j t c. observed_here ops w' j t c \<longrightarrow> \<not> observed_here ops w j t c \<longrightarrow>
       (\<exists>a b x. r = Ok x \<and> j = i \<and> change a = Ok (b, x) \<and> read_record ops i w = Ok a \<and> filed_at (rec_observed a) t c = None \<and>
         filed_at (rec_observed b) t c \<noteq> None))"
  proof cases
    case (2 a b x)
    have kept: "record_kept a b" by (rule assms(2) [OF 2(2,3)])
    have ib: "rec_identity b = i" using kept read_record_identity [OF 2(2)] by (simp add: record_kept_def)
    have here: "records w (record_path ops i) = None \<or> records w (record_path ops i) = Some (RecordDoc a)"
      by (rule read_record_cases [OF 2(2)]) simp_all
    have docs: "\<exists>r'. records w' p = Some (RecordDoc r') \<and> record_kept y r'" if "records w p = Some (RecordDoc y)" for p y
    proof (cases "p = record_path ops i")
      case True
      then have "y = a" using that here by auto
      then show ?thesis using True 2(4) kept by simp
    next
      case False
      then show ?thesis using that 2(4) by simp
    qed
    have unread: "records w' p = Some (RecordUnreadable e)" if "records w p = Some (RecordUnreadable e)" for p e
      using that here 2(4) by (cases "p = record_path ops i") auto
    have unusable: "records w' p = Some (RecordDoc y)"
      if "records w p = Some (RecordDoc y)" "\<not> usable_record (is_version ops) y" for p y
      using that here 2(4) read_record_identity [OF 2(2)] by (cases "p = record_path ops i") auto
    have new: "j = i \<and> filed_at (rec_observed a) t c = None \<and> filed_at (rec_observed b) t c \<noteq> None"
      if "observed_here ops w' j t c" "\<not> observed_here ops w j t c" for j t c
    proof (cases "record_path ops j = record_path ops i")
      case True
      from that(1) obtain x where x: "records w' (record_path ops j) = Some (RecordDoc x)" "rec_identity x = j"
        "filed_at (rec_observed x) t c \<noteq> None" unfolding observed_here_def by blast
      have "x = b" using x(1) 2(4) True by simp
      then have j: "j = i" "filed_at (rec_observed b) t c \<noteq> None" using x(2,3) ib by simp_all
      have "filed_at (rec_observed a) t c = None"
      proof (rule read_record_cases [OF 2(2)])
        assume "records w (record_path ops i) = Some (RecordDoc a)" "rec_identity a = i"
        then show ?thesis using that(2) j(1) unfolding observed_here_def by blast
      qed (simp add: empty_record_def filed_at_def)
      with j show ?thesis by simp
    next
      case False
      with that 2(4) show ?thesis by (simp add: observed_here_def)
    qed
    have "sent w' = sent w" "outer w' = outer w" using 2(4) by simp_all
    then have "advances ops w w'" unfolding advances_def using docs unread unusable by simp
    then show ?thesis using new 2(1-3) \<open>sent w' = sent w\<close> \<open>outer w' = outer w\<close> by blast
  qed auto
  then show "advances ops w w'" "sent w' = sent w" "outer w' = outer w"
    "\<And>j t c. observed_here ops w' j t c \<Longrightarrow> \<not> observed_here ops w j t c \<Longrightarrow>
       \<exists>a b x. r = Ok x \<and> j = i \<and> change a = Ok (b, x) \<and> read_record ops i w = Ok a \<and> filed_at (rec_observed a) t c = None \<and>
         filed_at (rec_observed b) t c \<noteq> None" by blast+
qed

lemma write_baseline_advances:
  assumes "write_baseline ops i t c b w = (r, w')"
  shows "advances ops w w'"
proof (rule update_advances(1) [OF assms [unfolded write_baseline_def]])
  fix a b' :: release_record and x
  assume "Ok (case filed_at (rec_baselines a) t c of Some _ \<Rightarrow> a
      | None \<Rightarrow> a\<lparr>rec_baselines := file_at t c b (rec_baselines a)\<rparr>, ()) = Ok (b', x)"
  then show "record_kept a b'" by (auto simp: record_kept_def split: option.splits if_splits)
qed

lemma read_record_same: "records w' = records w \<Longrightarrow> read_record ops i w' = read_record ops i w"
  by (simp add: read_record_def)

text \<open>Only a baseline that is not established is established later.\<close>

lemma establish_advances:
  assumes "establish ops i t c BaselineNoRelease w = (r, w')" "read_record ops i w = Ok before"
    "\<forall>b. filed_at (rec_baselines before) t c \<noteq> Some (Established b)"
  shows "advances ops w w'"
proof (rule update_advances(1) [OF assms(1) [unfolded establish_def]])
  fix a b :: release_record and x
  assume "read_record ops i w = Ok a"
    "Ok (a\<lparr>rec_baselines := file_at t c (Established BaselineNoRelease) (rec_baselines a)\<rparr>, ()) = Ok (b, x)"
  then have ab: "b = before\<lparr>rec_baselines := file_at t c (Established BaselineNoRelease) (rec_baselines before)\<rparr>" "a = before"
    using assms(2) by auto
  have "\<exists>reason time. y = Unestablished reason time" if "filed_at (rec_baselines before) t c = Some y" for y
    using assms(3) that by (cases y) auto
  then show "record_kept a b" unfolding ab by (auto simp: record_kept_def)
qed

lemma observe_advances:
  assumes "observe ops i target c v w = (r, w')"
  shows "advances ops w w'"
proof -
  define change where "change = (\<lambda>r. case filed_at (rec_observed r) (rt_name target) c of
      Some _ \<Rightarrow> Ok (r, False) :: releases_error + release_record \<times> bool
    | None \<Rightarrow> Ok (r\<lparr>rec_observed := file_at (rt_name target) c v (rec_observed r)\<rparr>, True))"
  obtain x w1 where u: "update_record ops i change w = (x, w1)" by force
  have w': "w' = (if x = Ok True then emit_release (ReleaseObserved i (rt_name target) (style_str (style_of target)) v c) w1 else w1)"
    using assms u unfolding observe_def change_def [symmetric] by (auto split: sum.splits)
  have kept: "record_kept a b" if "change a = Ok (b, y)" for a b y
    using that by (auto simp: record_kept_def change_def split: option.splits)
  note adv = update_advances(1,2) [OF u kept]
  show ?thesis
  proof (cases "x = Ok True")
    case False
    then show ?thesis using w' adv by simp
  next
    case True
    from update_cases [OF u] True obtain a b where ab: "read_record ops i w = Ok a" "change a = Ok (b, True)"
      "w1 = w\<lparr>records := (records w)(record_path ops i \<mapsto> RecordDoc b)\<rparr>" by auto
    then have new: "filed_at (rec_observed a) (rt_name target) c = None" "filed_at (rec_observed b) (rt_name target) c = Some v"
      "rec_identity b = i"
      using read_record_identity [OF ab(1)] by (auto simp: change_def split: option.splits)
    have "observed_here ops w1 i (rt_name target) c" using ab(3) new by (simp add: observed_here_def)
    moreover have "\<not> observed_here ops w i (rt_name target) c"
      by (rule read_record_cases [OF ab(1)]) (use new(1) in \<open>simp_all add: observed_here_def\<close>)
    ultimately have "advances ops w (emit_release (ReleaseObserved i (rt_name target) (style_str (style_of target)) v c) w1)"
      using adv by (auto simp: advances_def emit_release_def says_observed_def observed_here_def)
    then show ?thesis using w' True by simp
  qed
qed

lemma write_acknowledgement_advances:
  assumes "write_acknowledgement ops i t c v actor supersede w = (r, w')"
  shows "advances ops w w'"
proof (rule update_advances(1) [OF assms [unfolded write_acknowledgement_def]])
  fix a b :: release_record and x
  assume "(let keep = (\<lambda>s. a\<lparr>rec_acknowledgements := file_at t c s (rec_acknowledgements a)\<rparr>);
           fresh = (\<lambda>before. \<lparr>sa_version = v, sa_recorded_at = clock ops (outer w), sa_actor = actor, sa_superseded = before\<rparr>)
       in case filed_at (rec_acknowledgements a) t c of
            Some e \<Rightarrow>
              (if sa_version e = v then Ok (a, e, NothingWritten)
               else if \<not> supersede then Err (AlreadyAcknowledged (sa_version e))
               else let s = fresh (sa_superseded e @
                      [\<lparr>sv_version = sa_version e, sv_recorded_at = sa_recorded_at e, sv_actor = sa_actor e\<rparr>])
                    in Ok (keep s, s, Correction (sa_version e)))
          | None \<Rightarrow> (let s = fresh [] in Ok (keep s, s, FirstRecord))) = Ok (b, x)"
  then show "record_kept a b"
    by (auto simp: record_kept_def history_def Let_def split: option.splits if_splits)
qed

text \<open>Asking a probe moves the outer world and is announced; nothing it answers reaches a record by itself.\<close>

lemma ask_steps:
  assumes "ask ops lc target p w = (a, w')"
  shows "records w' = records w" "advances ops w w'"
    "ReleaseProbed (rs_identity (lc_releases lc)) (rt_name target) (probe_form p) (outcome_of a)
       (case a of ReleasedAt v \<Rightarrow> Some v | _ \<Rightarrow> None) \<in> set (sent w')"
proof -
  obtain w1 where w1: "ask_probe ops lc p w = (a, w1)"
    "w' = emit_release (ReleaseProbed (rs_identity (lc_releases lc)) (rt_name target) (probe_form p) (outcome_of a)
       (case a of ReleasedAt v \<Rightarrow> Some v | _ \<Rightarrow> None)) w1"
    using assms by (auto simp: ask_def split: prod.splits)
  have "w1 = w \<or> (\<exists>u. w1 = w\<lparr>outer := u\<rparr>)"
    using w1(1) by (auto simp: ask_probe_def split: probe.splits probe_checkout.splits prod.splits)
  then have "records w1 = records w" "advances ops w w1" by auto
  then show "records w' = records w" "advances ops w w'"
    "ReleaseProbed (rs_identity (lc_releases lc)) (rt_name target) (probe_form p) (outcome_of a)
       (case a of ReleasedAt v \<Rightarrow> Some v | _ \<Rightarrow> None) \<in> set (sent w')"
    using w1(2) advances_trans [OF _ advances_sent] by (auto simp: emit_release_def says_observed_def)
qed

lemma target_answer_advances: "target_answer ops lc t w = (r, w') \<Longrightarrow> advances ops w w'"
  using ask_steps(2) by (fastforce simp: target_answer_def split: option.splits prod.splits)

lemma discover_advances: "discover_each ops lc ts w = (r, w') \<Longrightarrow> advances ops w w'"
proof (induction ts arbitrary: w r w')
  case (Cons t ts)
  obtain a w1 where one: "target_answer ops lc t w = (a, w1)" by force
  note step = target_answer_advances [OF one]
  obtain rest w2 where two: "discover_each ops lc ts w1 = (rest, w2)" by force
  note step2 = advances_trans [OF step Cons.IH [OF two]]
  show ?case using Cons.prems one two step step2 by (cases a; cases rest) auto
qed simp

lemma capture_advances: "capture_each ops lc c withheld ts w = (r, w') \<Longrightarrow> advances ops w w'"
proof (induction ts arbitrary: w r w')
  case (Cons t ts)
  let ?i = "rs_identity (lc_releases lc)"
  show ?case
  proof (cases "probe_of t")
    case None
    then show ?thesis using Cons by simp
  next
    case probed: (Some p)
    show ?thesis
    proof (cases "read_record ops ?i w")
      case (Inl e)
      then show ?thesis using Cons.prems probed by simp
    next
      case before: (Inr before)
      show ?thesis
      proof (cases "filed_at (rec_baselines before) (rt_name t) c")
        case (Some b)
        then show ?thesis using Cons probed before by simp
      next
        case None
        define one where "one = (case withheld of
            Some reason \<Rightarrow> write_baseline ops ?i (rt_name t) c (Unestablished reason (clock ops (outer w))) w
          | None \<Rightarrow> (case ask ops lc t p w of (a, w) \<Rightarrow>
              write_baseline ops ?i (rt_name t) c (baseline_of_answer (clock ops (outer w)) a) w))"
        obtain x w1 where x: "one = (x, w1)" by force
        have step: "advances ops w w1"
          using x write_baseline_advances advances_trans ask_steps(2)
          unfolding one_def by (fastforce split: option.splits prod.splits)
        have "(r, w') = (case one of (Inl e, w) \<Rightarrow> (Err e, w) | (Inr _, w) \<Rightarrow> capture_each ops lc c withheld ts w)"
          using Cons.prems probed before None by (simp add: one_def Let_def)
        then show ?thesis
        proof (cases x)
          case (Inl e)
          then show ?thesis using \<open>(r, w') = _\<close> x step by simp
        next
          case (Inr y)
          then have "capture_each ops lc c withheld ts w1 = (r, w')" using \<open>(r, w') = _\<close> x by simp
          from advances_trans [OF step Cons.IH [OF this]] show ?thesis .
        qed
      qed
    qed
  qed
qed simp

lemma reconcile_advances:
  assumes "reconcile_landing ops res lc recording c url w = (b, w')"
  shows "advances ops w w'"
proof (cases res)
  case (Inl e)
  then show ?thesis using assms by (simp add: reconcile_landing_def)
next
  case (Inr y)
  obtain f u where f: "fast_forward ops (res_publication y) (outer w) = (f, u)" by force
  show ?thesis
  proof (cases f)
    case (Inl e)
    then show ?thesis using assms Inr f by (auto simp: reconcile_landing_def)
  next
    case ok: (Inr v)
    obtain x w1 where x: "capture_in ops lc c (released_since ops (res_publication y) c u) (w\<lparr>outer := u\<rparr>) = (x, w1)" by force
    have step: "advances ops w w1"
      using advances_trans [OF advances_outer capture_advances [OF x [unfolded capture_in_def]]] .
    have "w' = w1 \<or> (\<exists>token. w' = emit_release (ChangeMerged token url c) w1)"
      using assms Inr f ok x by (auto simp: reconcile_landing_def split: sum.splits option.splits if_splits)
    then show ?thesis using step advances_trans [OF step advances_sent] by (auto simp: says_observed_def)
  qed
qed

section \<open>What an answer rests on\<close>

definition passed :: "('v::linorder, 'w) release_ops \<Rightarrow> baseline \<Rightarrow> str \<Rightarrow> bool" where
  "passed ops b v \<longleftrightarrow> (case b of BaselineNoRelease \<Rightarrow> True | BaselineAt l \<Rightarrow> carries_release ops l v = Greater)"

definition probed_as :: "nat \<Rightarrow> str \<Rightarrow> str \<Rightarrow> release_answer \<Rightarrow> 'w release_world \<Rightarrow> bool" where
  "probed_as n i t a w \<longleftrightarrow>
     (\<exists>form. ReleaseProbed i t form (outcome_of a) (case a of ReleasedAt v \<Rightarrow> Some v | _ \<Rightarrow> None) \<in> set (drop n (sent w)))"

definition baseline_here :: "('v, 'w) release_ops \<Rightarrow> 'w release_world \<Rightarrow> str \<Rightarrow> str \<Rightarrow> str \<Rightarrow> baseline \<Rightarrow> bool" where
  "baseline_here ops w i t c b \<longleftrightarrow>
     (\<exists>r. read_record ops i w = Ok r \<and> filed_at (rec_baselines r) t c = Some (Established b))"

definition acknowledged_here :: "('v, 'w) release_ops \<Rightarrow> 'w release_world \<Rightarrow> str \<Rightarrow> str \<Rightarrow> str \<Rightarrow> str \<Rightarrow> bool" where
  "acknowledged_here ops w i t c v \<longleftrightarrow>
     (\<exists>r a. read_record ops i w = Ok r \<and> filed_at (rec_acknowledgements r) t c = Some a \<and> sa_version a = v)"

definition rests_on :: "('v::linorder, 'w) release_ops \<Rightarrow> nat \<Rightarrow> str \<Rightarrow> str \<Rightarrow> str \<Rightarrow> 'w release_world \<Rightarrow> release_status \<Rightarrow> bool" where
  "rests_on ops n i t c w st =
     (case st of
        IsReleased called _ v FromAcknowledgement \<Rightarrow> called = t \<and> acknowledged_here ops w i t c v
      | IsReleased called _ v FromProbe \<Rightarrow>
          called = t \<and> (\<exists>b. baseline_here ops w i t c b \<and> passed ops b v) \<and> probed_as n i t (ReleasedAt v) w
      | IsNotReleased b now \<Rightarrow> baseline_here ops w i t c b \<and>
          (now = [] \<and> probed_as n i t NoRelease w \<or>
           probed_as n i t (ReleasedAt now) w \<and> (\<exists>l. b = BaselineAt l \<and> carries_release ops l now = NotGreater))
      | AwaitingHumanStep called _ _ \<Rightarrow> called = t \<and> (\<forall>v. \<not> acknowledged_here ops w i t c v)
      | IsNotAnswered _ \<Rightarrow> True
      | IsNotLanded \<Rightarrow> False)"

lemma update_reads:
  assumes "update_record ops i change w = (Ok x, w')" "read_record ops i w = Ok a" "change a = Ok (b, x')"
    "rec_identity b = rec_identity a" "rec_version b = rec_version a" "usable_record (is_version ops) b"
  shows "read_record ops i w' = Ok b" "x' = x"
  using update_cases [OF assms(1)] assms(2-) read_record_identity [OF assms(2)]
  by (auto simp: read_record_def)

lemma observe_reads:
  assumes "observe ops i target c v w = (Ok (), w')" "read_record ops i w = Ok a"
  shows "\<exists>b. read_record ops i w' = Ok b \<and> rec_baselines b = rec_baselines a" "\<exists>es. sent w' = sent w @ es"
proof -
  define change where "change = (\<lambda>r. case filed_at (rec_observed r) (rt_name target) c of
      Some _ \<Rightarrow> Ok (r, False) :: releases_error + release_record \<times> bool
    | None \<Rightarrow> Ok (r\<lparr>rec_observed := file_at (rt_name target) c v (rec_observed r)\<rparr>, True))"
  obtain x w1 where u: "update_record ops i change w = (Ok x, w1)"
    using assms(1) unfolding observe_def change_def [symmetric] by (auto split: sum.splits prod.splits)
  have w': "w' = (if x then emit_release (ReleaseObserved i (rt_name target) (style_str (style_of target)) v c) w1 else w1)"
    using assms(1) u unfolding observe_def change_def [symmetric] by simp
  obtain b y where b: "change a = Ok (b, y)" by (cases "filed_at (rec_observed a) (rt_name target) c") (auto simp: change_def)
  then have same: "rec_identity b = rec_identity a" "rec_version b = rec_version a" "rec_baselines b = rec_baselines a"
      "rec_acknowledgements b = rec_acknowledgements a"
    by (auto simp: change_def split: option.splits)
  then have "usable_record (is_version ops) b" using read_record_identity [OF assms(2)] by (simp add: usable_record_def)
  from update_reads [OF u assms(2) b same(1,2) this] have "read_record ops i w1 = Ok b" by simp
  then have "read_record ops i w' = Ok b" using w' by (simp add: emit_release_def read_record_def)
  then show "\<exists>b. read_record ops i w' = Ok b \<and> rec_baselines b = rec_baselines a" using same(3) by blast
  have "sent w1 = sent w" using update_cases [OF u] by auto
  then show "\<exists>es. sent w' = sent w @ es" using w' by (auto simp: emit_release_def)
qed

lemma probed_as_mono: "probed_as n i t a w \<Longrightarrow> \<exists>es. sent w' = sent w @ es \<Longrightarrow> probed_as n i t a w'"
  unfolding probed_as_def by auto

lemma say_released_rests:
  assumes "say_released ops lc target c v w = (Ok st, w')" "baseline_here ops w (rs_identity (lc_releases lc)) (rt_name target) c b"
    "passed ops b v" "probed_as n (rs_identity (lc_releases lc)) (rt_name target) (ReleasedAt v) w"
  shows "rests_on ops n (rs_identity (lc_releases lc)) (rt_name target) c w' st"
proof -
  let ?i = "rs_identity (lc_releases lc)"
  obtain w1 where o': "observe ops ?i target c v w = (Ok (), w1)" "w' = w1" "st = IsReleased (rt_name target) (style_of target) v FromProbe"
    using assms(1) by (auto simp: say_released_def split: prod.splits sum.splits)
  obtain r where r: "read_record ops ?i w = Ok r" "filed_at (rec_baselines r) (rt_name target) c = Some (Established b)"
    using assms(2) by (auto simp: baseline_here_def)
  from observe_reads [OF o'(1) r(1)] r(2) o'(2) have "baseline_here ops w' ?i (rt_name target) c b"
    by (auto simp: baseline_here_def)
  then show ?thesis using o' assms(3) probed_as_mono [OF assms(4) observe_reads(2) [OF o'(1) r(1)]]
    by (auto simp: rests_on_def)
qed

lemma compare_release_rests:
  assumes "compare_release ops lc target c b a w = (Ok st, w')"
    "baseline_here ops w (rs_identity (lc_releases lc)) (rt_name target) c b"
    "probed_as n (rs_identity (lc_releases lc)) (rt_name target) a w"
  shows "rests_on ops n (rs_identity (lc_releases lc)) (rt_name target) c w' st"
proof (cases a)
  case (ReleasedAt v)
  show ?thesis
  proof (cases b)
    case (BaselineAt l)
    show ?thesis
    proof (cases "carries_release ops l v")
      case Greater
      with assms ReleasedAt BaselineAt show ?thesis
        by (intro say_released_rests [of ops lc target c v w]) (auto simp: compare_release_def passed_def)
    next
      case NotGreater
      with assms ReleasedAt BaselineAt show ?thesis by (auto simp: compare_release_def rests_on_def)
    next
      case (Unparseable which bad)
      with assms ReleasedAt BaselineAt show ?thesis by (auto simp: compare_release_def rests_on_def)
    qed
  next
    case BaselineNoRelease
    with assms ReleasedAt show ?thesis
      by (intro say_released_rests [of ops lc target c v w]) (auto simp: compare_release_def passed_def)
  qed
next
  case NoRelease
  with assms show ?thesis by (auto simp: compare_release_def rests_on_def)
next
  case (NotAnswered reason)
  with assms show ?thesis by (auto simp: compare_release_def rests_on_def)
qed

lemma ask_probed:
  assumes "ask ops lc target p w = (a, w')" "n \<le> length (sent w)"
  shows "probed_as n (rs_identity (lc_releases lc)) (rt_name target) a w'"
proof -
  obtain u where "ask_probe ops lc p w = (a, u)"
    "w' = emit_release (ReleaseProbed (rs_identity (lc_releases lc)) (rt_name target) (probe_form p) (outcome_of a)
       (case a of ReleasedAt v \<Rightarrow> Some v | _ \<Rightarrow> None)) u"
    using assms(1) by (auto simp: ask_def split: prod.splits)
  moreover from this(1) have "sent u = sent w"
    by (auto simp: ask_probe_def split: probe.splits probe_checkout.splits prod.splits)
  ultimately show ?thesis using assms(2) unfolding probed_as_def emit_release_def by auto
qed

text \<open>The reads of an automated target's status, one after the other.\<close>

lemma automated_status_cases:
  assumes "automated_status ops lc target p c w = (r, w')"
  obtains e where "read_record ops (rs_identity (lc_releases lc)) w = Err e" "r = Err e" "w' = w"
    | rec a where "read_record ops (rs_identity (lc_releases lc)) w = Ok rec"
        "filed_at (rec_acknowledgements rec) (rt_name target) c = Some a" "w' = w"
        "r = Ok (IsReleased (rt_name target) (style_of target) (sa_version a) FromAcknowledgement)"
    | rec answer w1 b where "read_record ops (rs_identity (lc_releases lc)) w = Ok rec"
        "ask ops lc target p w = (answer, w1)"
        "filed_at (rec_baselines rec) (rt_name target) c = Some (Established b)"
        "compare_release ops lc target c b answer w1 = (r, w')"
    | rec w1 x w2 where "read_record ops (rs_identity (lc_releases lc)) w = Ok rec"
        "ask ops lc target p w = (NoRelease, w1)"
        "\<forall>b. filed_at (rec_baselines rec) (rt_name target) c \<noteq> Some (Established b)"
        "establish ops (rs_identity (lc_releases lc)) (rt_name target) c BaselineNoRelease w1 = (x, w2)"
        "case x of Inl e \<Rightarrow> r = Err e \<and> w' = w2 | Inr _ \<Rightarrow> r = Ok (IsNotReleased BaselineNoRelease []) \<and> w' = w2"
    | answer where "ask ops lc target p w = (answer, w')" "\<exists>why. r = Ok (IsNotAnswered why)"
proof (cases "read_record ops (rs_identity (lc_releases lc)) w")
  case (Inl e)
  show ?thesis by (rule that(1) [OF Inl]) (use assms Inl in \<open>simp_all add: automated_status_def\<close>)
next
  case (Inr rec)
  note read = this
  obtain answer w1 where a: "ask ops lc target p w = (answer, w1)" by force
  show ?thesis
  proof (cases "filed_at (rec_acknowledgements rec) (rt_name target) c")
    case (Some k)
    show ?thesis by (rule that(2) [OF read Some]) (use assms read Some in \<open>simp_all add: automated_status_def\<close>)
  next
    case None
    note eq = assms [unfolded automated_status_def Let_def read sum.case None option.case a prod.case]
    show ?thesis
    proof (cases "\<exists>b. filed_at (rec_baselines rec) (rt_name target) c = Some (Established b)")
      case True
      then obtain b where b: "filed_at (rec_baselines rec) (rt_name target) c = Some (Established b)" by blast
      show ?thesis by (rule that(3) [OF read a b]) (use eq b in simp)
    next
      case False
      then have open_base: "\<forall>b. filed_at (rec_baselines rec) (rt_name target) c \<noteq> Some (Established b)" by blast
      obtain x w2 where x: "establish ops (rs_identity (lc_releases lc)) (rt_name target) c BaselineNoRelease w1 = (x, w2)" by force
      have eq': "(case answer of
             NoRelease \<Rightarrow> (case x of Inl e \<Rightarrow> (Err e, w2) | Inr _ \<Rightarrow> compare_release ops lc target c BaselineNoRelease answer w2)
           | _ \<Rightarrow> (Ok (IsNotAnswered ''no baseline was captured for the release target at the landing''), w1)) = (r, w')"
      proof (cases "filed_at (rec_baselines rec) (rt_name target) c")
        case None
        show ?thesis using eq unfolding None option.case x prod.case .
      next
        case (Some y)
        then obtain reason time where y: "y = Unestablished reason time" using open_base by (cases y) auto
        show ?thesis using eq unfolding Some y option.case baseline_record.case x prod.case .
      qed
      show ?thesis
      proof (cases answer)
        case NoRelease
        show ?thesis
          by (rule that(4) [OF read a [unfolded NoRelease] open_base x])
            (use eq' NoRelease in \<open>auto simp: compare_release_def split: sum.splits\<close>)
      next
        case (ReleasedAt v)
        show ?thesis by (rule that(5)) (use eq' a ReleasedAt in auto)
      next
        case (NotAnswered why)
        show ?thesis by (rule that(5)) (use eq' a NotAnswered in auto)
      qed
    qed
  qed
qed

lemma establish_reads:
  assumes "establish ops i t c b w = (Ok (), w')" "b = BaselineNoRelease"
  shows "baseline_here ops w' i t c b"
proof -
  from update_cases [OF assms(1) [unfolded establish_def]] obtain a where a: "read_record ops i w = Ok a"
    "w' = w\<lparr>records := (records w)(record_path ops i \<mapsto> RecordDoc (a\<lparr>rec_baselines := file_at t c (Established b) (rec_baselines a)\<rparr>))\<rparr>"
    by auto
  let ?b = "a\<lparr>rec_baselines := file_at t c (Established b) (rec_baselines a)\<rparr>"
  have "usable_record (is_version ops) ?b" "rec_identity ?b = i" "RECORD_VERSION \<le> rec_version ?b"
    using read_record_identity [OF a(1)] assms(2) by (auto simp: usable_record_def usable_baseline_def all_filed_file_at)
  then have "read_record ops i w' = Ok ?b" using a(2) by (simp add: read_record_def)
  then show ?thesis by (simp add: baseline_here_def)
qed
lemma compare_release_advances:
  assumes "compare_release ops lc target c b a w = (r, w')"
  shows "advances ops w w'"
proof -
  have "w' = w \<or> (\<exists>v. say_released ops lc target c v w = (r, w'))"
    using assms by (auto simp: compare_release_def split: release_answer.splits baseline.splits comparison.splits)
  moreover have "advances ops w w'" if "say_released ops lc target c v w = (r, w')" for v
  proof -
    obtain x u where x: "observe ops (rs_identity (lc_releases lc)) target c v w = (x, u)" by force
    then have "u = w'" using that by (cases x) (auto simp: say_released_def)
    with observe_advances [OF x] show ?thesis by simp
  qed
  ultimately show ?thesis by auto
qed

lemma automated_status_advances:
  assumes "automated_status ops lc target p c w = (r, w')"
  shows "advances ops w w'"
  using assms
proof (cases rule: automated_status_cases)
  case (3 rec answer w1 b)
  from advances_trans [OF ask_steps(2) [OF 3(2)] compare_release_advances [OF 3(4)]] show ?thesis .
next
  case (4 rec w1 x w2)
  have "read_record ops (rs_identity (lc_releases lc)) w1 = Ok rec"
    using 4(1) read_record_same [OF ask_steps(1) [OF 4(2)], of ops] by simp
  from advances_trans [OF ask_steps(2) [OF 4(2)] establish_advances [OF 4(4) this 4(3)]] 4(5)
  show ?thesis by (cases x) auto
next
  case (5 answer)
  then show ?thesis using ask_steps(2) by blast
qed simp_all

lemma automated_status_rests:
  assumes "automated_status ops lc target p c w = (Ok st, w')" "n \<le> length (sent w)"
  shows "rests_on ops n (rs_identity (lc_releases lc)) (rt_name target) c w' st"
  using assms(1)
proof (cases rule: automated_status_cases)
  case (2 rec a)
  then show ?thesis by (auto simp: rests_on_def acknowledged_here_def)
next
  case (3 rec answer w1 b)
  have "baseline_here ops w1 (rs_identity (lc_releases lc)) (rt_name target) c b"
    using 3(1,3) read_record_same [OF ask_steps(1) [OF 3(2)], of ops] by (simp add: baseline_here_def)
  from compare_release_rests [OF 3(4) this ask_probed [OF 3(2) assms(2)]] show ?thesis .
next
  case (4 rec w1 x w2)
  then have x: "x = Ok ()" "st = IsNotReleased BaselineNoRelease []" "w' = w2" by (cases x; simp)+
  obtain es where "sent w2 = sent w1 @ es"
    using update_cases [OF 4(4) [unfolded establish_def]] by auto
  with probed_as_mono [OF ask_probed [OF 4(2) assms(2)]] have "probed_as n (rs_identity (lc_releases lc)) (rt_name target) NoRelease w2"
    by blast
  then show ?thesis using x establish_reads [OF 4(4) [unfolded x(1)]] by (simp add: rests_on_def)
next
  case (5 answer)
  then show ?thesis by (auto simp: rests_on_def)
qed simp

lemma human_step_rests:
  assumes "human_step_status ops lc target action c since w = Ok st"
  shows "rests_on ops n (rs_identity (lc_releases lc)) (rt_name target) c w st"
  using assms
  by (auto simp: human_step_status_def and_then_Ok rests_on_def acknowledged_here_def split: option.splits)

text \<open>C7 A landing is answered released only on evidence: an acknowledgement of that very version on
  the record, or a probe that answered it while this question was asked and a baseline
  established at the landing that it has moved past. It is answered not released only on an
  established baseline and an answer of a probe to this question that has not moved past it; a
  question nobody could answer is never read as \<open>not released\<close>. It is answered not
  landed only where the landing tiers say so and every repository could be read.\<close>

theorem release_answers_rest_on_evidence:
  assumes "release_status_of ops resolved (Ok lc) la called w = (Ok st, w')"
  shows "\<exists>target. select_target (lc_releases lc) called = Ok target \<and>
    (case landing_commit_of (la_landed la) of
       None \<Rightarrow> w' = w \<and> (st = IsNotLanded \<and> la_landed la = LandedNo \<and> la_unreadable la = [] \<or> (\<exists>why. st = IsNotAnswered why))
     | Some c \<Rightarrow> rests_on ops (length (sent w)) (rs_identity (lc_releases lc)) (rt_name target) c w' st)"
proof -
  obtain target where t: "select_target (lc_releases lc) called = Ok target"
    using assms by (cases "select_target (lc_releases lc) called") (auto simp: release_status_of_def)
  note eq = assms [unfolded release_status_of_def sum.case t]
  show ?thesis
  proof (cases "landing_commit_of (la_landed la)")
    case None
    then show ?thesis using eq t by (auto split: if_splits)
  next
    case (Some c)
    define w1 where "w1 = (case landed_change_url (la_landed la) of
        Some url \<Rightarrow> snd (reconcile_landing ops resolved lc (la_stream la) c url w) | None \<Rightarrow> w)"
    have "advances ops w w1"
      unfolding w1_def by (auto split: option.splits intro: reconcile_advances [OF prod.collapse [symmetric]])
    then have n: "length (sent w) \<le> length (sent w1)" unfolding advances_def by auto
    have eq': "(case rt_release target of
        Automated p \<Rightarrow> automated_status ops lc target p c w1
      | HumanStep action \<Rightarrow> (human_step_status ops lc target action c (la_since la c) w1, w1)) = (Ok st, w')"
      using eq unfolding Some option.case Let_def w1_def [symmetric] .
    show ?thesis
    proof (cases "rt_release target")
      case (Automated p)
      with eq' have "automated_status ops lc target p c w1 = (Ok st, w')" by simp
      from automated_status_rests [OF this n] show ?thesis using t Some by simp
    next
      case (HumanStep action)
      with eq' show ?thesis using t Some human_step_rests by auto
    qed
  qed
qed

section \<open>Any sequence of operations\<close>

lemma release_status_advances:
  assumes "release_status_of ops resolved found la called w = (r, w')"
  shows "advances ops w w'"
proof (cases "\<exists>lc target c. found = Ok lc \<and> select_target (lc_releases lc) called = Ok target \<and> landing_commit_of (la_landed la) = Some c")
  case True
  then obtain lc target c where f: "found = Ok lc" "select_target (lc_releases lc) called = Ok target"
    "landing_commit_of (la_landed la) = Some c" by blast
  define w1 where "w1 = (case landed_change_url (la_landed la) of
      Some url \<Rightarrow> snd (reconcile_landing ops resolved lc (la_stream la) c url w) | None \<Rightarrow> w)"
  have step: "advances ops w w1"
    unfolding w1_def by (auto split: option.splits intro: reconcile_advances [OF prod.collapse [symmetric]])
  have "(case rt_release target of
        Automated p \<Rightarrow> automated_status ops lc target p c w1
      | HumanStep action \<Rightarrow> (human_step_status ops lc target action c (la_since la c) w1, w1)) = (r, w')"
    using assms [unfolded release_status_of_def f sum.case option.case Let_def w1_def [symmetric]] .
  then show ?thesis using step advances_trans [OF step automated_status_advances]
    by (auto split: release_method.splits)
next
  case False
  then show ?thesis using assms
    by (auto simp: release_status_of_def split: sum.splits option.splits if_splits)
qed
lemma acknowledge_advances:
  assumes "acknowledge ops env found l called v supersede w = (r, w')"
  shows "advances ops w w'"
proof -
  define checks where "checks = and_then found (\<lambda>lc. and_then (select_target (lc_releases lc) (Some called)) (\<lambda>target.
             and_then (case landing_commit_of l of
                 Some c \<Rightarrow> Ok c
               | None \<Rightarrow> if l = LandedNo then Err (NotLandedYet called) else Err (LandingUnknown called)) (\<lambda>commit.
             and_then (case probe_of target of
                 None \<Rightarrow> Ok ()
               | Some _ \<Rightarrow> and_then (read_record ops (rs_identity (lc_releases lc)) w) (\<lambda>r.
                   case filed_at (rec_baselines r) called commit of
                     Some (Established _) \<Rightarrow> Err (ProbeMustAnswer called) | _ \<Rightarrow> Ok ())) (\<lambda>_.
             and_then (if version_of ops v = None then Err (NotAVersion v) else Ok ()) (\<lambda>_.
             and_then (actor_of env) (\<lambda>actor. Ok (lc, target, commit, actor)))))))"
  note eq = assms [unfolded acknowledge_def checks_def [symmetric]]
  show ?thesis
  proof (cases checks)
    case (Inl e)
    then show ?thesis using eq by simp
  next
    case (Inr y)
    obtain lc target commit actor where y: "y = (lc, target, commit, actor)" by (cases y)
    let ?i = "rs_identity (lc_releases lc)"
    obtain x w1 where x: "write_acknowledgement ops ?i called commit v actor supersede w = (x, w1)" by force
    note step = write_acknowledgement_advances [OF x]
    note eq' = eq [unfolded Inr y sum.case prod.case Let_def x]
    show ?thesis
    proof (cases x)
      case (Inl e)
      then show ?thesis using eq' step by simp
    next
      case (Inr z)
      obtain a how where z: "z = (a, how)" by force
      have say: "advances ops w (emit_release (ReleaseAcknowledged ?i called v commit actor b) w1)" for b
        using advances_trans [OF step advances_sent] by (simp add: says_observed_def)
      show ?thesis
      proof (cases how)
        case FirstRecord
        obtain q w2 where q: "observe ops ?i target commit v
            (emit_release (ReleaseAcknowledged ?i called v commit actor None) w1) = (q, w2)" by force
        have "w' = w2" using eq' Inr z FirstRecord q by (cases q) auto
        then show ?thesis using advances_trans [OF say observe_advances [OF q]] by simp
      next
        case (Correction old)
        then show ?thesis using eq' Inr z say [of "Some old"] by auto
      next
        case NothingWritten
        then show ?thesis using eq' Inr z step by auto
      qed
    qed
  qed
qed

text \<open>What a host does about releases, in any order and any number of times: it asks, acknowledges, takes
  baselines, reconciles a landing; between any two of those everything outside the records changes freely.\<close>

inductive release_step :: "('v::linorder, 'w) release_ops \<Rightarrow> 'w release_world \<Rightarrow> 'w release_world \<Rightarrow> bool" for ops where
  elsewhere: "release_step ops w (w\<lparr>outer := u\<rparr>)"
| asked_status: "release_status_of ops resolved found la called w = (r, w') \<Longrightarrow> release_step ops w w'"
| asked_latest: "latest ops lc called w = (r, w') \<Longrightarrow> release_step ops w w'"
| discovered: "discover_each ops lc ts w = (d, w') \<Longrightarrow> release_step ops w w'"
| took_baselines: "record_baselines ops found c w = w' \<Longrightarrow> release_step ops w w'"
| reconciled: "reconcile_landing ops resolved lc token c url w = (b, w') \<Longrightarrow> release_step ops w w'"
| acknowledged: "acknowledge ops env found l called v supersede w = (k, w') \<Longrightarrow> release_step ops w w'"

lemma release_step_advances: "release_step ops w w' \<Longrightarrow> advances ops w w'"
proof (induction rule: release_step.induct)
  case (asked_status resolved found la called w r w')
  then show ?case by (rule release_status_advances)
next
  case (asked_latest lc called w r w')
  then show ?case by (cases "select_target (lc_releases lc) called") (auto simp: latest_def dest: target_answer_advances)
next
  case (discovered lc ts w d w')
  then show ?case by (rule discover_advances)
next
  case (took_baselines found c w w')
  then show ?case
    by (auto simp: record_baselines_def capture_in_def split: sum.splits intro: capture_advances [OF prod.collapse [symmetric]])
next
  case (reconciled resolved lc token c url w b w')
  then show ?case by (rule reconcile_advances)
next
  case (acknowledged env found l called v supersede w k w')
  then show ?case by (rule acknowledge_advances)
qed simp

lemma release_steps_advance: "(release_step ops)\<^sup>*\<^sup>* w w' \<Longrightarrow> advances ops w w'"
  by (induction rule: rtranclp_induct) (auto intro: advances_trans release_step_advances)


section \<open>A reason of several lines\<close>

lemma any_control_Cons: "any_control s \<Longrightarrow> any_control (a # s)"
  by (cases s) auto

lemma any_control_append: "any_control s \<Longrightarrow> any_control (p @ s)"
  by (induction p) (auto intro: any_control_Cons)

lemma unusable_stays:
  assumes "advances ops w w'" "records w (record_path ops i) = Some (RecordDoc r)" "\<not> usable_record (is_version ops) r"
  shows "\<exists>why. read_record ops i w' = Err (RecordRefused why)"
  using assms unfolding advances_def by (auto simp: read_record_def)

section \<open>A repository that releases one target\<close>

definition sample_version :: "str \<Rightarrow> nat option" where
  "sample_version s = (if s = ''1.0.0'' then Some 100 else if s = ''1.1.0'' then Some 110 else None)"

definition sample_target :: release_target where
  "sample_target = \<lparr>rt_name = ''crate'', rt_release = Automated (ScriptProbe ''s/latest'' [] 30), rt_instructions = None\<rparr>"

definition sample_located :: located where
  "sample_located =
     \<lparr>lc_releases = \<lparr>rs_identity = ''github.com/o/r'', rs_adoption = Fast, rs_default = Some ''crate'', rs_targets = [sample_target],
        rs_declaration = Undeclared ''no release.toml'', rs_sources = Map.empty\<rparr>, lc_checkout = CheckoutAt ''/r''\<rparr>"

definition sample_ops :: "(nat, unit) release_ops" where
  "sample_ops =
     \<lparr>run_probe = (\<lambda>_ _ u. (Exited (Some 0) ''1.1.0'' [], u)), is_utf8 = (\<lambda>_. True), version_of = sample_version,
      clock = (\<lambda>_. ''2026-01-02T03:04:05.678Z''), digest_of = (\<lambda>s. s), lock_record = (\<lambda>_ _. Ok ()),
      write_record = (\<lambda>_ _. Ok ()), fast_forward = (\<lambda>_ u. (Ok (), u)),
      tags_containing = (\<lambda>_ _ _. Err (''fatal: detected dubious ownership'' @ [CHR 0x0A] @ ''To add an exception'')),
      opens_stream = (\<lambda>_ _. False)\<rparr>"

definition sample_record :: release_record where
  "sample_record = (empty_record ''github.com/o/r'')\<lparr>rec_baselines := [(''crate'', [(''c'', Established (BaselineAt ''1.0.0''))])]\<rparr>"

definition sample_world :: "unit release_world" where
  "sample_world = \<lparr>records = [record_path sample_ops ''github.com/o/r'' \<mapsto> RecordDoc sample_record], sent = [], outer = ()\<rparr>"

definition sample_answer :: landing_answer where
  "sample_answer = \<lparr>la_identity = ''github.com/o/r'', la_landed = LandedYes (RecordedLanding ''c''), la_unreadable = [],
     la_stream = None, la_since = (\<lambda>_. None)\<rparr>"

definition sample_asked :: "unit release_world \<Rightarrow> (releases_error + release_status) \<times> unit release_world" where
  "sample_asked w = release_status_of sample_ops (Err NoVersion) (Ok sample_located) sample_answer None w"

lemma sample_asked_released:
  "fst (sample_asked sample_world) = Ok (IsReleased ''crate'' AutomatedStyle ''1.1.0'' FromProbe)"
  by code_simp

theorem release_answers_rest_on_evidence_witness:
  "rests_on sample_ops 0 ''github.com/o/r'' ''crate'' ''c'' (snd (sample_asked sample_world))
     (IsReleased ''crate'' AutomatedStyle ''1.1.0'' FromProbe)"
proof -
  obtain st w' where r: "sample_asked sample_world = (st, w')" by force
  with sample_asked_released have st: "st = Ok (IsReleased ''crate'' AutomatedStyle ''1.1.0'' FromProbe)" by simp
  from release_answers_rest_on_evidence [OF r [unfolded st sample_asked_def]] show ?thesis
    using r by (auto simp: sample_answer_def sample_world_def sample_located_def landing_commit_of_def select_target_def
        sample_target_def ok_or_def)
qed



end
