(* ===== verification/Spec2Isabelle.thy ===== *)
theory Spec2Isabelle
  imports Labels Ids Json Remainder Wildcards Store Policy Graph Provenance Events MergeQueue Landing Landed Verified Retiring Closing Stacking Releasing
begin

text \<open>
  onevcs drives git and a host for many unattended processes at once: it opens sessions on branches of a
  repository, publishes what they made, lands it, and retires the branches whose work has landed. This
  development models the decisions it makes and the state it keeps, from \<open>src/crates/onevcs/src\<close>. What the
  source only calls - git itself, the host's API, the file system's calls, serde's encodings, regular
  expressions, the clock and digests - is a parameter of the definitions that use it: a \<open>git\<close> is the
  function from a command's arguments to what it printed, a host or a world is a record of functions, and
  what a property needs of them is a named hypothesis with an instance that satisfies it.

  The theories, each after the files it models:

  \<^item> Prelude: the parts of Rust's standard library the source uses on text (lists of UTF-8 bytes), results
    (\<open>Inl\<close> is \<open>Err\<close>) and ordered maps, with the automation the components share.
  \<^item> Labels (\<open>label.rs\<close>), Ids (\<open>ids.rs\<close>, object ids and branch names of \<open>git.rs\<close>, \<open>lfs_pointer.rs\<close>), Json
    (\<open>serde_json::Value\<close>) and Remainder (\<open>remainder.rs\<close>): labels, identifiers and timestamps, and what a newer
    writer stored that this build does not understand, which a rewrite keeps.
  \<^item> Wildcards (the globs of \<open>policy.rs\<close> and \<open>releases.rs\<close>) and Policy (\<open>rules.rs\<close>, \<open>policy.rs\<close>): a rules file is
    parsed and validated, resolved for an identity, and narrowed by a caller. Store (\<open>store.rs\<close>,
    \<open>registry.rs\<close>): the normal form of a repository's address, the registry document with its migrations,
    and the resolution of a reference.
  \<^item> Graph (\<open>native_objects.rs\<close>): the merge base, ancestry, counts and ranges of a history, by the paint the
    source walks it with. Provenance (\<open>provenance.rs\<close>, \<open>significance.rs\<close>): trailers, attestations and the
    subject of a publication. GitReads and Refs (\<open>git.rs\<close>): the arguments of each read and how its answer is
    read - histories, content, branches, remotes, worktrees, pushes.
  \<^item> Events (\<open>event.rs\<close>, \<open>vocabulary.rs\<close>), Leases (\<open>lock.rs\<close>) and MergeQueue (\<open>queue.rs\<close>): the vocabulary of the
    event stream, advisory locks, and the queue of merges, as a step relation over the interleaved steps of
    processes that may die anywhere.
  \<^item> Checks, Watch and Landing (\<open>publish.rs\<close>, \<open>host.rs\<close>, \<open>standings.rs\<close>, \<open>gate_run.rs\<close>): the verdict on a change
    request's checks, the loops that watch it, and the rounds that land it under the merge turn.
  \<^item> Landed (\<open>landed.rs\<close>): the four tiers that decide whether a branch's work is on its base.
  \<^item> Files (\<open>home.rs\<close>), Verdicts (\<open>verdict.rs\<close>) and Verified (\<open>verified.rs\<close>, \<open>base_merge.rs\<close>,
    \<open>publish_branch.rs\<close>): replacing a file whole, the verdicts kept per branch, and the publication that is
    resumed at its verified boundary.
  \<^item> Retirement, Judging, Retire and Retiring (\<open>retire.rs\<close>): the classes and their document, what one copy of a
    branch turns out to be, the classification and the deletion of every copy, and what they guarantee.
  \<^item> Closing (\<open>closing.rs\<close>): the issue-closing references a squash carries and a landing reports.
  \<^item> Merging (the merges, resets and preserving pushes of \<open>git.rs\<close>), StackBase (\<open>stack_base.rs\<close>) and Stacking: the
    assembly of a stack base out of several branches, over a repository whose state is a parameter, and what
    it guarantees of the branch it pushes, of a failed assembly and of the record of its parents.
  \<^item> Releases (\<open>releases.rs\<close> and the first half of \<open>release.rs\<close>): the targets a repository releases, the document
    they are read from, and the layers they resolve in. Release (\<open>release.rs\<close>, \<open>probe.rs\<close>): what a probe
    answers, the record of an identity, and whether a landing is released; Releasing: what that guarantees
    over any sequence of operations.

  How they meet. Verdicts, boundaries and pushes are kept through the one contract of Files, the locale
  \<open>kept_records\<close>, interpreted on each of the three stores: what is read under a key was put under it. A
  retirement asks Landed's evidence and Judging's copies over GitReads and Refs, and reuses what Verdicts
  kept. A stack base is written with Provenance's trailers and pushed with Merging. A release is asked of the
  landing Landed answers, its repository found through Store and its rule matched with Policy. A landing
  round watches checks with Watch and takes the turn of MergeQueue. Verified narrows with
  Policy and decides a moved base with the reads of Refs.

  What the lemmas show. Each component has its invariant or its inversion lemmas (\<open>..._Ok\<close>, \<open>..._cases\<close>,
  \<open>..._Some\<close>), from which its properties follow in a few steps. The paint of Graph keeps an invariant from
  which the merge base is the best common ancestor; the queue keeps one from which one process holds the
  turn; every loop of Watch and Landing is shown to return where the clock moves, by the time that is left.
  Of retirement, everything that changes the world adds nothing to what was lost but the two deletions
  (the \<open>..._gone\<close> lemmas), and a deletion that stops puts back what it deleted (\<open>..._recovers\<close>). An assembly
  of a stack base is followed merge by merge (\<open>Stacking\<close>); every operation on the release record is shown to
  move the world forward (the \<open>..._advances\<close> lemmas), which sequences compose, and the reads behind a status
  to be evidence for it (\<open>..._rests\<close>).

  Bounds. Loops that may not end are \<open>while_option\<close>, and that they return is a property of its own. The
  walk over commits that change nothing stops at \<open>CONTENT_FREE_WALK\<close>, a retirement reclassifies at most
  \<open>RECLASSIFICATIONS\<close> times, and numbers read from text are held to the width the source parses them at;
  no fuel is chosen by the model.

  Not modelled: the command line and its wording, the supervision of processes, worktrees and clones on
  disk, the recovery and pool scans, archives, the reports of \<open>status.rs\<close>, the queries sent to a
  host, and the exposure boundary's regular expressions. They are input and output around the decisions,
  or third-party code. The operations on a release record are taken one at a time: its lock is a call that
  succeeds or not, and the read before a probe and the write after it are not interleaved with another
  process's. Opening the stream an event goes to is taken to succeed, except for a landing found late. The
  tables of Unicode beyond white space and control characters are parameters.
\<close>

end
